(* ===== verification/Prelude.thy ===== *)
theory Prelude
  imports Main "HOL-Library.Word" "HOL-Library.AList" "HOL-Library.Signed_Division"
begin

text \<open>
  The vocabulary the component theories share: Go's fixed-width integers, nil-able byte slices,
  built-in maps, buffered channels, instants and durations, and the byte-stream readers behind
  \<^verbatim>\<open>io.ReadFull\<close>, each with the few laws the component proofs rest on.  Go's \<^verbatim>\<open>int\<close>
  and \<^verbatim>\<open>int64\<close> are 64 bits wide on every platform the build targets (amd64, arm64); they are
  HOL integers with the wrap-around of addition written out by \<open>i64\<close>.
\<close>

unbundle bit_operations_syntax

named_theorems go_simps \<open>evaluation rules of the Go built-ins\<close>
named_theorems inv_intros \<open>an operation preserves its component's invariant\<close>

subsection \<open>Machine integers\<close>

type_synonym byte = "8 word"
type_synonym bytes = "byte list"
type_synonym u16 = "16 word"
type_synonym u32 = "32 word"
type_synonym u64 = "64 word"

definition max_i64 :: int where
  "max_i64 = 2 ^ 63 - 1"

definition i64 :: "int \<Rightarrow> int" where
  "i64 x = (x + 2 ^ 63) mod 2 ^ 64 - 2 ^ 63"

lemma i64_id: "- (2 ^ 63) \<le> x \<Longrightarrow> x < 2 ^ 63 \<Longrightarrow> i64 x = x"
  by (simp add: i64_def)

lemma i64_range: "- (2 ^ 63) \<le> i64 x \<and> i64 x < 2 ^ 63"
  by (simp add: i64_def)

lemma i64_add_left: "i64 (i64 a + b) = i64 (a + b)"
proof -
  have eq: "i64 a + b + 2 ^ 63 = (a + 2 ^ 63) mod 2 ^ 64 + b"
    by (simp add: i64_def)
  have "i64 (i64 a + b) = ((a + 2 ^ 63) mod 2 ^ 64 + b) mod 2 ^ 64 - 2 ^ 63"
    unfolding i64_def [of "i64 a + b"] eq ..
  also have "\<dots> = i64 (a + b)"
    unfolding i64_def by (simp only: mod_add_left_eq) (simp add: algebra_simps)
  finally show ?thesis .
qed

text \<open>Indexing a slice panics out of range; \<open>None\<close> is the panic.\<close>

definition go_index :: "'a list \<Rightarrow> int \<Rightarrow> 'a option" where
  "go_index xs i = (if 0 \<le> i \<and> i < int (length xs) then Some (xs ! nat i) else None)"

lemma go_index_nat [simp]: "i < length xs \<Longrightarrow> go_index xs (int i) = Some (xs ! i)"
  by (simp add: go_index_def)

lemma go_index_mem: "go_index xs i = Some x \<Longrightarrow> x \<in> set xs"
  by (auto simp: go_index_def split: if_splits)

lemma nth_update_if: "j < length xs \<Longrightarrow> xs[i := x] ! j = (if i = j then x else xs ! j)"
  by simp

text \<open>\<^verbatim>\<open>xs[a:b]\<close>, for bounds the code has checked.\<close>

definition go_slice :: "'a list \<Rightarrow> nat \<Rightarrow> nat \<Rightarrow> 'a list" where
  "go_slice xs a b = take (b - a) (drop a xs)"

lemma length_go_slice: "b \<le> length xs \<Longrightarrow> length (go_slice xs a b) = b - a"
  by (simp add: go_slice_def)

lemma take_take_drop: "take n xs @ take m (drop n xs) @ drop (n + m) xs = xs"
proof -
  have "take m (drop n xs) @ drop (n + m) xs = drop n xs"
    using append_take_drop_id [of m "drop n xs"] by (simp add: add.commute)
  then show ?thesis by simp
qed

text \<open>Go's \<^verbatim>\<open>%\<close> truncates towards zero; on non-negative operands it is \<open>mod\<close>.\<close>

lemma smod_nonneg: "0 \<le> (a::int) \<Longrightarrow> 0 < b \<Longrightarrow> a smod b = a mod b"
  by (cases "a = 0") (auto simp: signed_modulo_int_def)

lemma sdiv_nonneg: "0 \<le> (a::int) \<Longrightarrow> 0 < b \<Longrightarrow> a sdiv b = a div b"
  by (cases "a = 0") (auto simp: signed_divide_int_def)

subsection \<open>Nil-able byte slices\<close>

text \<open>A \<^verbatim>\<open>[]byte\<close> is \<open>None\<close> when it is \<^verbatim>\<open>nil\<close>: the reorderer's callers compare with \<^verbatim>\<open>nil\<close>.\<close>

type_synonym slice = "bytes option"

definition slice_bytes :: "slice \<Rightarrow> bytes" where
  "slice_bytes s = (case s of None \<Rightarrow> [] | Some b \<Rightarrow> b)"

lemma slice_bytes_simps [simp]: "slice_bytes None = []" "slice_bytes (Some b) = b"
  by (simp_all add: slice_bytes_def)

subsection \<open>Big-endian integers\<close>

definition PutUint16 :: "u16 \<Rightarrow> bytes" where
  "PutUint16 v = [ucast (drop_bit 8 v), ucast v]"

definition PutUint32 :: "u32 \<Rightarrow> bytes" where
  "PutUint32 v = [ucast (drop_bit 24 v), ucast (drop_bit 16 v), ucast (drop_bit 8 v), ucast v]"

definition Uint16 :: "bytes \<Rightarrow> u16" where
  "Uint16 b = ucast (b ! 1) OR push_bit 8 (ucast (b ! 0))"

definition Uint32 :: "bytes \<Rightarrow> u32" where
  "Uint32 b = ucast (b ! 3) OR push_bit 8 (ucast (b ! 2)) OR push_bit 16 (ucast (b ! 1))
     OR push_bit 24 (ucast (b ! 0))"

lemma length_PutUint [simp]: "length (PutUint16 v) = 2" "length (PutUint32 w) = 4"
  by (simp_all add: PutUint16_def PutUint32_def)

lemma Uint16_PutUint16 [simp]: "Uint16 (PutUint16 v) = v"
proof (rule bit_word_eqI)
  fix n assume "n < LENGTH(16)"
  then show "bit (Uint16 (PutUint16 v)) n = bit v n"
    by (cases "n < 8")
      (auto simp: Uint16_def PutUint16_def bit_or_iff bit_push_bit_iff bit_ucast_iff bit_drop_bit_eq)
qed

lemma Uint32_PutUint32 [simp]: "Uint32 (PutUint32 v) = v"
proof (rule bit_word_eqI)
  fix n assume n: "n < LENGTH(32)"
  then consider "n < 8" | "8 \<le> n" "n < 16" | "16 \<le> n" "n < 24" | "24 \<le> n" "n < 32"
    by fastforce
  then show "bit (Uint32 (PutUint32 v)) n = bit v n"
    by cases
      (auto simp: Uint32_def PutUint32_def bit_or_iff bit_push_bit_iff bit_ucast_iff
        bit_drop_bit_eq)
qed

lemma PutUint16_Uint16 [simp]: "PutUint16 (Uint16 [a, b]) = [a, b]"
  by (auto simp: Uint16_def PutUint16_def intro!: bit_word_eqI)
    (auto simp: bit_or_iff bit_push_bit_iff bit_ucast_iff bit_drop_bit_eq dest: bit_imp_le_length)

lemma PutUint32_Uint32 [simp]: "PutUint32 (Uint32 [a, b, c, d]) = [a, b, c, d]"
  by (auto simp: Uint32_def PutUint32_def intro!: bit_word_eqI)
    (auto simp: bit_or_iff bit_push_bit_iff bit_ucast_iff bit_drop_bit_eq dest: bit_imp_le_length)

subsection \<open>Built-in maps\<close>

text \<open>
  A Go map is an association list with distinct keys; the order of the list is one of the orders
  in which \<^verbatim>\<open>range\<close> may visit it.  The interface and its laws are a locale, so that the
  components use the laws and never the representation.
\<close>

type_synonym ('k, 'v) gomap = "('k \<times> 'v) list"

definition gm_get :: "('k, 'v) gomap \<Rightarrow> 'k \<Rightarrow> 'v option" where
  "gm_get m = map_of m"

definition gm_put :: "'k \<Rightarrow> 'v \<Rightarrow> ('k, 'v) gomap \<Rightarrow> ('k, 'v) gomap" where
  "gm_put k v m = AList.update k v m"

definition gm_del :: "'k \<Rightarrow> ('k, 'v) gomap \<Rightarrow> ('k, 'v) gomap" where
  "gm_del k m = AList.delete k m"

definition gm_len :: "('k, 'v) gomap \<Rightarrow> nat" where
  "gm_len m = length m"

definition gm_keys :: "('k, 'v) gomap \<Rightarrow> 'k list" where
  "gm_keys m = map fst m"

definition gm_ok :: "('k, 'v) gomap \<Rightarrow> bool" where
  "gm_ok m \<longleftrightarrow> distinct (map fst m)"

locale go_map =
  fixes empty :: 'm
    and get :: "'m \<Rightarrow> 'k \<Rightarrow> 'v option"
    and put :: "'k \<Rightarrow> 'v \<Rightarrow> 'm \<Rightarrow> 'm"
    and del :: "'k \<Rightarrow> 'm \<Rightarrow> 'm"
    and len :: "'m \<Rightarrow> nat"
    and keys :: "'m \<Rightarrow> 'k list"
    and ok :: "'m \<Rightarrow> bool"
  assumes get_empty: "get empty = Map.empty"
    and get_put: "get (put k v m) = (get m)(k \<mapsto> v)"
    and get_del: "get (del k m) = (get m)(k := None)"
    and set_keys: "set (keys m) = dom (get m)"
    and distinct_keys: "ok m \<Longrightarrow> distinct (keys m)"
    and len_keys: "len m = length (keys m)"
    and ok_empty: "ok empty"
    and ok_put: "ok m \<Longrightarrow> ok (put k v m)"
    and ok_del: "ok m \<Longrightarrow> ok (del k m)"
begin

lemma len_dom: "ok m \<Longrightarrow> len m = card (dom (get m))"
  by (metis distinct_card distinct_keys len_keys set_keys)

lemma finite_dom: "finite (dom (get m))"
  by (metis List.finite_set set_keys)

lemma len_zero_iff: "len m = 0 \<longleftrightarrow> get m = Map.empty"
  by (metis dom_eq_empty_conv len_keys length_0_conv set_empty set_keys)

lemma len_del_less: "ok m \<Longrightarrow> get m k = Some v \<Longrightarrow> len (del k m) < len m"
  by (simp add: len_dom ok_del get_del del: card_Diff_insert)
    (metis card_Diff1_less domI finite_dom)

lemma len_put_old: "ok m \<Longrightarrow> get m k = Some w \<Longrightarrow> len (put k v m) = len m"
  by (simp add: len_dom ok_put get_put domI insert_absorb)

lemma len_put_new: "ok m \<Longrightarrow> get m k = None \<Longrightarrow> len (put k v m) = Suc (len m)"
  by (simp add: len_dom ok_put get_put finite_dom domIff)

end

interpretation gm: go_map "[]" gm_get gm_put gm_del gm_len gm_keys gm_ok
proof unfold_locales
  fix m :: "('k, 'v) gomap" and k v
  show "gm_get (gm_put k v m) = (gm_get m)(k \<mapsto> v)"
    by (simp add: gm_get_def gm_put_def update_conv')
  show "gm_get (gm_del k m) = (gm_get m)(k := None)"
    by (simp add: gm_get_def gm_del_def delete_conv')
  show "gm_ok m \<Longrightarrow> gm_ok (gm_put k v m)"
    by (simp add: gm_ok_def gm_put_def distinct_update)
  show "gm_ok m \<Longrightarrow> gm_ok (gm_del k m)"
    by (simp add: gm_ok_def gm_del_def distinct_delete)
qed (auto simp: gm_get_def gm_keys_def gm_ok_def gm_len_def dom_map_of_conv_image_fst)

lemmas gm_laws [simp] =
  gm.get_empty gm.get_put gm.get_del gm.set_keys gm.ok_empty gm.ok_put gm.ok_del

lemma gm_get_member: "gm_ok m \<Longrightarrow> (k, v) \<in> set m \<Longrightarrow> gm_get m k = Some v"
  by (simp add: gm_get_def gm_ok_def)

lemma gm_get_entry: "gm_get m k = Some v \<Longrightarrow> (k, v) \<in> set m"
  by (simp add: gm_get_def map_of_SomeD)

lemma gm_del_length: "gm_get m k = Some v \<Longrightarrow> length (gm_del k m) < length m"
  by (induction m) (auto simp: gm_get_def gm_del_def le_imp_less_Suc length_delete_le)

text \<open>Deleting the entries of a map while ranging over it keeps those the loop body accepts.\<close>

definition gm_filter :: "('k \<Rightarrow> 'v \<Rightarrow> bool) \<Rightarrow> ('k, 'v) gomap \<Rightarrow> ('k, 'v) gomap" where
  "gm_filter P m = filter (\<lambda>(k, v). P k v) m"

lemma gm_ok_filter [simp]: "gm_ok m \<Longrightarrow> gm_ok (gm_filter P m)"
  unfolding gm_ok_def gm_filter_def by (induction m) auto

lemma gm_get_filter:
  "gm_ok m \<Longrightarrow> gm_get (gm_filter P m) k =
     (case gm_get m k of None \<Rightarrow> None | Some v \<Rightarrow> if P k v then Some v else None)"
  unfolding gm_ok_def gm_filter_def gm_get_def
  by (induction m) (auto split: option.splits simp: map_of_eq_None_iff rev_image_eqI)

subsection \<open>Buffered channels\<close>

text \<open>
  \<^verbatim>\<open>select { case ch <- x: default: }\<close> on a channel of the given capacity: the new queue and
  whether the value was accepted.
\<close>

definition chan_trysend :: "nat \<Rightarrow> 'a \<Rightarrow> 'a list \<Rightarrow> 'a list \<times> bool" where
  "chan_trysend cap x q = (if length q < cap then (q @ [x], True) else (q, False))"

fun chan_trysends :: "nat \<Rightarrow> 'a list \<Rightarrow> 'a list \<Rightarrow> 'a list" where
  "chan_trysends cap [] q = q"
| "chan_trysends cap (x # xs) q = chan_trysends cap xs (fst (chan_trysend cap x q))"

lemma chan_trysends_room: "length q + length xs \<le> cap \<Longrightarrow> chan_trysends cap xs q = q @ xs"
  by (induction xs arbitrary: q) (auto simp: chan_trysend_def)

lemma chan_trysends_bound: "length q \<le> cap \<Longrightarrow> length (chan_trysends cap xs q) \<le> cap"
  by (induction xs arbitrary: q) (auto simp: chan_trysend_def)

subsection \<open>Instants and durations\<close>

text \<open>
  An instant is a number of nanoseconds; the zero \<^verbatim>\<open>time.Time\<close> is \<open>None\<close> where the code
  tests \<^verbatim>\<open>IsZero\<close>.  \<^verbatim>\<open>Sub\<close> saturates at the bounds of \<^verbatim>\<open>time.Duration\<close>.
\<close>

type_synonym time = int
type_synonym duration = int

definition second :: duration where
  "second = 1000000000"

definition time_sub :: "time \<Rightarrow> time \<Rightarrow> duration" where
  "time_sub a b = max (- (2 ^ 63)) (min (2 ^ 63 - 1) (a - b))"

lemma time_sub_self [simp]: "time_sub a a = 0"
  by (simp add: time_sub_def)

lemma time_sub_less: "0 < d \<Longrightarrow> d < 2 ^ 63 \<Longrightarrow> time_sub a b < d \<longleftrightarrow> a - b < d"
  by (auto simp: time_sub_def)

subsection \<open>Readers\<close>

text \<open>
  A reader is the bytes it will deliver and the error that follows them.  \<^verbatim>\<open>io.ReadFull\<close> blocks
  until the buffer is full or the stream ends; a short read reports \<^verbatim>\<open>io.ErrUnexpectedEOF\<close>
  in place of \<^verbatim>\<open>io.EOF\<close> once at least one byte has arrived.
\<close>

datatype io_error = EOF | UnexpectedEOF | ClosedConn | OtherErr string

record reader =
  rd_data :: bytes
  rd_end :: io_error

definition ReadFull :: "reader \<Rightarrow> nat \<Rightarrow> (io_error + bytes) \<times> reader" where
  "ReadFull r n =
     (if n \<le> length (rd_data r) then (Inr (take n (rd_data r)), r\<lparr>rd_data := drop n (rd_data r)\<rparr>)
      else (Inl (if rd_data r \<noteq> [] \<and> rd_end r = EOF then UnexpectedEOF else rd_end r),
            r\<lparr>rd_data := []\<rparr>))"

lemma ReadFull_append [simp]:
  "n = length xs \<Longrightarrow>
     ReadFull \<lparr>rd_data = xs @ ys, rd_end = e\<rparr> n = (Inr xs, \<lparr>rd_data = ys, rd_end = e\<rparr>)"
  by (simp add: ReadFull_def)

lemma ReadFull_short: "length (rd_data r) < n \<Longrightarrow> \<exists>e. fst (ReadFull r n) = Inl e"
  by (simp add: ReadFull_def)

lemma ReadFull_InrD:
  "ReadFull r n = (Inr xs, r') \<Longrightarrow>
     rd_data r = xs @ rd_data r' \<and> length xs = n \<and> rd_end r' = rd_end r"
  by (auto simp: ReadFull_def split: if_splits)

subsection \<open>Writers\<close>

text \<open>
  The outcome of one \<^verbatim>\<open>Write\<close>, following the contract of \<^verbatim>\<open>io.Writer\<close>: everything is written, or
  \<open>k\<close> bytes and an error.
\<close>

datatype write_outcome = WroteAll | WroteSome nat io_error

definition inner_write :: "write_outcome \<Rightarrow> bytes \<Rightarrow> nat \<times> io_error option" where
  "inner_write out p =
     (case out of WroteAll \<Rightarrow> (length p, None) | WroteSome k e \<Rightarrow> (min k (length p), Some e))"

subsection \<open>Transition systems\<close>

text \<open>
  The contract of a component whose operations interleave: an invariant that holds initially and
  that every step keeps, hence holds in every reachable state.
\<close>

locale invariant_system =
  fixes init :: "'s \<Rightarrow> bool"
    and step :: "'s \<Rightarrow> 's \<Rightarrow> bool"
    and inv :: "'s \<Rightarrow> bool"
  assumes inv_init: "init s \<Longrightarrow> inv s"
    and inv_step: "inv s \<Longrightarrow> step s t \<Longrightarrow> inv t"
begin

lemma inv_steps: "step\<^sup>*\<^sup>* s t \<Longrightarrow> inv s \<Longrightarrow> inv t"
  by (induction rule: rtranclp_induct) (auto intro: inv_step)

lemma reachable_inv: "init s \<Longrightarrow> step\<^sup>*\<^sup>* s t \<Longrightarrow> inv t"
  using inv_init inv_steps by blast

end

text \<open>
  A run in which a component's own steps, counted, interleave with steps of its surroundings, all of them taken while
  the component is busy.
\<close>

inductive interleaved ::
  "('s \<Rightarrow> 's \<Rightarrow> bool) \<Rightarrow> ('s \<Rightarrow> 's \<Rightarrow> bool) \<Rightarrow> ('s \<Rightarrow> bool) \<Rightarrow> nat \<Rightarrow> 's \<Rightarrow> 's \<Rightarrow> bool"
  for go env :: "'s \<Rightarrow> 's \<Rightarrow> bool" and busy :: "'s \<Rightarrow> bool" where
  stay: "interleaved go env busy 0 s s"
| own: "busy s \<Longrightarrow> go s t \<Longrightarrow> interleaved go env busy n t u \<Longrightarrow> interleaved go env busy (Suc n) s u"
| other: "busy s \<Longrightarrow> env s t \<Longrightarrow> interleaved go env busy n t u \<Longrightarrow> interleaved go env busy n s u"

text \<open>
  The contract of a task that ends: while it is busy one of its own steps is enabled, each of them makes its work
  smaller, and its surroundings do not add to the work.
\<close>

locale terminating_system = invariant_system init step inv
  for init :: "'s \<Rightarrow> bool" and step :: "'s \<Rightarrow> 's \<Rightarrow> bool" and inv :: "'s \<Rightarrow> bool" +
  fixes go env :: "'s \<Rightarrow> 's \<Rightarrow> bool"
    and busy :: "'s \<Rightarrow> bool"
    and work :: "'s \<Rightarrow> nat"
  assumes go_step: "go s t \<Longrightarrow> step s t"
    and env_step: "env s t \<Longrightarrow> step s t"
    and progress: "inv s \<Longrightarrow> busy s \<Longrightarrow> \<exists>t. go s t"
    and go_shrinks: "inv s \<Longrightarrow> busy s \<Longrightarrow> go s t \<Longrightarrow> work t < work s"
    and env_bounded: "inv s \<Longrightarrow> busy s \<Longrightarrow> env s t \<Longrightarrow> work t \<le> work s"
begin

lemma interleaved_inv: "interleaved go env busy n s t \<Longrightarrow> inv s \<Longrightarrow> inv t"
  by (induction rule: interleaved.induct) (auto intro: inv_step go_step env_step)

lemma never_stuck: "interleaved go env busy n s t \<Longrightarrow> inv s \<Longrightarrow> busy t \<Longrightarrow> \<exists>u. go t u"
  using interleaved_inv progress by blast

lemma work_bounds: "interleaved go env busy n s t \<Longrightarrow> inv s \<Longrightarrow> n + work t \<le> work s"
proof (induction rule: interleaved.induct)
  case (own s t n u)
  then show ?case using inv_step go_step go_shrinks by fastforce
next
  case (other s t n u)
  then show ?case using inv_step env_step env_bounded by fastforce
qed simp

lemma finishes: "inv s \<Longrightarrow> \<exists>n t. interleaved go (\<lambda>_ _. False) busy n s t \<and> \<not> busy t"
proof (induction "work s" arbitrary: s rule: less_induct)
  case less
  show ?case
  proof (cases "busy s")
    case True
    then obtain t where t: "go s t" using progress less.prems by blast
    with less.hyps [of t] go_shrinks [OF less.prems True t] inv_step [OF less.prems go_step [OF t]]
    obtain n u where u: "interleaved go (\<lambda>_ _. False) busy n t u" "\<not> busy u" by blast
    have "interleaved go (\<lambda>_ _. False) busy (Suc n) s u" by (rule interleaved.own) (fact True t u)+
    then show ?thesis using u by blast
  qed (auto intro: interleaved.stay)
qed

end

end
