(* ===== verification/Protocol.thy ===== *)
theory Protocol
  imports Prelude
begin

text \<open>
  The tunnel wire protocol of \<^verbatim>\<open>internal/tunnel/protocol.go\<close>: frames and their flags, the frame
  codec, the connection-id generator and the SYN payload codec.  A write error of the underlying
  connection is the argument \<open>w\<close> of \<open>WriteFrame\<close>: what \<^verbatim>\<open>w.Write\<close> answers for a buffer.
\<close>

subsection \<open>Frames and flags\<close>

definition HeaderSize :: nat where
  "HeaderSize = 11"

definition MaxPayloadSize :: nat where
  "MaxPayloadSize = 8192"

definition FlagSYN :: byte where "FlagSYN = 0x01"
definition FlagFIN :: byte where "FlagFIN = 0x02"
definition FlagRST :: byte where "FlagRST = 0x04"
definition FlagACK :: byte where "FlagACK = 0x08"
definition FlagReverse :: byte where "FlagReverse = 0x10"
definition FlagData :: byte where "FlagData = 0x00"

lemmas flag_defs [go_simps] =
  FlagSYN_def FlagFIN_def FlagRST_def FlagACK_def FlagReverse_def FlagData_def

record Frame =
  ConnID :: u32
  SeqNum :: u32
  Flags :: byte
  Payload :: slice

definition IsSYN :: "Frame \<Rightarrow> bool" where
  "IsSYN f \<longleftrightarrow> Flags f AND FlagSYN \<noteq> 0"

definition IsFIN :: "Frame \<Rightarrow> bool" where
  "IsFIN f \<longleftrightarrow> Flags f AND FlagFIN \<noteq> 0"

definition IsRST :: "Frame \<Rightarrow> bool" where
  "IsRST f \<longleftrightarrow> Flags f AND FlagRST \<noteq> 0"

definition IsACK :: "Frame \<Rightarrow> bool" where
  "IsACK f \<longleftrightarrow> Flags f AND FlagACK \<noteq> 0"

definition IsReverse :: "Frame \<Rightarrow> bool" where
  "IsReverse f \<longleftrightarrow> Flags f AND FlagReverse \<noteq> 0"

lemmas is_flag_defs [go_simps] = IsSYN_def IsFIN_def IsRST_def IsACK_def IsReverse_def

abbreviation payload_len :: "Frame \<Rightarrow> nat" where
  "payload_len f \<equiv> length (slice_bytes (Payload f))"

subsection \<open>The frame codec\<close>

datatype frame_error = PayloadTooLarge nat | IOError io_error | PayloadError io_error

definition frame_header :: "u32 \<Rightarrow> u32 \<Rightarrow> byte \<Rightarrow> u16 \<Rightarrow> bytes" where
  "frame_header c s fl len = PutUint32 c @ PutUint32 s @ [fl] @ PutUint16 len"

definition encode_frame :: "Frame \<Rightarrow> bytes" where
  "encode_frame f =
     frame_header (ConnID f) (SeqNum f) (Flags f) (word_of_nat (payload_len f))
       @ slice_bytes (Payload f)"

definition WriteFrame :: "(bytes \<Rightarrow> io_error option) \<Rightarrow> Frame \<Rightarrow> frame_error + bytes" where
  "WriteFrame w f =
     (if payload_len f > MaxPayloadSize then Inl (PayloadTooLarge (payload_len f))
      else case w (encode_frame f) of
             Some e \<Rightarrow> Inl (IOError e)
           | None \<Rightarrow> Inr (encode_frame f))"

definition ReadFrame :: "reader \<Rightarrow> (frame_error + Frame) \<times> reader" where
  "ReadFrame r =
     (case ReadFull r HeaderSize of
        (Inl e, r1) \<Rightarrow> (Inl (IOError e), r1)
      | (Inr hdr, r1) \<Rightarrow>
          let len = unat (Uint16 (go_slice hdr 9 11));
              mk = (\<lambda>p. \<lparr>ConnID = Uint32 (go_slice hdr 0 4), SeqNum = Uint32 (go_slice hdr 4 8),
                         Flags = hdr ! 8, Payload = p\<rparr>)
          in if len > MaxPayloadSize then (Inl (PayloadTooLarge len), r1)
             else if len > 0 then
               (case ReadFull r1 len of
                  (Inl e, r2) \<Rightarrow> (Inl (PayloadError e), r2)
                | (Inr p, r2) \<Rightarrow> (Inr (mk (Some p)), r2))
             else (Inr (mk None), r1))"

text \<open>What survives the wire: an empty payload is read back as \<^verbatim>\<open>nil\<close>.\<close>

definition norm_frame :: "Frame \<Rightarrow> Frame" where
  "norm_frame f = (if payload_len f = 0 then f\<lparr>Payload := None\<rparr> else f)"

lemma norm_frame_sel [simp]:
  "ConnID (norm_frame f) = ConnID f" "SeqNum (norm_frame f) = SeqNum f"
  "Flags (norm_frame f) = Flags f" "slice_bytes (Payload (norm_frame f)) = slice_bytes (Payload f)"
  by (auto simp: norm_frame_def)

lemma encode_frame_norm [simp]: "encode_frame (norm_frame f) = encode_frame f"
  by (simp add: encode_frame_def)

lemma frame_header_read [simp]:
  "length (frame_header c s fl len) = HeaderSize"
  "go_slice (frame_header c s fl len) 0 4 = PutUint32 c"
  "go_slice (frame_header c s fl len) 4 8 = PutUint32 s"
  "frame_header c s fl len ! 8 = fl"
  "go_slice (frame_header c s fl len) 9 11 = PutUint16 len"
  by (simp_all add: frame_header_def HeaderSize_def go_slice_def PutUint32_def PutUint16_def)

lemma length_encode_frame: "length (encode_frame f) = HeaderSize + payload_len f"
  by (simp add: encode_frame_def)

lemma encode_frame_not_Nil [simp]: "encode_frame f \<noteq> []"
  by (metis HeaderSize_def add_is_0 length_0_conv length_encode_frame zero_neq_numeral)

lemma unat_payload_len:
  "payload_len f \<le> MaxPayloadSize \<Longrightarrow> unat (word_of_nat (payload_len f) :: u16) = payload_len f"
  by (simp add: MaxPayloadSize_def unat_of_nat)

lemma ReadFrame_encode:
  assumes "payload_len f \<le> MaxPayloadSize"
  shows "ReadFrame \<lparr>rd_data = encode_frame f @ rest, rd_end = e\<rparr> =
    (Inr (norm_frame f), \<lparr>rd_data = rest, rd_end = e\<rparr>)"
  using assms unat_payload_len [OF assms]
  by (cases f; cases "Payload f")
    (auto simp: ReadFrame_def encode_frame_def Let_def norm_frame_def)

lemma list_11E:
  assumes "length xs = 11"
  obtains a b c d e f g h i j k where "xs = [a, b, c, d, e, f, g, h, i, j, k]"
  using assms by (auto simp: length_Suc_conv numeral_eq_Suc)

lemma ReadFrame_Inr:
  assumes "ReadFrame r = (Inr f, r')"
  shows "rd_data r = encode_frame f @ rd_data r' \<and> payload_len f \<le> MaxPayloadSize
    \<and> norm_frame f = f \<and> rd_end r' = rd_end r"
proof -
  obtain hdr r1 where hdr: "ReadFull r HeaderSize = (Inr hdr, r1)"
    using assms by (auto simp: ReadFrame_def split: prod.splits sum.splits)
  then have "length hdr = 11"
    by (auto simp: HeaderSize_def dest: ReadFull_InrD)
  then obtain a b c d e g h i j k l where xs: "hdr = [a, b, c, d, e, g, h, i, j, k, l]"
    by (rule list_11E)
  have r1: "rd_data r = hdr @ rd_data r1" "rd_end r1 = rd_end r"
    using hdr by (auto dest: ReadFull_InrD)
  let ?n = "unat (Uint16 [k, l])"
  have n: "word_of_nat ?n = Uint16 [k, l]" by simp
  show ?thesis
  proof (cases "?n = 0")
    case True
    then have z: "Uint16 [k, l] = 0" by (simp add: unat_eq_0)
    then have "PutUint16 0 = [k, l]" using PutUint16_Uint16 [of k l] by simp
    with assms hdr r1 xs z show ?thesis
      by (auto simp: ReadFrame_def go_slice_def encode_frame_def frame_header_def norm_frame_def)
  next
    case False
    then obtain p where p: "ReadFull r1 ?n = (Inr p, r')" "\<not> ?n > MaxPayloadSize"
      and f: "f = \<lparr>ConnID = Uint32 [a, b, c, d], SeqNum = Uint32 [e, g, h, i], Flags = j, Payload = Some p\<rparr>"
      using assms hdr xs by (auto simp: ReadFrame_def go_slice_def Let_def split: prod.splits sum.splits if_splits)
    have "rd_data r1 = p @ rd_data r'" "length p = ?n" "rd_end r' = rd_end r1"
      using p(1) by (auto dest: ReadFull_InrD)
    with r1 xs f p False n show ?thesis
      by (simp add: encode_frame_def frame_header_def norm_frame_def)
  qed
qed

text \<open>A stream cut inside a frame is an error, and a clean end of stream only at a frame boundary.\<close>

lemma ReadFrame_truncated:
  assumes "payload_len f \<le> MaxPayloadSize" and "n < length (encode_frame f)"
  shows "\<exists>err. fst (ReadFrame \<lparr>rd_data = take n (encode_frame f), rd_end = EOF\<rparr>) = Inl err
    \<and> (err = IOError EOF \<longleftrightarrow> n = 0)"
proof (cases "n < HeaderSize")
  case True
  then show ?thesis
    by (auto simp: ReadFrame_def ReadFull_def length_encode_frame)
next
  case False
  let ?h = "frame_header (ConnID f) (SeqNum f) (Flags f) (word_of_nat (payload_len f))"
  have "take n (encode_frame f) = ?h @ take (n - HeaderSize) (slice_bytes (Payload f))"
    using False by (simp add: encode_frame_def)
  moreover have "n - HeaderSize < payload_len f"
    using assms(2) False by (simp add: length_encode_frame)
  ultimately show ?thesis
    using False assms(1) unat_payload_len [OF assms(1)]
    by (auto simp: ReadFrame_def Let_def ReadFull_def HeaderSize_def)
qed

subsection \<open>Streams of frames\<close>

text \<open>
  The loops that own a connection read frames until the first error
  (\<^verbatim>\<open>handleFrameConn\<close>, \<^verbatim>\<open>readLoop\<close>): the frames and the error that ends the loop.  Each frame
  takes at least a header from the stream, so the loop ends.
\<close>

lemma ReadFrame_shrinks:
  "ReadFrame r = (Inr f, r') \<Longrightarrow> length (rd_data r') < length (rd_data r)"
  by (auto dest!: ReadFrame_Inr simp: length_encode_frame HeaderSize_def)

function ReadFrames :: "reader \<Rightarrow> Frame list \<times> frame_error" where
  "ReadFrames r =
     (case ReadFrame r of
        (Inl e, r') \<Rightarrow> ([], e)
      | (Inr f, r') \<Rightarrow> (let (fs, e) = ReadFrames r' in (f # fs, e)))"
  by pat_completeness auto
termination
  by (relation "measure (\<lambda>r. length (rd_data r))") (auto intro: ReadFrame_shrinks [OF sym])

declare ReadFrames.simps [simp del]

text \<open>
  What a connection owner relies on: a codec whose reader inverts its writer on a stream with more
  bytes behind, and reports the end of an empty stream.  From that alone the loop recovers exactly
  the frames that were written, in order, with no byte left over.
\<close>

locale frame_codec =
  fixes enc :: "'f \<Rightarrow> bytes"
    and dec :: "reader \<Rightarrow> ('e + 'f) \<times> reader"
    and dec_all :: "reader \<Rightarrow> 'f list \<times> 'e"
    and wf :: "'f \<Rightarrow> bool"
    and norm :: "'f \<Rightarrow> 'f"
    and err :: "io_error \<Rightarrow> 'e"
  assumes dec_enc: "wf f \<Longrightarrow>
      dec \<lparr>rd_data = enc f @ rest, rd_end = e\<rparr> = (Inr (norm f), \<lparr>rd_data = rest, rd_end = e\<rparr>)"
    and dec_end: "fst (dec \<lparr>rd_data = [], rd_end = e\<rparr>) = Inl (err e)"
    and dec_all_unfold: "dec_all r =
      (case dec r of
         (Inl x, r') \<Rightarrow> ([], x)
       | (Inr f, r') \<Rightarrow> (let (fs, x) = dec_all r' in (f # fs, x)))"
begin

lemma dec_all_append:
  "list_all wf fs \<Longrightarrow>
     dec_all \<lparr>rd_data = concat (map enc fs) @ rest, rd_end = e\<rparr> =
       (let (gs, x) = dec_all \<lparr>rd_data = rest, rd_end = e\<rparr> in (map norm fs @ gs, x))"
proof (induction fs)
  case Nil
  then show ?case by simp
next
  case (Cons f fs)
  let ?r = "\<lparr>rd_data = enc f @ concat (map enc fs) @ rest, rd_end = e\<rparr>"
  have "dec_all ?r =
    (let (hs, x) = dec_all \<lparr>rd_data = concat (map enc fs) @ rest, rd_end = e\<rparr> in (norm f # hs, x))"
    using Cons.prems by (subst dec_all_unfold) (simp add: dec_enc)
  with Cons show ?case by (simp add: split_beta Let_def)
qed

lemma dec_all_end: "dec_all \<lparr>rd_data = [], rd_end = e\<rparr> = ([], err e)"
  using dec_end [of e] by (subst dec_all_unfold) (auto split: prod.splits)

lemma dec_all_concat:
  "list_all wf fs \<Longrightarrow>
     dec_all \<lparr>rd_data = concat (map enc fs), rd_end = e\<rparr> = (map norm fs, err e)"
  using dec_all_append [of fs "[]" e] by (simp add: dec_all_end)

end

interpretation frames: frame_codec encode_frame ReadFrame ReadFrames
  "\<lambda>f. payload_len f \<le> MaxPayloadSize" norm_frame IOError
proof unfold_locales
  fix f rest e
  assume "payload_len f \<le> MaxPayloadSize"
  then show "ReadFrame \<lparr>rd_data = encode_frame f @ rest, rd_end = e\<rparr> =
    (Inr (norm_frame f), \<lparr>rd_data = rest, rd_end = e\<rparr>)"
    by (rule ReadFrame_encode)
next
  show "fst (ReadFrame \<lparr>rd_data = [], rd_end = e\<rparr>) = Inl (IOError e)" for e
    by (simp add: ReadFrame_def ReadFull_def HeaderSize_def)
qed (rule ReadFrames.simps)

subsection \<open>Connection ids\<close>

record ConnIDGenerator =
  counter :: u32

text \<open>The random bytes of \<^verbatim>\<open>crypto/rand\<close> are the argument; \<open>None\<close> when reading them fails.\<close>

definition NewConnIDGenerator :: "bytes option \<Rightarrow> ConnIDGenerator" where
  "NewConnIDGenerator buf =
     (case buf of
        None \<Rightarrow> \<lparr>counter = 0\<rparr>
      | Some b \<Rightarrow>
          let start = Uint32 b AND 0x7FFFFFFF
          in \<lparr>counter = (if start = 0 then 1 else start)\<rparr>)"

definition ConnIDGenerator_Next :: "ConnIDGenerator \<Rightarrow> u32 \<times> ConnIDGenerator" where
  "ConnIDGenerator_Next g = (counter g + 1, g\<lparr>counter := counter g + 1\<rparr>)"

text \<open>The ids that \<open>n\<close> calls return.\<close>

fun conn_ids :: "nat \<Rightarrow> ConnIDGenerator \<Rightarrow> u32 list" where
  "conn_ids 0 g = []"
| "conn_ids (Suc n) g = (let (c, g') = ConnIDGenerator_Next g in c # conn_ids n g')"

lemma conn_ids_map: "conn_ids n g = map (\<lambda>i. counter g + word_of_nat (Suc i)) [0..<n]"
proof (induction n arbitrary: g)
  case (Suc n)
  have "[0..<Suc n] = 0 # map Suc [0..<n]"
    by (simp add: map_Suc_upt upt_conv_Cons)
  then show ?case
    by (simp add: ConnIDGenerator_Next_def Suc o_def algebra_simps)
qed simp

lemma start_bound: "unat (counter (NewConnIDGenerator buf)) < 2 ^ 31"
proof -
  have "unat (x AND 0x7FFFFFFF) \<le> unat (0x7FFFFFFF :: u32)" for x :: u32
    by (rule word_and_le1 [THEN word_le_nat_alt [THEN iffD1]])
  then have "unat (x AND 0x7FFFFFFF) < 2 ^ 31" for x :: u32
    by (rule le_less_trans) simp
  then show ?thesis
    by (auto simp: NewConnIDGenerator_def Let_def split: option.splits)
qed

lemma conn_id_unat:
  assumes "unat (counter g) + n < 2 ^ 32"
  shows "unat (counter g + word_of_nat n) = unat (counter g) + n"
  using assms by (simp add: unat_word_ariths unat_of_nat)

subsection \<open>SYN payloads\<close>

datatype syn_error = SynTooShort nat | UnknownATYP byte | SynTruncated nat nat

definition EncodeSYNPayload :: "byte \<Rightarrow> bytes \<Rightarrow> bytes \<Rightarrow> bytes" where
  "EncodeSYNPayload atyp addr port = [atyp] @ addr @ port"

definition DecodeSYNPayload :: "bytes \<Rightarrow> syn_error + (byte \<times> bytes \<times> bytes)" where
  "DecodeSYNPayload payload =
     (if length payload < 4 then Inl (SynTooShort (length payload))
      else
        let atyp = payload ! 0;
            addrLen =
              (if atyp = 0x01 then Some 4
               else if atyp = 0x03 then Some (1 + unat (payload ! 1))
               else if atyp = 0x04 then Some 16
               else None)
        in case addrLen of
             None \<Rightarrow> Inl (UnknownATYP atyp)
           | Some n \<Rightarrow>
               if length payload < 1 + n + 2 then Inl (SynTruncated (1 + n + 2) (length payload))
               else Inr (atyp, go_slice payload 1 (1 + n), go_slice payload (1 + n) (1 + n + 2)))"

text \<open>A SOCKS5 address of its type: what \<^verbatim>\<open>handleConnection\<close> captures for replay.\<close>

definition valid_addr :: "byte \<Rightarrow> bytes \<Rightarrow> bool" where
  "valid_addr atyp addr \<longleftrightarrow>
     atyp = 0x01 \<and> length addr = 4
     \<or> atyp = 0x03 \<and> addr \<noteq> [] \<and> length addr = 1 + unat (addr ! 0)
     \<or> atyp = 0x04 \<and> length addr = 16"

lemma DecodeSYNPayload_Encode:
  assumes "valid_addr atyp addr" and "length port = 2"
  shows "DecodeSYNPayload (EncodeSYNPayload atyp addr port @ rest) = Inr (atyp, addr, port)"
  using assms
  by (auto simp: valid_addr_def DecodeSYNPayload_def EncodeSYNPayload_def go_slice_def Let_def
    nth_append)

lemma DecodeSYNPayload_Inr:
  assumes "DecodeSYNPayload payload = Inr (atyp, addr, port)"
  shows "valid_addr atyp addr \<and> length port = 2
    \<and> (\<exists>rest. payload = EncodeSYNPayload atyp addr port @ rest)"
proof -
  obtain n where n: "length payload \<ge> 1 + n + 2" "atyp = payload ! 0"
      "addr = go_slice payload 1 (1 + n)" "port = go_slice payload (1 + n) (1 + n + 2)"
    and cases: "atyp = 1 \<and> n = 4 \<or> atyp = 3 \<and> n = 1 + unat (payload ! 1) \<or> atyp = 4 \<and> n = 16"
    using assms by (auto simp: DecodeSYNPayload_def Let_def split: if_splits option.splits)
  obtain p ps where payload: "payload = p # ps"
    using n(1) by (cases payload) auto
  have "payload = EncodeSYNPayload atyp addr port @ drop (n + 2) ps"
    using n payload take_take_drop [of n ps 2] by (simp add: EncodeSYNPayload_def go_slice_def)
  moreover have "valid_addr atyp addr"
    using n cases payload by (auto simp: valid_addr_def go_slice_def)
  ultimately show ?thesis
    using n by (auto simp: length_go_slice)
qed

subsection \<open>Properties\<close>

text \<open>
  Frames survive the wire: what \<^verbatim>\<open>WriteFrame\<close> hands to the connection, whatever bytes follow
  it there, is read back by \<^verbatim>\<open>ReadFrame\<close> as the same frame (an empty payload as \<^verbatim>\<open>nil\<close>), and
  the reader is left at the first byte behind it.
\<close>

theorem WriteFrame_ReadFrame:
  assumes "WriteFrame w f = Inr buf"
  shows "ReadFrame \<lparr>rd_data = buf @ rest, rd_end = e\<rparr> =
    (Inr (norm_frame f), \<lparr>rd_data = rest, rd_end = e\<rparr>)"
  using assms by (auto simp: WriteFrame_def ReadFrame_encode split: if_splits option.splits)

theorem WriteFrame_ReadFrame_witness:
  "ReadFrame \<lparr>rd_data = encode_frame \<lparr>ConnID = 1, SeqNum = 2, Flags = 3, Payload = Some [4]\<rparr> @ [5],
      rd_end = EOF\<rparr> =
    (Inr \<lparr>ConnID = 1, SeqNum = 2, Flags = 3, Payload = Some [4]\<rparr>, \<lparr>rd_data = [5], rd_end = EOF\<rparr>)"
  using WriteFrame_ReadFrame [of "\<lambda>_. None" "\<lparr>ConnID = 1, SeqNum = 2, Flags = 3, Payload = Some [4]\<rparr>"]
  by (simp add: WriteFrame_def norm_frame_def MaxPayloadSize_def)

text \<open>
  C18. The frame grammar is unambiguous: \<^verbatim>\<open>ReadFrame\<close> succeeds with frame \<open>f\<close> exactly when the
  stream starts with the encoding of \<open>f\<close>, within the payload limit, and it consumes exactly that.
\<close>

theorem ReadFrame_iff:
  "ReadFrame r = (Inr f, r') \<longleftrightarrow>
     rd_data r = encode_frame f @ rd_data r' \<and> rd_end r' = rd_end r
     \<and> payload_len f \<le> MaxPayloadSize \<and> norm_frame f = f"
proof
  assume "ReadFrame r = (Inr f, r')"
  then show "rd_data r = encode_frame f @ rd_data r' \<and> rd_end r' = rd_end r
     \<and> payload_len f \<le> MaxPayloadSize \<and> norm_frame f = f"
    by (auto dest: ReadFrame_Inr)
next
  assume "rd_data r = encode_frame f @ rd_data r' \<and> rd_end r' = rd_end r
     \<and> payload_len f \<le> MaxPayloadSize \<and> norm_frame f = f"
  then show "ReadFrame r = (Inr f, r')"
    using ReadFrame_encode [of f "rd_data r'" "rd_end r'"] by (cases r; cases r') simp
qed

text \<open>
  C17. A connection that carries any sequence of frames is read back as that sequence, in order,
  and the loop then reports the connection's own end, never a torn frame.
\<close>

theorem ReadFrames_stream:
  assumes "list_all (\<lambda>f. payload_len f \<le> MaxPayloadSize) fs"
  shows "ReadFrames \<lparr>rd_data = concat (map encode_frame fs), rd_end = e\<rparr> =
    (map norm_frame fs, IOError e)"
  using assms by (rule frames.dec_all_concat)

theorem ReadFrames_stream_witness:
  "fst (ReadFrames \<lparr>rd_data = encode_frame \<lparr>ConnID = 1, SeqNum = 2, Flags = 3, Payload = None\<rparr>
      @ encode_frame \<lparr>ConnID = 9, SeqNum = 3, Flags = 0, Payload = Some [7]\<rparr>, rd_end = EOF\<rparr>) =
    [\<lparr>ConnID = 1, SeqNum = 2, Flags = 3, Payload = None\<rparr>,
     \<lparr>ConnID = 9, SeqNum = 3, Flags = 0, Payload = Some [7]\<rparr>]"
  using ReadFrames_stream [of "[\<lparr>ConnID = 1, SeqNum = 2, Flags = 3, Payload = None\<rparr>,
     \<lparr>ConnID = 9, SeqNum = 3, Flags = 0, Payload = Some [7]\<rparr>]" EOF]
  by (simp add: norm_frame_def MaxPayloadSize_def)

text \<open>
  A stream that ends inside a frame never yields a frame; it reports a clean \<^verbatim>\<open>io.EOF\<close> only
  when it ends exactly on the frame boundary.
\<close>

theorem truncated_frame_is_error:
  assumes "payload_len f \<le> MaxPayloadSize" and "n < length (encode_frame f)"
  shows "\<exists>err. fst (ReadFrame \<lparr>rd_data = take n (encode_frame f), rd_end = EOF\<rparr>) = Inl err
    \<and> (err = IOError EOF \<longleftrightarrow> n = 0)"
  using assms by (rule ReadFrame_truncated)

theorem truncated_frame_is_error_witness:
  "\<exists>err. fst (ReadFrame \<lparr>rd_data = take 12 (encode_frame
      \<lparr>ConnID = 1, SeqNum = 2, Flags = 0, Payload = Some [4, 5]\<rparr>), rd_end = EOF\<rparr>) = Inl err
    \<and> err \<noteq> IOError EOF"
  using truncated_frame_is_error [of "\<lparr>ConnID = 1, SeqNum = 2, Flags = 0, Payload = Some [4, 5]\<rparr>" 12]
  by (auto simp: length_encode_frame MaxPayloadSize_def HeaderSize_def)

text \<open>
  Whatever random start it drew, a generator's first \<open>2 ^ 31\<close> connection ids are pairwise
  distinct and none is the reserved id 0.
\<close>

theorem conn_ids_unique:
  assumes "n \<le> 2 ^ 31"
  shows "distinct (conn_ids n (NewConnIDGenerator buf))
    \<and> 0 \<notin> set (conn_ids n (NewConnIDGenerator buf))"
proof -
  let ?g = "NewConnIDGenerator buf"
  have u: "unat (counter ?g + word_of_nat (Suc i)) = unat (counter ?g) + Suc i" if "i < n" for i
    using that assms start_bound [of buf] by (intro conn_id_unat) simp
  have inj: "inj_on (\<lambda>i. counter ?g + word_of_nat (Suc i)) {0..<n}"
  proof (rule inj_onI)
    fix i j assume "i \<in> {0..<n}" "j \<in> {0..<n}"
      "counter ?g + word_of_nat (Suc i) = counter ?g + word_of_nat (Suc j)"
    then have "unat (counter ?g) + Suc i = unat (counter ?g) + Suc j" using u by (metis atLeastLessThan_iff)
    then show "i = j" by simp
  qed
  moreover have "counter ?g + word_of_nat (Suc i) \<noteq> 0" if "i < n" for i
    using u [OF that] by (metis add_Suc_right unat_0 zero_less_Suc less_numeral_extra(3))
  ultimately show ?thesis
    unfolding conn_ids_map by (auto simp: distinct_map simp del: of_nat_Suc)
qed

theorem conn_ids_unique_witness:
  "distinct (conn_ids 3 (NewConnIDGenerator (Some [255, 255, 255, 255])))"
  using conn_ids_unique [of 3 "Some [255, 255, 255, 255]"] by simp

text \<open>
  The SYN payload codec: \<^verbatim>\<open>DecodeSYNPayload\<close> accepts exactly the payloads that start with an
  \<^verbatim>\<open>EncodeSYNPayload\<close> of a well-formed address of its type and a two-byte port, and returns them.
\<close>

theorem DecodeSYNPayload_iff:
  "DecodeSYNPayload payload = Inr (atyp, addr, port) \<longleftrightarrow>
     valid_addr atyp addr \<and> length port = 2
     \<and> (\<exists>rest. payload = EncodeSYNPayload atyp addr port @ rest)"
  using DecodeSYNPayload_Inr DecodeSYNPayload_Encode by blast

end
