(* ===== verification/Reorder.thy ===== *)
theory Reorder
  imports Prelude
begin

text \<open>
  The reorderer of \<^verbatim>\<open>internal/tunnel/reorder.go\<close>: a buffer of out-of-order payloads, the next
  sequence number to deliver and the timer of the current gap.  \<^verbatim>\<open>time.Now\<close> is the argument
  \<open>now\<close>, or a clock \<open>clk\<close> giving the reading of each successive call.
\<close>

subsection \<open>State and operations\<close>

record Reorderer =
  nextSeq :: u32
  buffer :: "(u32, slice) gomap"
  gapTimeout :: duration
  waitingSince :: "time option"

definition NewReordererAt :: "u32 \<Rightarrow> Reorderer" where
  "NewReordererAt startSeq =
     \<lparr>nextSeq = startSeq, buffer = [], gapTimeout = 2 * second, waitingSince = None\<rparr>"

definition NewReorderer :: Reorderer where
  "NewReorderer = \<lparr>nextSeq = 0, buffer = [], gapTimeout = 2 * second, waitingSince = None\<rparr>"

definition Reorderer_Insert :: "u32 \<Rightarrow> slice \<Rightarrow> Reorderer \<Rightarrow> Reorderer" where
  "Reorderer_Insert seq data r =
     (if seq < nextSeq r then r else r\<lparr>buffer := gm_put seq data (buffer r)\<rparr>)"

definition lower_seq :: "u32 \<Rightarrow> u32 \<times> bool \<Rightarrow> u32 \<times> bool" where
  "lower_seq seq acc =
     (case acc of (minSeq, found) \<Rightarrow> if \<not> found \<or> seq < minSeq then (seq, True) else (minSeq, found))"

definition skipToLowest :: "Reorderer \<Rightarrow> Reorderer" where
  "skipToLowest r =
     (case fold lower_seq (gm_keys (buffer r)) (nextSeq r, False) of
        (minSeq, found) \<Rightarrow> if found \<and> minSeq > nextSeq r then r\<lparr>nextSeq := minSeq\<rparr> else r)"

definition Reorderer_Next :: "time \<Rightarrow> Reorderer \<Rightarrow> slice \<times> Reorderer" where
  "Reorderer_Next now r =
     (case gm_get (buffer r) (nextSeq r) of
        Some data \<Rightarrow>
          (data, r\<lparr>buffer := gm_del (nextSeq r) (buffer r), nextSeq := nextSeq r + 1,
                   waitingSince := None\<rparr>)
      | None \<Rightarrow>
          if gm_len (buffer r) = 0 then (None, r\<lparr>waitingSince := None\<rparr>)
          else
            case waitingSince r of
              None \<Rightarrow> (None, r\<lparr>waitingSince := Some now\<rparr>)
            | Some since \<Rightarrow>
                if time_sub now since < gapTimeout r then (None, r)
                else
                  let r1 = (skipToLowest r)\<lparr>waitingSince := None\<rparr>
                  in case gm_get (buffer r1) (nextSeq r1) of
                       Some data \<Rightarrow>
                         (data, r1\<lparr>buffer := gm_del (nextSeq r1) (buffer r1),
                                   nextSeq := nextSeq r1 + 1\<rparr>)
                     | None \<Rightarrow> (None, r1))"

definition Pending :: "Reorderer \<Rightarrow> nat" where
  "Pending r = gm_len (buffer r)"

definition SkipGap :: "Reorderer \<Rightarrow> Reorderer" where
  "SkipGap r = r\<lparr>nextSeq := nextSeq r + 1\<rparr>"

text \<open>
  The callers' loop \<^verbatim>\<open>for { data := r.Next(); if data == nil { break }; ... }\<close>: it ends because
  every delivered payload leaves the buffer.
\<close>

lemma Reorderer_Next_shrinks:
  "Reorderer_Next now r = (Some d, r') \<Longrightarrow> length (buffer r') < length (buffer r)"
  by (auto simp: Reorderer_Next_def skipToLowest_def Let_def gm_del_length
    split: option.splits if_splits prod.splits)

function Reorderer_drain :: "(nat \<Rightarrow> time) \<Rightarrow> Reorderer \<Rightarrow> bytes list \<times> Reorderer" where
  "Reorderer_drain clk r =
     (case Reorderer_Next (clk 0) r of
        (None, r') \<Rightarrow> ([], r')
      | (Some d, r') \<Rightarrow> (let (ds, r'') = Reorderer_drain (\<lambda>k. clk (Suc k)) r' in (d # ds, r'')))"
  by pat_completeness auto
termination
  by (relation "measure (\<lambda>(clk, r). length (buffer r))")
    (auto intro: Reorderer_Next_shrinks [OF sym])

declare Reorderer_drain.simps [simp del]

subsection \<open>The buffer invariant\<close>

definition ro_inv :: "Reorderer \<Rightarrow> bool" where
  "ro_inv r \<longleftrightarrow> gm_ok (buffer r) \<and> (\<forall>k \<in> dom (gm_get (buffer r)). nextSeq r \<le> k)"

lemma ro_inv_new [simp, inv_intros]: "ro_inv (NewReordererAt s)" "ro_inv NewReorderer"
  by (simp_all add: ro_inv_def NewReordererAt_def NewReorderer_def)

lemma ro_inv_Insert [inv_intros]: "ro_inv r \<Longrightarrow> ro_inv (Reorderer_Insert seq data r)"
  by (auto simp: ro_inv_def Reorderer_Insert_def)

lemma ro_inv_waiting [simp]: "ro_inv (r\<lparr>waitingSince := w\<rparr>) = ro_inv r"
  by (simp add: ro_inv_def)

lemma fold_lower_found:
  "fold lower_seq ks (m, True) = (Min (insert m (set ks)), True)"
proof (induction ks arbitrary: m)
  case (Cons k ks)
  have "fold lower_seq (k # ks) (m, True) = fold lower_seq ks (min k m, True)"
    by (auto simp: lower_seq_def min_def)
  also have "\<dots> = (Min (insert (min k m) (set ks)), True)"
    by (rule Cons)
  also have "Min (insert (min k m) (set ks)) = Min (insert m (set (k # ks)))"
    by (cases "ks = []") (auto simp: Min.insert_not_elem min.left_commute min.commute Min_insert)
  finally show ?case .
qed simp

lemma fold_lower:
  "ks \<noteq> [] \<Longrightarrow> fold lower_seq ks (m, False) = (Min (set ks), True)"
  by (cases ks) (auto simp: fold_lower_found lower_seq_def)

lemma skipToLowest_eq:
  assumes "ro_inv r" and "dom (gm_get (buffer r)) \<noteq> {}"
  shows "skipToLowest r = r\<lparr>nextSeq := Min (dom (gm_get (buffer r)))\<rparr>"
proof -
  let ?D = "dom (gm_get (buffer r))"
  have "Min ?D \<in> ?D" using assms(2) gm.finite_dom by (rule Min_in [rotated])
  then have "nextSeq r \<le> Min ?D" using assms(1) by (simp add: ro_inv_def)
  moreover have "gm_keys (buffer r) \<noteq> []" using assms(2) by (metis gm.set_keys list.set(1))
  ultimately show ?thesis
    by (cases r) (auto simp: skipToLowest_def fold_lower)
qed

text \<open>\<open>Next\<close> delivers by removing the lowest buffered sequence number.\<close>

definition ro_pop :: "u32 \<Rightarrow> Reorderer \<Rightarrow> Reorderer" where
  "ro_pop k r = r\<lparr>buffer := gm_del k (buffer r), nextSeq := k + 1, waitingSince := None\<rparr>"

lemma ro_inv_pop:
  assumes "ro_inv r" and "\<And>j. j \<in> dom (gm_get (buffer r)) \<Longrightarrow> k \<le> j"
  shows "ro_inv (ro_pop k r)"
proof -
  have "k + 1 \<le> j" if "j \<in> dom (gm_get (buffer r))" "j \<noteq> k" for j
    using assms(2) [OF that(1)] that(2) by (intro inc_le) simp
  then show ?thesis
    using assms(1) by (auto simp: ro_inv_def ro_pop_def)
qed

definition ro_expired :: "time \<Rightarrow> Reorderer \<Rightarrow> bool" where
  "ro_expired now r \<longleftrightarrow>
     (case waitingSince r of None \<Rightarrow> False | Some t \<Rightarrow> \<not> time_sub now t < gapTimeout r)"

lemma Next_hit:
  "gm_get (buffer r) (nextSeq r) = Some d \<Longrightarrow> Reorderer_Next now r = (d, ro_pop (nextSeq r) r)"
  by (simp add: Reorderer_Next_def ro_pop_def)

lemma Next_wait:
  "gm_get (buffer r) (nextSeq r) = None \<Longrightarrow> gm_get (buffer r) = Map.empty \<or> \<not> ro_expired now r
   \<Longrightarrow> \<exists>w. Reorderer_Next now r = (None, r\<lparr>waitingSince := w\<rparr>)
     \<and> (gm_get (buffer r) \<noteq> Map.empty \<longrightarrow> w \<noteq> None \<and> (w = Some now \<or> w = waitingSince r))"
  by (cases r) (auto simp: Reorderer_Next_def ro_expired_def gm.len_zero_iff split: option.splits)

lemma Next_skip:
  assumes "ro_inv r" "gm_get (buffer r) (nextSeq r) = None" "gm_get (buffer r) \<noteq> Map.empty"
    and "ro_expired now r" and k: "k = Min (dom (gm_get (buffer r)))"
  shows "Reorderer_Next now r = (the (gm_get (buffer r) k), ro_pop k r)"
proof -
  have "k \<in> dom (gm_get (buffer r))"
    unfolding k using assms(3) gm.finite_dom by (intro Min_in) auto
  then obtain d where d: "gm_get (buffer r) k = Some d" by blast
  have sk: "skipToLowest r = r\<lparr>nextSeq := k\<rparr>"
    using skipToLowest_eq [OF assms(1)] assms(3) k by simp
  show ?thesis
    using assms(2-4) d
    by (auto simp: Reorderer_Next_def sk ro_pop_def ro_expired_def Let_def gm.len_zero_iff
      split: option.splits)
qed

lemma ro_min:
  assumes "ro_inv r" and "gm_get (buffer r) \<noteq> Map.empty"
  defines "k \<equiv> Min (dom (gm_get (buffer r)))"
  shows "nextSeq r \<le> k" "\<exists>d. gm_get (buffer r) k = Some d"
    "\<And>j. j \<in> dom (gm_get (buffer r)) \<Longrightarrow> k \<le> j"
proof -
  have "k \<in> dom (gm_get (buffer r))"
    unfolding k_def using assms(2) gm.finite_dom by (intro Min_in) auto
  then show "nextSeq r \<le> k" "\<exists>d. gm_get (buffer r) k = Some d"
    using assms(1) by (auto simp: ro_inv_def)
  show "\<And>j. j \<in> dom (gm_get (buffer r)) \<Longrightarrow> k \<le> j"
    unfolding k_def using gm.finite_dom by (rule Min_le)
qed

lemma Next_hit_min:
  assumes "ro_inv r" and "gm_get (buffer r) (nextSeq r) = Some d"
  shows "nextSeq r = Min (dom (gm_get (buffer r)))"
  using assms gm.finite_dom by (intro Min_eqI [symmetric]) (auto simp: ro_inv_def)

lemma Next_cases:
  assumes inv: "ro_inv r"
  obtains (wait) w where "Reorderer_Next now r = (None, r\<lparr>waitingSince := w\<rparr>)"
      "gm_get (buffer r) \<noteq> Map.empty \<longrightarrow> w \<noteq> None \<and> (w = Some now \<or> w = waitingSince r)
         \<and> gm_get (buffer r) (nextSeq r) = None \<and> \<not> ro_expired now r"
  | (pop) k d where "k = Min (dom (gm_get (buffer r)))" "gm_get (buffer r) k = Some d"
      "Reorderer_Next now r = (d, ro_pop k r)" "k = nextSeq r \<or> ro_expired now r"
proof (cases "gm_get (buffer r) (nextSeq r)")
  case (Some d)
  then show ?thesis using pop [OF Next_hit_min [OF inv]] Next_hit by blast
next
  case None
  show ?thesis
  proof (cases "gm_get (buffer r) = Map.empty \<or> \<not> ro_expired now r")
    case True
    then show ?thesis using Next_wait [OF None] wait None by metis
  next
    case False
    then show ?thesis
      using Next_skip [OF inv None] ro_min(2) [OF inv] pop by fastforce
  qed
qed

lemma ro_inv_Next [inv_intros]:
  assumes inv: "ro_inv r" and eq: "Reorderer_Next now r = (d, r')"
  shows "ro_inv r'"
  using inv
proof (cases rule: Next_cases [of r now])
  case (wait w)
  then show ?thesis using eq inv by auto
next
  case (pop k e)
  then have "gm_get (buffer r) \<noteq> Map.empty" by auto
  from ro_min(3) [OF inv this] have "ro_inv (ro_pop k r)"
    using inv pop(1) by (intro ro_inv_pop) auto
  then show ?thesis using eq pop by simp
qed

lemma ro_inv_drain [inv_intros]: "ro_inv r \<Longrightarrow> ro_inv (snd (Reorderer_drain clk r))"
proof (induction clk r rule: Reorderer_drain.induct)
  case (1 clk r)
  obtain d r' where eq: "Reorderer_Next (clk 0) r = (d, r')" by fastforce
  then have "ro_inv r'" using "1.prems" by (rule ro_inv_Next [rotated])
  then show ?case
    using "1.IH" eq by (cases d) (auto simp: Reorderer_drain.simps [of clk r] split_beta)
qed

subsection \<open>Reassembly of a numbered stream\<close>

text \<open>
  What both receivers do with a data frame: insert its payload, then deliver what is ready.
  \<open>arrivals\<close> runs a receiver over frames in their order of arrival, each with the clock of its
  own delivery loop.
\<close>

definition Reorderer_arrive ::
  "(nat \<Rightarrow> time) \<Rightarrow> u32 \<Rightarrow> slice \<Rightarrow> Reorderer \<Rightarrow> bytes list \<times> Reorderer" where
  "Reorderer_arrive clk seq data r = Reorderer_drain clk (Reorderer_Insert seq data r)"

definition ro_timely :: "(nat \<Rightarrow> time) \<Rightarrow> Reorderer \<Rightarrow> bool" where
  "ro_timely clk r \<longleftrightarrow> (\<forall>k. \<not> ro_expired (clk k) r)"

fun arrivals :: "('c \<Rightarrow> u32 \<Rightarrow> slice \<Rightarrow> 'r \<Rightarrow> bytes list \<times> 'r) \<Rightarrow>
    ('c \<times> u32 \<times> slice) list \<Rightarrow> 'r \<Rightarrow> bytes list \<times> 'r" where
  "arrivals arrive [] r = ([], r)"
| "arrivals arrive ((c, seq, data) # evs) r =
     (let (out, r1) = arrive c seq data r; (outs, r2) = arrivals arrive evs r1 in (out @ outs, r2))"

fun timely_arrivals :: "('c \<Rightarrow> 'r \<Rightarrow> bool) \<Rightarrow> ('c \<Rightarrow> u32 \<Rightarrow> slice \<Rightarrow> 'r \<Rightarrow> bytes list \<times> 'r) \<Rightarrow>
    ('c \<times> u32 \<times> slice) list \<Rightarrow> 'r \<Rightarrow> bool" where
  "timely_arrivals timely arrive [] r = True"
| "timely_arrivals timely arrive ((c, seq, data) # evs) r =
     (timely c r \<and> timely_arrivals timely arrive evs (snd (arrive c seq data r)))"

text \<open>The frames \<open>i\<close> of a stream that starts at sequence number \<open>s\<close>, in some order of arrival.\<close>

definition numbered :: "u32 \<Rightarrow> (nat \<Rightarrow> bytes) \<Rightarrow> ('c \<times> nat) list \<Rightarrow> ('c \<times> u32 \<times> slice) list" where
  "numbered s dat cis = map (\<lambda>(c, i). (c, s + word_of_nat i, Some (dat i))) cis"

text \<open>
  The contract the two receivers rely on.  \<open>holds s dat N A m r\<close>: of the \<open>N\<close> payloads \<open>dat\<close>
  numbered from \<open>s\<close>, those with index in \<open>A\<close> have arrived and exactly those before the first
  missing index \<open>m\<close> have been delivered.
\<close>

locale reassembler =
  fixes arrive :: "'c \<Rightarrow> u32 \<Rightarrow> slice \<Rightarrow> 'r \<Rightarrow> bytes list \<times> 'r"
    and timely :: "'c \<Rightarrow> 'r \<Rightarrow> bool"
    and holds :: "u32 \<Rightarrow> (nat \<Rightarrow> bytes) \<Rightarrow> nat \<Rightarrow> nat set \<Rightarrow> nat \<Rightarrow> 'r \<Rightarrow> bool"
  assumes arrive_step: "holds s dat N A m r \<Longrightarrow> i < N \<Longrightarrow> timely c r \<Longrightarrow>
      \<exists>m'. m \<le> m' \<and> fst (arrive c (s + word_of_nat i) (Some (dat i)) r) = map dat [m..<m']
        \<and> holds s dat N (insert i A) m' (snd (arrive c (s + word_of_nat i) (Some (dat i)) r))"
    and frontier: "holds s dat N A m r \<Longrightarrow> A \<subseteq> {..<N} \<and> {..<m} \<subseteq> A \<and> m \<notin> A"
begin

lemma arrivals_prefix:
  assumes "holds s dat N A m r" and "snd ` set cis \<subseteq> {..<N}"
    and "timely_arrivals timely arrive (numbered s dat cis) r"
  shows "\<exists>m'. m \<le> m' \<and> fst (arrivals arrive (numbered s dat cis) r) = map dat [m..<m']
    \<and> holds s dat N (A \<union> snd ` set cis) m' (snd (arrivals arrive (numbered s dat cis) r))"
  using assms
proof (induction cis arbitrary: A m r)
  case Nil
  then show ?case by (auto simp: numbered_def intro!: exI [of _ m])
next
  case (Cons ci cis)
  obtain c i where ci: "ci = (c, i)" by fastforce
  let ?r1 = "snd (arrive c (s + word_of_nat i) (Some (dat i)) r)"
  have "i < N" "timely c r" using Cons.prems ci by (auto simp: numbered_def)
  then obtain m1 where m1: "m \<le> m1"
      "fst (arrive c (s + word_of_nat i) (Some (dat i)) r) = map dat [m..<m1]"
      "holds s dat N (insert i A) m1 ?r1"
    using arrive_step Cons.prems(1) by blast
  moreover have "timely_arrivals timely arrive (numbered s dat cis) ?r1"
    using Cons.prems(3) ci by (simp add: numbered_def)
  ultimately obtain m2 where m2: "m1 \<le> m2"
      "fst (arrivals arrive (numbered s dat cis) ?r1) = map dat [m1..<m2]"
      "holds s dat N (insert i A \<union> snd ` set cis) m2 (snd (arrivals arrive (numbered s dat cis) ?r1))"
    using Cons.IH [of "insert i A" m1 ?r1] Cons.prems(2) by auto
  have "map dat [m..<m1] @ map dat [m1..<m2] = map dat [m..<m2]"
    using m1(1) m2(1) by (metis le_Suc_ex map_append upt_add_eq_append)
  then show ?case
    using m1 m2 ci by (intro exI [of _ m2]) (simp add: numbered_def split_beta)
qed

lemma frontier_complete:
  assumes "holds s dat N {..<N} m r"
  shows "m = N"
  using frontier [OF assms] by (simp add: lessThan_subset_iff)

lemma arrivals_complete:
  assumes "holds s dat N {} 0 r" and "snd ` set cis = {..<N}"
    and "timely_arrivals timely arrive (numbered s dat cis) r"
  shows "fst (arrivals arrive (numbered s dat cis) r) = map dat [0..<N]
    \<and> holds s dat N {..<N} N (snd (arrivals arrive (numbered s dat cis) r))"
proof -
  obtain m where m: "fst (arrivals arrive (numbered s dat cis) r) = map dat [0..<m]"
    "holds s dat N {..<N} m (snd (arrivals arrive (numbered s dat cis) r))"
    using arrivals_prefix [OF assms(1) _ assms(3)] assms(2) by auto
  with frontier_complete show ?thesis by blast
qed

end

subsection \<open>The reorderer is a reassembler\<close>

lemma ix_seq: "i < 2 ^ 32 \<Longrightarrow> unat (s + word_of_nat i - s :: u32) = i"
  by (simp add: unat_of_nat)

lemma seq_ix: "unat (k - s :: u32) = i \<Longrightarrow> k = s + word_of_nat i"
  by (auto simp: algebra_simps)

lemma unat_seq:
  assumes "unat (s :: u32) + i < 2 ^ 32" shows "unat (s + word_of_nat i) = unat s + i"
  using assms by (simp add: unat_word_ariths unat_of_nat)

text \<open>The same without the frontier condition: between the insertion and the end of the drain.\<close>

definition ro_has :: "u32 \<Rightarrow> (nat \<Rightarrow> bytes) \<Rightarrow> nat \<Rightarrow> nat set \<Rightarrow> nat \<Rightarrow> Reorderer \<Rightarrow> bool" where
  "ro_has s dat N A m r \<longleftrightarrow>
     unat s + N < 2 ^ 32 \<and> A \<subseteq> {..<N} \<and> {..<m} \<subseteq> A \<and> nextSeq r = s + word_of_nat m
     \<and> (\<forall>k. gm_get (buffer r) k =
          (if unat (k - s) \<in> A \<and> m \<le> unat (k - s) then Some (Some (dat (unat (k - s)))) else None))"

definition ro_holds :: "u32 \<Rightarrow> (nat \<Rightarrow> bytes) \<Rightarrow> nat \<Rightarrow> nat set \<Rightarrow> nat \<Rightarrow> Reorderer \<Rightarrow> bool" where
  "ro_holds s dat N A m r \<longleftrightarrow> ro_has s dat N A m r \<and> m \<notin> A"

lemma ro_has_bounds: "ro_has s dat N A m r \<Longrightarrow> m \<le> N \<and> N < 2 ^ 32 \<and> unat s + m < 2 ^ 32"
  by (auto simp: ro_has_def lessThan_subset_iff dest: order_trans)

lemma ro_has_at:
  assumes "ro_has s dat N A m r" "i < 2 ^ 32"
  shows "gm_get (buffer r) (s + word_of_nat i) = (if i \<in> A \<and> m \<le> i then Some (Some (dat i)) else None)"
  using assms unfolding ro_has_def by (metis ix_seq)

lemma ro_has_get:
  "ro_has s dat N A m r \<Longrightarrow> gm_get (buffer r) k =
     (if unat (k - s) \<in> A \<and> m \<le> unat (k - s) then Some (Some (dat (unat (k - s)))) else None)"
  by (simp only: ro_has_def)

lemma ro_has_Insert:
  assumes has: "ro_has s dat N A m r" and i: "i < N"
  shows "ro_has s dat N (insert i A) m (Reorderer_Insert (s + word_of_nat i) (Some (dat i)) r)"
proof -
  have s: "unat s + N < 2 ^ 32" "nextSeq r = s + word_of_nat m"
    using has unfolding ro_has_def by blast+
  have b: "unat s + i < 2 ^ 32" "unat s + m < 2 ^ 32" "i < 2 ^ 32"
    using s(1) i ro_has_bounds [OF has] by linarith+
  then have lt: "s + word_of_nat i < nextSeq r \<longleftrightarrow> i < m"
    by (simp add: s(2) word_less_nat_alt unat_seq)
  show ?thesis
  proof (cases "i < m")
    case True
    then have "insert i A = A" using has by (auto simp: ro_has_def)
    with True lt has show ?thesis by (simp add: Reorderer_Insert_def)
  next
    case False
    let ?b = "gm_get (gm_put (s + word_of_nat i) (Some (dat i)) (buffer r))"
    have "?b k = (if unat (k - s) \<in> insert i A \<and> m \<le> unat (k - s)
        then Some (Some (dat (unat (k - s)))) else None)" for k
    proof (cases "k = s + word_of_nat i")
      case True
      then have "unat (k - s) = i" using ix_seq [OF b(3)] by simp
      with True False show ?thesis by simp
    next
      case False
      then have "unat (k - s) \<noteq> i" using seq_ix by blast
      with False show ?thesis by (simp add: ro_has_get [OF has])
    qed
    then show ?thesis
      using False lt has i unfolding ro_has_def Reorderer_Insert_def
      by (simp add: subset_insertI2)
  qed
qed

lemma ro_has_pop:
  assumes has: "ro_has s dat N A m r" and m: "m \<in> A"
  shows "ro_has s dat N A (Suc m) (ro_pop (nextSeq r) r)"
proof -
  have b: "m < 2 ^ 32" using has ro_has_bounds by fastforce
  let ?b = "gm_get (gm_del (s + word_of_nat m) (buffer r))"
  have "?b k = (if unat (k - s) \<in> A \<and> Suc m \<le> unat (k - s)
      then Some (Some (dat (unat (k - s)))) else None)" for k
  proof (cases "k = s + word_of_nat m")
    case True
    then have "unat (k - s) = m" using ix_seq [OF b] by simp
    with True show ?thesis by simp
  next
    case False
    then have "unat (k - s) \<noteq> m" using seq_ix by blast
    with False show ?thesis by (auto simp: ro_has_get [OF has])
  qed
  moreover have "{..<Suc m} \<subseteq> A" using has m by (auto simp: ro_has_def less_Suc_eq)
  ultimately show ?thesis
    using has unfolding ro_has_def ro_pop_def by (simp add: add.assoc add.commute)
qed

lemma ro_expired_Insert [simp]: "ro_expired now (Reorderer_Insert q d r) = ro_expired now r"
  by (auto simp: ro_expired_def Reorderer_Insert_def split: option.split)

lemma ro_has_drain:
  assumes "ro_has s dat N A m r" and "ro_timely clk r"
  shows "\<exists>m'. m \<le> m' \<and> fst (Reorderer_drain clk r) = map dat [m..<m']
    \<and> ro_holds s dat N A m' (snd (Reorderer_drain clk r))"
  using assms
proof (induction clk r arbitrary: m rule: Reorderer_drain.induct)
  case (1 clk r)
  have at: "gm_get (buffer r) (nextSeq r) = (if m \<in> A then Some (Some (dat m)) else None)"
    using ro_has_at [OF "1.prems"(1), of m] ro_has_bounds [OF "1.prems"(1)] "1.prems"(1)
    by (simp add: ro_has_def)
  show ?case
  proof (cases "m \<in> A")
    case True
    let ?r' = "ro_pop (nextSeq r) r"
    have n: "Reorderer_Next (clk 0) r = (Some (dat m), ?r')"
      using at True by (simp add: Next_hit)
    have "ro_timely (\<lambda>k. clk (Suc k)) ?r'"
      by (simp add: ro_timely_def ro_expired_def ro_pop_def)
    with "1.IH" [OF n [symmetric] refl] ro_has_pop [OF "1.prems"(1) True]
    obtain m' where m': "Suc m \<le> m'"
      "fst (Reorderer_drain (\<lambda>k. clk (Suc k)) ?r') = map dat [Suc m..<m']"
      "ro_holds s dat N A m' (snd (Reorderer_drain (\<lambda>k. clk (Suc k)) ?r'))"
      by blast
    then show ?thesis
      by (intro exI [of _ m'])
        (simp add: Reorderer_drain.simps [of clk r] n split_beta upt_conv_Cons)
  next
    case False
    then obtain w where "Reorderer_Next (clk 0) r = (None, r\<lparr>waitingSince := w\<rparr>)"
      using at "1.prems"(2) Next_wait [of r "clk 0"] by (auto simp: ro_timely_def)
    with False "1.prems"(1) show ?thesis
      by (intro exI [of _ m]) (simp add: Reorderer_drain.simps [of clk r] ro_holds_def ro_has_def)
  qed
qed

interpretation ro: reassembler Reorderer_arrive ro_timely ro_holds
proof unfold_locales
  fix s dat N A m r i c
  assume "ro_holds s dat N A m r" "i < N" "ro_timely c r"
  moreover have "ro_timely c (Reorderer_Insert q d r)" if "ro_timely c r" for q d
    using that by (simp add: ro_timely_def)
  ultimately show "\<exists>m'. m \<le> m'
      \<and> fst (Reorderer_arrive c (s + word_of_nat i) (Some (dat i)) r) = map dat [m..<m']
      \<and> ro_holds s dat N (insert i A) m'
          (snd (Reorderer_arrive c (s + word_of_nat i) (Some (dat i)) r))"
    unfolding Reorderer_arrive_def ro_holds_def [of _ _ _ A]
    by (blast intro: ro_has_drain ro_has_Insert)
next
  show "ro_holds s dat N A m r \<Longrightarrow> A \<subseteq> {..<N} \<and> {..<m} \<subseteq> A \<and> m \<notin> A" for s dat N A m r
    by (simp add: ro_holds_def ro_has_def)
qed

lemma ro_holds_new:
  "unat s + N < 2 ^ 32 \<Longrightarrow> ro_holds s dat N {} 0 (NewReordererAt s)"
  by (simp add: ro_holds_def ro_has_def NewReordererAt_def)

lemma NewReorderer_At: "NewReorderer = NewReordererAt 0"
  by (simp add: NewReorderer_def NewReordererAt_def)

lemma ro_holds_pending: "ro_holds s dat N {..<N} N r \<Longrightarrow> Pending r = 0"
  by (auto simp: ro_holds_def ro_has_def Pending_def gm.len_zero_iff fun_eq_iff)

text \<open>
  A buffered \<^verbatim>\<open>nil\<close> payload is consumed silently: \<^verbatim>\<open>Next\<close> advances past it and answers
  \<^verbatim>\<open>nil\<close>, so the callers' delivery loop stops there.
\<close>

lemma drain_nil_payload:
  "gm_get (buffer r) (nextSeq r) = Some None \<Longrightarrow>
     Reorderer_drain clk r = ([], ro_pop (nextSeq r) r)"
  by (simp add: Reorderer_drain.simps [of clk r] Next_hit)

text \<open>The delivery loop ends, having delivered what it took out, when \<^verbatim>\<open>Next\<close> has nothing more to give.\<close>

lemma Next_wait_again:
  assumes "0 < gapTimeout r" and wait: "gm_get (buffer r) \<noteq> Map.empty \<longrightarrow> w \<noteq> None \<and> (w = Some now \<or> w = waitingSince r)
      \<and> gm_get (buffer r) (nextSeq r) = None \<and> \<not> ro_expired now r"
  shows "fst (Reorderer_Next now (r\<lparr>waitingSince := w\<rparr>)) = None"
proof (cases "gm_get (buffer r) = Map.empty")
  case True
  then show ?thesis by (simp add: Reorderer_Next_def gm.len_zero_iff)
next
  case False
  with wait have w: "w = Some now \<or> w = waitingSince r" "gm_get (buffer r) (nextSeq r) = None" "\<not> ro_expired now r" by simp_all
  then have "\<not> ro_expired now (r\<lparr>waitingSince := w\<rparr>)" using assms(1) by (auto simp: ro_expired_def split: option.splits)
  with Next_wait [of "r\<lparr>waitingSince := w\<rparr>" now] w(2) show ?thesis by auto
qed

lemma Pending_pop:
  assumes "gm_ok (buffer r)" "gm_get (buffer r) k = Some d" shows "Pending r = Suc (Pending (ro_pop k r))"
proof -
  have "card (dom (gm_get (buffer r))) = Suc (card (dom (gm_get (buffer r)) - {k}))"
    using assms(2) gm.finite_dom by (intro card.remove [THEN trans]) auto
  then show ?thesis using assms(1) by (simp add: Pending_def ro_pop_def gm.len_dom)
qed

lemma drain_ends:
  assumes "ro_inv r" "None \<notin> ran (gm_get (buffer r))" "0 < gapTimeout r" "Reorderer_drain clk r = (ds, r')"
  shows "length ds + Pending r' = Pending r \<and> fst (Reorderer_Next (clk (length ds)) r') = None"
  using assms
proof (induction clk r arbitrary: ds rule: Reorderer_drain.induct)
  case (1 clk r)
  from "1.prems"(1) show ?case
  proof (cases rule: Next_cases [of r "clk 0"])
    case (wait w)
    then have "ds = []" "r' = r\<lparr>waitingSince := w\<rparr>" using "1.prems"(4) by (simp_all add: Reorderer_drain.simps [of clk r])
    with Next_wait_again [OF "1.prems"(3) wait(2)] show ?thesis by (simp add: Pending_def)
  next
    case (pop k e)
    have "e \<noteq> None" using pop(2) "1.prems"(2) by (metis ranI)
    then obtain x where x: "e = Some x" by auto
    obtain ds1 where d: "Reorderer_drain (\<lambda>k. clk (Suc k)) (ro_pop k r) = (ds1, r')" "ds = x # ds1"
      using "1.prems"(4) pop(3) x by (auto simp: Reorderer_drain.simps [of clk r] split: prod.splits)
    have "ro_inv (ro_pop k r)" using ro_inv_Next [OF "1.prems"(1) pop(3)] .
    moreover have "None \<notin> ran (gm_get (buffer (ro_pop k r)))" using "1.prems"(2) by (auto simp: ro_pop_def ran_def)
    moreover have "0 < gapTimeout (ro_pop k r)" using "1.prems"(3) by (simp add: ro_pop_def)
    ultimately have "length ds1 + Pending r' = Pending (ro_pop k r)" "fst (Reorderer_Next (clk (Suc (length ds1))) r') = None"
      using "1.IH" [OF pop(3) [unfolded x, symmetric] refl _ _ _ d(1)] by simp_all
    with Pending_pop [OF _ pop(2)] "1.prems"(1) d(2) show ?thesis by (simp add: ro_inv_def)
  qed
qed

subsection \<open>Properties\<close>

text \<open>
  C6. In-order reassembly.  Frames numbered consecutively from the start number of a new
  reorderer, arriving in any order and with any repetitions, are delivered as the original
  sequence of payloads, each once, and nothing stays buffered, provided no gap outlives the grace
  period and the numbers do not wrap.
\<close>

theorem reorderer_reassembles:
  assumes "unat s + N < 2 ^ 32" and "snd ` set cis = {..<N}"
    and "timely_arrivals ro_timely Reorderer_arrive (numbered s dat cis) (NewReordererAt s)"
  shows "fst (arrivals Reorderer_arrive (numbered s dat cis) (NewReordererAt s)) = map dat [0..<N]
    \<and> Pending (snd (arrivals Reorderer_arrive (numbered s dat cis) (NewReordererAt s))) = 0"
  using ro.arrivals_complete [OF ro_holds_new [OF assms(1)] assms(2,3)] ro_holds_pending by blast

theorem reorderer_reassembles_witness:
  "fst (arrivals Reorderer_arrive
      (numbered 5 (\<lambda>i. [word_of_nat i]) [(\<lambda>_. 0, 2), (\<lambda>_. 1, 0), (\<lambda>_. 2, 2), (\<lambda>_. 3, 1)])
      (NewReordererAt 5)) = [[0], [1], [2]]"
proof -
  have "snd ` set [(\<lambda>_::nat. 0::int, 2::nat), (\<lambda>_. 1, 0), (\<lambda>_. 2, 2), (\<lambda>_. 3, 1)] = {..<3}"
    by (auto simp: lessThan_Suc numeral_eq_Suc)
  moreover have "timely_arrivals ro_timely Reorderer_arrive
      (numbered 5 (\<lambda>i. [word_of_nat i]) [(\<lambda>_. 0, 2), (\<lambda>_. 1, 0), (\<lambda>_. 2, 2), (\<lambda>_. 3, 1)])
      (NewReordererAt 5)"
    by (simp add: numbered_def NewReordererAt_def ro_timely_def ro_expired_def Reorderer_arrive_def
      Reorderer_Insert_def Reorderer_drain.simps Reorderer_Next_def gm_get_def gm_put_def gm_del_def
      gm_len_def second_def time_sub_def)
  ultimately show ?thesis
    using reorderer_reassembles [of 5 3] by (simp add: upt_rec)
qed

text \<open>
  Whatever \<^verbatim>\<open>Next\<close> hands out is the lowest buffered sequence number: it is removed, every
  later delivery has a higher number, and it is the expected one unless the gap timer ran out.
\<close>

theorem Next_delivers_lowest:
  assumes "ro_inv r" and "Reorderer_Next now r = (Some d, r')"
  shows "\<exists>k. gm_get (buffer r) k = Some (Some d) \<and> nextSeq r \<le> k
    \<and> (\<forall>j \<in> dom (gm_get (buffer r)). k \<le> j) \<and> (k = nextSeq r \<or> ro_expired now r)
    \<and> gm_get (buffer r') = (gm_get (buffer r))(k := None) \<and> nextSeq r' = k + 1
    \<and> (\<forall>j \<in> dom (gm_get (buffer r')). k < j)"
  using assms(1)
proof (cases rule: Next_cases [of r now])
  case (wait w)
  then show ?thesis using assms(2) by simp
next
  case (pop k e)
  then have ne: "gm_get (buffer r) \<noteq> Map.empty" by auto
  have "\<forall>j \<in> dom (gm_get (buffer r)). k \<le> j" "nextSeq r \<le> k"
    using ro_min [OF assms(1) ne] pop(1) by simp_all
  moreover have "r' = ro_pop k r" "e = Some d" using pop assms(2) by simp_all
  ultimately show ?thesis
    using pop(2,4) by (intro exI [of _ k]) (auto simp: ro_pop_def order.order_iff_strict)
qed

theorem Next_delivers_lowest_witness:
  "\<exists>k. gm_get [(7, Some [1])] k = Some (Some [1 :: byte]) \<and> (5 :: u32) \<le> k"
  using Next_delivers_lowest [of "\<lparr>nextSeq = 5, buffer = [(7, Some [1])], gapTimeout = 2, waitingSince = Some 0\<rparr>" 3
      "[1]" "\<lparr>nextSeq = 8, buffer = [], gapTimeout = 2, waitingSince = None\<rparr>"]
  by (auto simp: ro_inv_def gm_ok_def gm_get_def Reorderer_Next_def gm_len_def time_sub_def
    skipToLowest_def gm_keys_def lower_seq_def gm_del_def)

text \<open>
  C21. No permanent stall: when \<^verbatim>\<open>Next\<close> answers \<^verbatim>\<open>nil\<close> with entries buffered, the gap timer is
  running (since this call or an earlier one), and any call of \<^verbatim>\<open>Next\<close> made a grace period or
  more after its start hands out the lowest buffered entry.
\<close>

theorem Next_never_stalls:
  assumes "ro_inv r" and "gm_get (buffer r) \<noteq> Map.empty"
    and "Reorderer_Next t1 r = (None, r1)" and "buffer r1 = buffer r"
  shows "\<exists>t. waitingSince r1 = Some t \<and> (t = t1 \<or> waitingSince r = Some t)
    \<and> (\<forall>t2. gapTimeout r \<le> time_sub t2 t \<longrightarrow>
          (\<exists>k d. k = Min (dom (gm_get (buffer r))) \<and> gm_get (buffer r) k = Some d
             \<and> Reorderer_Next t2 r1 = (d, ro_pop k r1)))"
  using assms(1)
proof (cases rule: Next_cases [of r t1])
  case (wait w)
  then obtain t where w: "w = Some t" and t2: "t = t1 \<or> waitingSince r = Some t"
    using assms(2) by (metis option.exhaust option.inject)
  then have t: "r1 = r\<lparr>waitingSince := Some t\<rparr>" using wait(1) assms(3) by simp
  have "\<exists>k d. k = Min (dom (gm_get (buffer r))) \<and> gm_get (buffer r) k = Some d
      \<and> Reorderer_Next t2 r1 = (d, ro_pop k r1)"
    if "gapTimeout r \<le> time_sub t2 t" for t2
  proof -
    have inv: "ro_inv r1" using assms(1) t by simp
    have ex: "ro_expired t2 r1" using that t by (simp add: ro_expired_def)
    from inv show ?thesis
      using assms(2) t ex by (cases rule: Next_cases [of r1 t2]) auto
  qed
  with t t2 show ?thesis by auto
next
  case (pop k d)
  then have "gm_get (buffer r1) k = None" using assms(3) by (auto simp: ro_pop_def)
  then show ?thesis using pop(2) assms(4) by simp
qed

theorem Next_never_stalls_witness:
  "\<exists>t. waitingSince (snd (Reorderer_Next 10 ((NewReordererAt 0)\<lparr>buffer := [(3, Some [9])]\<rparr>))) = Some t"
  using Next_never_stalls [of "(NewReordererAt 0)\<lparr>buffer := [(3, Some [9])]\<rparr>" 10
      "(NewReordererAt 0)\<lparr>buffer := [(3, Some [9])], waitingSince := Some 10\<rparr>"]
  by (simp add: ro_inv_def gm_ok_def gm_get_def Reorderer_Next_def gm_len_def NewReordererAt_def)

text \<open>
  C22. The delivery loop terminates: started on a buffer without \<^verbatim>\<open>nil\<close> payloads it runs at most once per buffered frame and once
  more, whatever the clock shows in between; what it delivered and what is left in the buffer add up to what was there; and it stops only
  when \<^verbatim>\<open>Next\<close>, asked again at the same moment, has nothing to deliver.
\<close>

theorem drain_terminates:
  assumes "ro_inv r" "None \<notin> ran (gm_get (buffer r))" "0 < gapTimeout r" "Reorderer_drain clk r = (ds, r')"
  shows "length ds + Pending r' = Pending r \<and> length ds \<le> Pending r \<and> fst (Reorderer_Next (clk (length ds)) r') = None"
  using drain_ends [OF assms] by auto

theorem drain_terminates_witness:
  "\<exists>ds r'. Reorderer_drain (\<lambda>_. 0) (Reorderer_Insert 9 (Some [3]) (Reorderer_Insert 5 (Some [1]) (NewReordererAt 5))) = (ds, r')
     \<and> length ds + Pending r' = 2"
proof -
  let ?r = "Reorderer_Insert 9 (Some [3]) (Reorderer_Insert 5 (Some [1]) (NewReordererAt 5))"
  obtain ds r' where d: "Reorderer_drain (\<lambda>_. 0) ?r = (ds, r')" by fastforce
  have "ro_inv ?r" by (intro inv_intros)
  moreover have "None \<notin> ran (gm_get (buffer ?r))"
    by (auto simp: Reorderer_Insert_def NewReordererAt_def ran_def split: if_splits)
  moreover have "0 < gapTimeout ?r" by (simp add: Reorderer_Insert_def NewReordererAt_def second_def)
  ultimately have "length ds + Pending r' = Pending ?r" using drain_terminates [OF _ _ _ d] by simp
  moreover have "Pending ?r = 2" by (simp add: Reorderer_Insert_def NewReordererAt_def Pending_def gm_len_def gm_put_def)
  ultimately show ?thesis using d by auto
qed

end
