(* ===== verification/GoStd.thy ===== *)
theory GoStd
  imports Prelude
begin

text \<open>
  The parts of Go's standard library that the configuration and proxy code call on text: string
  and byte conversions, \<^verbatim>\<open>strings.TrimSpace\<close> and \<^verbatim>\<open>strings.SplitN\<close>, \<^verbatim>\<open>strconv.Atoi\<close>, and
  \<^verbatim>\<open>json.Unmarshal\<close> into a string or an int.  A Go string is a list of bytes (\<open>char\<close>);
  text is taken to be valid UTF-8.
\<close>

subsection \<open>Strings and bytes\<close>

definition go_string :: "bytes \<Rightarrow> string" where
  "go_string bs = map (\<lambda>b. char_of (unat b)) bs"

definition string_bytes :: "string \<Rightarrow> bytes" where
  "string_bytes s = map (\<lambda>c. word_of_nat (of_char c)) s"

lemma go_string_bytes [simp]: "go_string (string_bytes s) = s"
proof -
  have "char_of (unat (word_of_nat (of_char c) :: byte)) = c" for c
    by (simp add: unat_of_nat)
  then show ?thesis
    by (simp add: go_string_def string_bytes_def o_def map_idI)
qed

lemma length_string_bytes [simp]: "length (string_bytes s) = length s"
  by (simp add: string_bytes_def)

abbreviation chr :: "nat \<Rightarrow> char" where
  "chr \<equiv> char_of"

subsection \<open>Trimming and splitting\<close>

text \<open>The UTF-8 encodings of Unicode's white space, the characters \<^verbatim>\<open>TrimSpace\<close> removes.\<close>

definition space_seqs :: "string list" where
  "space_seqs =
     [[chr 9], [chr 10], [chr 11], [chr 12], [chr 13], [chr 32],
      [chr 0xC2, chr 0x85], [chr 0xC2, chr 0xA0], [chr 0xE1, chr 0x9A, chr 0x80]]
     @ map (\<lambda>i. [chr 0xE2, chr 0x80, chr (0x80 + i)]) [0..<11]
     @ [[chr 0xE2, chr 0x80, chr 0xA8], [chr 0xE2, chr 0x80, chr 0xA9], [chr 0xE2, chr 0x80, chr 0xAF],
        [chr 0xE2, chr 0x81, chr 0x9F], [chr 0xE3, chr 0x80, chr 0x80]]"

definition starts_with :: "'a list \<Rightarrow> 'a list \<Rightarrow> bool" where
  "starts_with p s \<longleftrightarrow> take (length p) s = p"

text \<open>Removes the given non-empty sequences from the front, as long as one is there.\<close>

function trim_front :: "'a list list \<Rightarrow> 'a list \<Rightarrow> 'a list" where
  "trim_front ps s =
     (case find (\<lambda>p. p \<noteq> [] \<and> starts_with p s) ps of
        None \<Rightarrow> s
      | Some p \<Rightarrow> trim_front ps (drop (length p) s))"
  by pat_completeness auto
termination
proof (relation "measure (\<lambda>(ps, s). length s)")
  fix ps :: "'a list list" and s p
  assume "find (\<lambda>p. p \<noteq> [] \<and> starts_with p s) ps = Some p"
  then have "p \<noteq> []" "starts_with p s" by (auto simp: find_Some_iff)
  then have "s \<noteq> []" by (auto simp: starts_with_def)
  with \<open>p \<noteq> []\<close> show "((ps, drop (length p) s), ps, s) \<in> measure (\<lambda>(ps, s). length s)"
    by simp
qed simp

declare trim_front.simps [simp del]

definition TrimSpace :: "string \<Rightarrow> string" where
  "TrimSpace s = rev (trim_front (map rev space_seqs) (rev (trim_front space_seqs s)))"

text \<open>Text that begins and ends with a visible ASCII character is left alone.\<close>

definition visible :: "char \<Rightarrow> bool" where
  "visible c \<longleftrightarrow> 33 \<le> (of_char c :: nat) \<and> (of_char c :: nat) < 127"

lemma trim_front_keep:
  assumes "list_all (\<lambda>p. p = [] \<or> \<not> visible (hd p)) ps" and "s = [] \<or> visible (hd s)"
  shows "trim_front ps s = s"
proof -
  have "\<not> (p \<noteq> [] \<and> starts_with p s)" if "p \<in> set ps" for p
    using assms that by (cases p; cases s) (auto simp: starts_with_def list_all_iff)
  then have "find (\<lambda>p. p \<noteq> [] \<and> starts_with p s) ps = None"
    by (simp add: find_None_iff)
  then show ?thesis by (simp add: trim_front.simps)
qed

lemma space_seqs_invisible:
  "list_all (\<lambda>p. p = [] \<or> \<not> visible (hd p)) space_seqs"
  "list_all (\<lambda>p. p = [] \<or> \<not> visible (hd p)) (map rev space_seqs)"
  by (simp_all add: space_seqs_def visible_def upt_rec)

lemma TrimSpace_keep:
  "s = [] \<or> visible (hd s) \<and> visible (last s) \<Longrightarrow> TrimSpace s = s"
  by (auto simp: TrimSpace_def trim_front_keep [OF space_seqs_invisible(1)]
    trim_front_keep [OF space_seqs_invisible(2)] hd_rev)

text \<open>\<^verbatim>\<open>strings.SplitN(s, sep, 2)\<close> for a separator of one byte.\<close>

definition SplitN2 :: "char \<Rightarrow> string \<Rightarrow> string list" where
  "SplitN2 sep s =
     (if sep \<in> set s then [takeWhile (\<lambda>c. c \<noteq> sep) s, tl (dropWhile (\<lambda>c. c \<noteq> sep) s)] else [s])"

text \<open>\<^verbatim>\<open>strings.Split(s, sep)\<close> for a separator of one byte, and \<^verbatim>\<open>strings.Trim\<close> of one byte.\<close>

fun Split :: "char \<Rightarrow> string \<Rightarrow> string list" where
  "Split sep [] = [[]]"
| "Split sep (c # s) =
     (if c = sep then [] # Split sep s
      else case Split sep s of [] \<Rightarrow> [[c]] | w # ws \<Rightarrow> (c # w) # ws)"

definition Trim1 :: "char \<Rightarrow> string \<Rightarrow> string" where
  "Trim1 sep s =
     rev (dropWhile (\<lambda>c. c = sep) (rev (dropWhile (\<lambda>c. c = sep) s)))"

subsection \<open>Decimal integers\<close>

definition is_digit :: "char \<Rightarrow> bool" where
  "is_digit c \<longleftrightarrow> 48 \<le> (of_char c :: nat) \<and> (of_char c :: nat) \<le> 57"

definition digit_val :: "char \<Rightarrow> int" where
  "digit_val c = int ((of_char c :: nat) - 48)"

definition digits_val :: "string \<Rightarrow> int" where
  "digits_val ds = foldl (\<lambda>v c. 10 * v + digit_val c) 0 ds"

definition in_i64 :: "int \<Rightarrow> bool" where
  "in_i64 v \<longleftrightarrow> - (2 ^ 63) \<le> v \<and> v < 2 ^ 63"

definition Atoi :: "string \<Rightarrow> int option" where
  "Atoi s =
     (let (neg, ds) =
        (case s of
           [] \<Rightarrow> (False, [])
         | c # r \<Rightarrow> if c = CHR ''-'' then (True, r) else if c = CHR ''+'' then (False, r) else (False, s));
          v = (if neg then - digits_val ds else digits_val ds)
      in if ds = [] \<or> \<not> list_all is_digit ds \<or> \<not> in_i64 v then None else Some v)"

lemma Atoi_range: "Atoi s = Some v \<Longrightarrow> in_i64 v"
  by (auto simp: Atoi_def Let_def split: if_splits list.splits prod.splits)

text \<open>\<^verbatim>\<open>strconv.Itoa\<close>, the \<^verbatim>\<open>%d\<close> of \<^verbatim>\<open>fmt.Sprintf\<close>, for the values the code prints.\<close>

fun nat_digits :: "nat \<Rightarrow> string" where
  "nat_digits n = (if n < 10 then [chr (48 + n)] else nat_digits (n div 10) @ [chr (48 + n mod 10)])"

declare nat_digits.simps [simp del]

definition Itoa :: "int \<Rightarrow> string" where
  "Itoa v = (if v < 0 then CHR ''-'' # nat_digits (nat (- v)) else nat_digits (nat v))"

lemma nat_digits_ok:
  "nat_digits n \<noteq> [] \<and> list_all is_digit (nat_digits n) \<and> digits_val (nat_digits n) = int n"
proof (induction n rule: nat_digits.induct)
  case (1 n)
  have d: "is_digit (chr (48 + k)) \<and> digit_val (chr (48 + k)) = int k" if "k < 10" for k
    using that by (simp add: is_digit_def digit_val_def)
  show ?case
  proof (cases "n < 10")
    case True
    then show ?thesis
      by (simp add: nat_digits.simps [of n] d digits_val_def)
  next
    case False
    then have "nat_digits n = nat_digits (n div 10) @ [chr (48 + n mod 10)]"
      by (simp add: nat_digits.simps [of n])
    with 1 False d [of "n mod 10"] show ?thesis
      by (simp add: digits_val_def zmod_int zdiv_int)
  qed
qed

lemma Atoi_Itoa:
  assumes "in_i64 v" shows "Atoi (Itoa v) = Some v"
proof (cases "v < 0")
  case True
  then show ?thesis
    using assms nat_digits_ok [of "nat (- v)"] by (simp add: Atoi_def Itoa_def)
next
  case False
  obtain c r where cr: "nat_digits (nat v) = c # r"
    using nat_digits_ok by (meson neq_Nil_conv)
  then have "is_digit c" using nat_digits_ok [of "nat v"] by simp
  then have "c \<noteq> CHR ''-''" "c \<noteq> CHR ''+''" by (auto simp: is_digit_def)
  then show ?thesis
    using False assms cr nat_digits_ok [of "nat v"] by (simp add: Atoi_def Itoa_def)
qed

lemma Itoa_digits: "0 \<le> v \<Longrightarrow> Itoa v \<noteq> [] \<and> list_all is_digit (Itoa v)"
  by (simp add: Itoa_def nat_digits_ok)

lemma digit_visible: "is_digit c \<Longrightarrow> visible c"
  by (simp add: is_digit_def visible_def)

lemma digits_visible:
  "ds \<noteq> [] \<Longrightarrow> list_all is_digit ds \<Longrightarrow> visible (hd ds) \<and> visible (last ds)"
  by (metis digit_visible hd_in_set last_in_set list_all_iff)

subsection \<open>JSON scalars\<close>

definition json_ws :: "char \<Rightarrow> bool" where
  "json_ws c \<longleftrightarrow> (of_char c :: nat) \<in> {32, 9, 10, 13}"

definition json_trim :: "string \<Rightarrow> string" where
  "json_trim s = rev (dropWhile json_ws (rev (dropWhile json_ws s)))"

definition hex_val :: "char \<Rightarrow> nat option" where
  "hex_val c =
     (let n = of_char c :: nat
      in if 48 \<le> n \<and> n \<le> 57 then Some (n - 48)
         else if 97 \<le> n \<and> n \<le> 102 then Some (n - 87)
         else if 65 \<le> n \<and> n \<le> 70 then Some (n - 55) else None)"

fun getu4 :: "string \<Rightarrow> nat option" where
  "getu4 (a # b # c # d # _) =
     (case (hex_val a, hex_val b, hex_val c, hex_val d) of
        (Some w, Some x, Some y, Some z) \<Rightarrow> Some (4096 * w + 256 * x + 16 * y + z)
      | _ \<Rightarrow> None)"
| "getu4 _ = None"

definition utf8 :: "nat \<Rightarrow> string" where
  "utf8 r =
     (if r < 0x80 then [chr r]
      else if r < 0x800 then [chr (0xC0 + r div 64), chr (0x80 + r mod 64)]
      else if r < 0x10000 then
        [chr (0xE0 + r div 4096), chr (0x80 + r div 64 mod 64), chr (0x80 + r mod 64)]
      else [chr (0xF0 + r div 262144), chr (0x80 + r div 4096 mod 64), chr (0x80 + r div 64 mod 64),
            chr (0x80 + r mod 64)])"

definition simple_escape :: "char \<Rightarrow> char option" where
  "simple_escape c =
     (if c = CHR 0x22 \<or> c = CHR 0x5C \<or> c = CHR ''/'' then Some c
      else if c = CHR ''b'' then Some (chr 8) else if c = CHR ''f'' then Some (chr 12)
      else if c = CHR ''n'' then Some (chr 10) else if c = CHR ''r'' then Some (chr 13)
      else if c = CHR ''t'' then Some (chr 9) else None)"

definition high_surrogate :: "nat \<Rightarrow> bool" where
  "high_surrogate r \<longleftrightarrow> 0xD800 \<le> r \<and> r < 0xDC00"

definition low_surrogate :: "nat \<Rightarrow> bool" where
  "low_surrogate r \<longleftrightarrow> 0xDC00 \<le> r \<and> r < 0xE000"

text \<open>
  The body of a string literal behind its opening quote: the decoded text, if the closing quote is
  the last character.  An unpaired surrogate becomes U+FFFD.
\<close>

function json_body :: "string \<Rightarrow> string option" where
  "json_body [] = None"
| "json_body (c # s) =
     (if c = CHR 0x22 then (if s = [] then Some [] else None)
      else if c = CHR 0x5C then
        (case s of
           [] \<Rightarrow> None
         | e # s' \<Rightarrow>
             if e = CHR ''u'' then
               (case getu4 s' of
                  None \<Rightarrow> None
                | Some r \<Rightarrow>
                    if high_surrogate r \<and> take 2 (drop 4 s') = [CHR 0x5C, CHR ''u'']
                       \<and> (case getu4 (drop 6 s') of Some r2 \<Rightarrow> low_surrogate r2 | None \<Rightarrow> False) then
                      map_option
                        (\<lambda>t. utf8 (0x10000 + (r - 0xD800) * 1024 + (the (getu4 (drop 6 s')) - 0xDC00)) @ t)
                        (json_body (drop 10 s'))
                    else
                      map_option (\<lambda>t. utf8 (if high_surrogate r \<or> low_surrogate r then 0xFFFD else r) @ t)
                        (json_body (drop 4 s')))
             else
               (case simple_escape e of
                  None \<Rightarrow> None
                | Some x \<Rightarrow> map_option (\<lambda>t. x # t) (json_body s')))
      else if (of_char c :: nat) < 32 then None
      else map_option (\<lambda>t. c # t) (json_body s))"
  by pat_completeness auto
termination
  by (relation "measure length") auto

declare json_body.simps [simp del]

definition json_unmarshal_string :: "string \<Rightarrow> string option" where
  "json_unmarshal_string raw =
     (let s = json_trim raw
      in if s = ''null'' then Some []
         else case s of [] \<Rightarrow> None | c # r \<Rightarrow> if c = CHR 0x22 then json_body r else None)"

definition json_int_literal :: "string \<Rightarrow> bool" where
  "json_int_literal s \<longleftrightarrow>
     (let ds = (case s of [] \<Rightarrow> [] | c # r \<Rightarrow> if c = CHR ''-'' then r else s)
      in ds \<noteq> [] \<and> list_all is_digit ds \<and> (hd ds = CHR ''0'' \<longrightarrow> length ds = 1))"

definition json_unmarshal_int :: "string \<Rightarrow> int option" where
  "json_unmarshal_int raw =
     (let s = json_trim raw
      in if s = ''null'' then Some 0 else if json_int_literal s then Atoi s else None)"

text \<open>A literal without escapes, quotes or control characters decodes to itself.\<close>

definition plain :: "char \<Rightarrow> bool" where
  "plain c \<longleftrightarrow> c \<noteq> CHR 0x22 \<and> c \<noteq> CHR 0x5C \<and> 32 \<le> (of_char c :: nat)"

lemma json_body_plain: "list_all plain s \<Longrightarrow> json_body (s @ [CHR 0x22]) = Some s"
  by (induction s) (auto simp: json_body.simps plain_def)

definition json_quoted :: "string \<Rightarrow> string" where
  "json_quoted s = CHR 0x22 # s @ [CHR 0x22]"

lemma json_string_plain: "list_all plain s \<Longrightarrow> json_unmarshal_string (json_quoted s) = Some s"
  by (simp add: json_quoted_def json_unmarshal_string_def json_trim_def json_ws_def json_body_plain)

subsection \<open>Addresses\<close>

text \<open>\<^verbatim>\<open>net.SplitHostPort\<close>: \<open>host:port\<close> or \<open>[host]:port\<close>, the latter for a host with colons.\<close>

definition SplitHostPort :: "string \<Rightarrow> (string \<times> string) option" where
  "SplitHostPort s =
     (if CHR '':'' \<notin> set s then None
      else
        let port = rev (takeWhile (\<lambda>c. c \<noteq> CHR '':'') (rev s)); i = length s - length port - 1
        in if hd s = CHR ''['' then
             (if CHR '']'' \<notin> set s then None
              else let fin = length (takeWhile (\<lambda>c. c \<noteq> CHR '']'') s)
                   in if fin + 1 \<noteq> i \<or> CHR ''['' \<in> set (drop 1 s) \<or> CHR '']'' \<in> set (drop (fin + 1) s) then None
                      else Some (drop 1 (take fin s), port))
           else if CHR '':'' \<in> set (take i s) \<or> CHR ''['' \<in> set s \<or> CHR '']'' \<in> set s then None
           else Some (take i s, port))"

lemma Itoa_no_char: "0 \<le> v \<Longrightarrow> \<not> is_digit c \<Longrightarrow> c \<notin> set (Itoa v)"
  using Itoa_digits [of v] by (auto simp: list_all_iff)

lemma SplitHostPort_colon:
  assumes "CHR '':'' \<notin> set p" "CHR ''['' \<notin> set a"
  shows "SplitHostPort (a @ '':'' @ p) =
    (if CHR '':'' \<in> set a \<or> CHR '']'' \<in> set a \<or> CHR ''['' \<in> set p \<or> CHR '']'' \<in> set p then None else Some (a, p))"
proof -
  have "takeWhile (\<lambda>c. c \<noteq> CHR '':'') (rev p @ CHR '':'' # rev a) = rev p"
    using assms(1) by (subst takeWhile_append2) auto
  moreover have "rev (a @ '':'' @ p) = rev p @ CHR '':'' # rev a" by simp
  ultimately have port: "rev (takeWhile (\<lambda>c. c \<noteq> CHR '':'') (rev (a @ '':'' @ p))) = p" by (simp only: rev_rev_ident)
  have hd: "(hd (a @ '':'' @ p) = CHR ''['') = False" using assms(2) by (cases a) auto
  have len: "take (length (a @ '':'' @ p) - length p - 1) (a @ '':'' @ p) = a" by simp
  have col: "(CHR '':'' \<notin> set (a @ '':'' @ p)) = False" by simp
  have br: "(CHR ''['' \<in> set (a @ '':'' @ p) \<or> CHR '']'' \<in> set (a @ '':'' @ p))
      = (CHR '']'' \<in> set a \<or> CHR ''['' \<in> set p \<or> CHR '']'' \<in> set p)" using assms(2) by auto
  show ?thesis unfolding SplitHostPort_def port Let_def hd len col br if_False by simp
qed

lemma SplitHostPort_brackets:
  assumes "CHR '':'' \<notin> set p" "CHR ''['' \<notin> set h" "CHR '']'' \<notin> set h" "CHR ''['' \<notin> set p" "CHR '']'' \<notin> set p"
  shows "SplitHostPort (''['' @ h @ '']:'' @ p) = Some (h, p)"
proof -
  let ?s = "''['' @ h @ '']:'' @ p"
  have "takeWhile (\<lambda>c. c \<noteq> CHR '':'') (rev p @ CHR '':'' # CHR '']'' # rev h @ ''['') = rev p"
    using assms(1) by (subst takeWhile_append2) auto
  moreover have "rev ?s = rev p @ CHR '':'' # CHR '']'' # rev h @ ''[''" by simp
  ultimately have port: "rev (takeWhile (\<lambda>c. c \<noteq> CHR '':'') (rev ?s)) = p" by (simp only: rev_rev_ident)
  have "takeWhile (\<lambda>c. c \<noteq> CHR '']'') (h @ CHR '']'' # CHR '':'' # p) = h"
    using assms(3) by (subst takeWhile_append2) auto
  then have fin: "length (takeWhile (\<lambda>c. c \<noteq> CHR '']'') ?s) = Suc (length h)" by simp
  have col: "(CHR '':'' \<notin> set ?s) = False" "(CHR '']'' \<notin> set ?s) = False" "(hd ?s = CHR ''['') = True" by simp_all
  have "CHR ''['' \<notin> set (drop 1 ?s)" "CHR '']'' \<notin> set (drop (Suc (length h) + 1) ?s)" "drop 1 (take (Suc (length h)) ?s) = h"
    using assms by simp_all
  moreover have "length ?s - length p - 1 = Suc (length h) + 1" by simp
  ultimately show ?thesis unfolding SplitHostPort_def port Let_def fin col if_False if_True by simp
qed

end
