(* ===== verification/Configuration.thy ===== *)
theory Configuration
  imports GoStd
begin

text \<open>
  \<^verbatim>\<open>internal/config\<close>: the configuration records, the limits derived from a user's entry, port
  ranges, the expansion of instance entries into instances (\<^verbatim>\<open>expand.go\<close>) and validation
  (\<^verbatim>\<open>config.go\<close>).  A \<^verbatim>\<open>json.RawMessage\<close> is its text, \<open>None\<close> when the key is absent.
\<close>

subsection \<open>Records\<close>

record UserConfig =
  uc_Username :: string
  uc_Password :: string
  uc_BandwidthLimit :: int
  uc_BandwidthUnit :: string
  uc_DataLimit :: int
  uc_DataUnit :: string
  uc_IPLimit :: int

record SocksConfig =
  socks_Listen :: string
  socks_BufferSize :: int
  socks_MaxConnections :: int
  socks_Users :: "UserConfig list"

record CentralServerConfig =
  central_Address :: string
  central_Secret :: string
  central_ChunkSize :: int

record GUIConfig =
  gui_Enabled :: bool
  gui_Listen :: string
  gui_Username :: string
  gui_Password :: string

record HealthCheckConfig =
  hc_Interval :: string
  hc_Target :: string
  hc_Timeout :: string

record InstanceConfig =
  ic_Domain :: string
  ic_Resolver :: string
  ic_Port :: "string option"
  ic_Replicas :: int
  ic_Mode :: string
  ic_Authoritative :: bool
  ic_Cert :: string
  ic_SSHPort :: int
  ic_SSHUser :: string
  ic_SSHPassword :: string
  ic_SSHKey :: string

record Config =
  Socks :: SocksConfig
  SlipstreamBinary :: string
  Strategy :: string
  HealthCheck :: HealthCheckConfig
  Instances :: "InstanceConfig list"
  GUI :: GUIConfig
  CentralServer :: CentralServerConfig

record ExpandedInstance =
  ei_Domain :: string
  ei_Resolver :: string
  ei_Port :: int
  ei_Mode :: string
  ei_Authoritative :: bool
  ei_Cert :: string
  ei_SSHPort :: int
  ei_SSHUser :: string
  ei_SSHPassword :: string
  ei_SSHKey :: string
  ei_OriginalIndex :: nat
  ei_ReplicaIndex :: nat

subsection \<open>User limits\<close>

definition BandwidthBytesPerSec :: "UserConfig \<Rightarrow> int" where
  "BandwidthBytesPerSec u =
     (if uc_BandwidthLimit u \<le> 0 then 0
      else if uc_BandwidthUnit u = ''mbit''
        then i64 (i64 (uc_BandwidthLimit u * 1000) * 1000) sdiv 8
      else i64 (uc_BandwidthLimit u * 1000) sdiv 8)"

definition DataLimitBytes :: "UserConfig \<Rightarrow> int" where
  "DataLimitBytes u =
     (if uc_DataLimit u \<le> 0 then 0
      else if uc_DataUnit u = ''gb''
        then i64 (i64 (i64 (uc_DataLimit u * 1024) * 1024) * 1024)
      else i64 (i64 (uc_DataLimit u * 1024) * 1024))"

subsection \<open>Ports\<close>

datatype port_error =
    InvalidPortRange string | InvalidRangeStart string | InvalidRangeEnd string
  | StartAfterEnd int int | PortsOutOfRange | InvalidPortValue string

definition parsePortRange :: "string \<Rightarrow> port_error + int list" where
  "parsePortRange s0 =
     (let s = TrimSpace s0
      in case Atoi s of
           Some port \<Rightarrow> Inr [port]
         | None \<Rightarrow>
             case SplitN2 (CHR ''-'') s of
               [a, b] \<Rightarrow>
                 (case Atoi (TrimSpace a) of
                    None \<Rightarrow> Inl (InvalidRangeStart a)
                  | Some start \<Rightarrow>
                      case Atoi (TrimSpace b) of
                        None \<Rightarrow> Inl (InvalidRangeEnd b)
                      | Some stop \<Rightarrow>
                          if start > stop then Inl (StartAfterEnd start stop)
                          else if start \<le> 0 \<or> stop > 65535 then Inl PortsOutOfRange
                          else Inr [start..stop])
             | _ \<Rightarrow> Inl (InvalidPortRange s))"

definition ParsePorts :: "InstanceConfig \<Rightarrow> port_error + int list" where
  "ParsePorts ic =
     (let text = (case ic_Port ic of None \<Rightarrow> [] | Some t \<Rightarrow> t);
          raw = TrimSpace text
      in case Atoi raw of
           Some port \<Rightarrow> Inr [port]
         | None \<Rightarrow>
             case json_unmarshal_string text of
               Some portStr \<Rightarrow> parsePortRange portStr
             | None \<Rightarrow>
                 case json_unmarshal_int text of
                   Some portNum \<Rightarrow> Inr [portNum]
                 | None \<Rightarrow> Inl (InvalidPortValue raw))"

lemma parsePortRange_nonempty: "parsePortRange s = Inr ps \<Longrightarrow> ps \<noteq> []"
  by (auto simp: parsePortRange_def Let_def split: option.splits list.splits if_splits)

lemma ParsePorts_nonempty: "ParsePorts ic = Inr ps \<Longrightarrow> ps \<noteq> []"
  by (auto simp: ParsePorts_def Let_def parsePortRange_nonempty split: option.splits)

text \<open>A single port, written as a number.\<close>

lemma ParsePorts_number:
  assumes "ic_Port ic = Some s" "s \<noteq> []" "list_all is_digit s" "Atoi s = Some p"
  shows "ParsePorts ic = Inr [p]"
  using assms digits_visible [of s] by (simp add: ParsePorts_def TrimSpace_keep)

text \<open>A range, written as a string.\<close>

lemma SplitN2_dash:
  "CHR ''-'' \<notin> set a \<Longrightarrow> SplitN2 (CHR ''-'') (a @ CHR ''-'' # b) = [a, b]"
proof -
  assume "CHR ''-'' \<notin> set a"
  then have "takeWhile (\<lambda>c. c \<noteq> CHR ''-'') (a @ CHR ''-'' # b) = a
      \<and> dropWhile (\<lambda>c. c \<noteq> CHR ''-'') (a @ CHR ''-'' # b) = CHR ''-'' # b"
    by (induction a) auto
  then show ?thesis by (simp add: SplitN2_def)
qed

lemma digits_no_dash: "list_all is_digit ds \<Longrightarrow> CHR ''-'' \<notin> set ds"
  by (auto simp: list_all_iff is_digit_def)

definition range_text :: "int \<Rightarrow> int \<Rightarrow> string" where
  "range_text a b = Itoa a @ CHR ''-'' # Itoa b"

lemma parsePortRange_range:
  assumes "0 < a" "a \<le> b" "b \<le> 65535"
  shows "parsePortRange (range_text a b) = Inr [a..b]"
proof -
  let ?s = "Itoa a @ CHR ''-'' # Itoa b"
  have a: "Itoa a \<noteq> []" "list_all is_digit (Itoa a)" "Atoi (Itoa a) = Some a"
    and b: "Itoa b \<noteq> []" "list_all is_digit (Itoa b)" "Atoi (Itoa b) = Some b"
    using assms Itoa_digits [of a] Itoa_digits [of b] by (auto intro!: Atoi_Itoa simp: in_i64_def)
  have vis: "visible (hd ?s) \<and> visible (last ?s)"
    using a b digits_visible by (simp add: hd_append)
  obtain c r where cr: "Itoa a = c # r" "is_digit c"
    using a by (cases "Itoa a") auto
  then have "c \<noteq> CHR ''-''" "c \<noteq> CHR ''+''" by (auto simp: is_digit_def)
  moreover have "\<not> is_digit (CHR ''-'')" by (simp add: is_digit_def)
  ultimately have "Atoi ?s = None" using cr by (simp add: Atoi_def)
  with a b assms vis show ?thesis
    by (simp add: parsePortRange_def range_text_def TrimSpace_keep SplitN2_dash digits_no_dash
      digits_visible)
qed

lemma ParsePorts_range:
  assumes "0 < a" "a \<le> b" "b \<le> 65535" and "ic_Port ic = Some (json_quoted (range_text a b))"
  shows "ParsePorts ic = Inr [a..b]"
proof -
  have "list_all plain (Itoa a)" "list_all plain (Itoa b)"
    using Itoa_digits [of a] Itoa_digits [of b] assms
    by (auto simp: list_all_iff is_digit_def plain_def)
  then have "list_all plain (range_text a b)"
    by (simp add: range_text_def plain_def)
  moreover have "Atoi (TrimSpace (json_quoted s)) = None" for s
    by (simp add: json_quoted_def TrimSpace_keep visible_def Atoi_def is_digit_def)
  ultimately show ?thesis
    using assms parsePortRange_range by (simp add: ParsePorts_def json_string_plain)
qed

subsection \<open>Expansion\<close>

datatype expand_error =
    BadPorts nat port_error | TooFewPorts nat nat int | DuplicatePort int

text \<open>The replica count of an entry, and the ports its replicas take.\<close>

definition eff_replicas :: "InstanceConfig \<Rightarrow> int" where
  "eff_replicas inst = (if ic_Replicas inst \<le> 0 then 1 else ic_Replicas inst)"

definition replica_ports :: "int list \<Rightarrow> int \<Rightarrow> int list" where
  "replica_ports ports replicas =
     (if length ports = 1 \<and> replicas > 1
      then map (\<lambda>r. i64 (ports ! 0 + int r)) [0..<nat replicas] else ports)"

definition expand_one :: "nat \<Rightarrow> InstanceConfig \<Rightarrow> expand_error + ExpandedInstance list" where
  "expand_one i inst =
     (let replicas = eff_replicas inst
      in case ParsePorts inst of
           Inl e \<Rightarrow> Inl (BadPorts i e)
         | Inr ports0 \<Rightarrow>
             let ports = replica_ports ports0 replicas;
                 mode = (if ic_Mode inst = [] then ''socks'' else ic_Mode inst)
             in if int (length ports) < replicas
                then Inl (TooFewPorts i (length ports) replicas)
                else Inr (map (\<lambda>r.
                  \<lparr>ei_Domain = ic_Domain inst, ei_Resolver = ic_Resolver inst, ei_Port = ports ! r,
                   ei_Mode = mode, ei_Authoritative = ic_Authoritative inst, ei_Cert = ic_Cert inst,
                   ei_SSHPort = ic_SSHPort inst, ei_SSHUser = ic_SSHUser inst,
                   ei_SSHPassword = ic_SSHPassword inst, ei_SSHKey = ic_SSHKey inst,
                   ei_OriginalIndex = i, ei_ReplicaIndex = r\<rparr>) [0..<nat replicas]))"

fun expand_from :: "nat \<Rightarrow> InstanceConfig list \<Rightarrow> expand_error + ExpandedInstance list" where
  "expand_from i [] = Inr []"
| "expand_from i (inst # insts) =
     (case expand_one i inst of
        Inl e \<Rightarrow> Inl e
      | Inr xs \<Rightarrow>
          case expand_from (Suc i) insts of Inl e \<Rightarrow> Inl e | Inr ys \<Rightarrow> Inr (xs @ ys))"

text \<open>The first port that repeats an earlier one; \<open>seen\<close> is \<^verbatim>\<open>portSet\<close>.\<close>

fun duplicate_port :: "int list \<Rightarrow> int list \<Rightarrow> int option" where
  "duplicate_port seen [] = None"
| "duplicate_port seen (p # ps) =
     (if p \<in> set seen then Some p else duplicate_port (p # seen) ps)"

definition ExpandInstances :: "Config \<Rightarrow> expand_error + ExpandedInstance list" where
  "ExpandInstances c =
     (case expand_from 0 (Instances c) of
        Inl e \<Rightarrow> Inl e
      | Inr result \<Rightarrow>
          case duplicate_port [] (map ei_Port result) of
            Some p \<Rightarrow> Inl (DuplicatePort p)
          | None \<Rightarrow> Inr result)"

lemma duplicate_port_None:
  "duplicate_port seen ps = None \<longleftrightarrow> distinct ps \<and> set ps \<inter> set seen = {}"
  by (induction ps arbitrary: seen) auto

lemma expand_one_Inr:
  assumes "expand_one i inst = Inr xs"
  shows "map (\<lambda>e. (ei_OriginalIndex e, ei_ReplicaIndex e)) xs
      = map (\<lambda>r. (i, r)) [0..<nat (eff_replicas inst)]"
    and "\<forall>e \<in> set xs. ei_Domain e = ic_Domain inst \<and> ei_Resolver e = ic_Resolver inst
      \<and> (ei_Mode e = ''ssh'' \<longleftrightarrow> ic_Mode inst = ''ssh'')"
    and "\<exists>ps. ParsePorts inst = Inr ps \<and> map ei_Port xs =
      take (nat (eff_replicas inst)) (replica_ports ps (eff_replicas inst))"
proof -
  obtain ps where ps: "ParsePorts inst = Inr ps"
      "eff_replicas inst \<le> int (length (replica_ports ps (eff_replicas inst)))"
    using assms by (auto simp: expand_one_def Let_def split: sum.splits if_splits)
  show "map (\<lambda>e. (ei_OriginalIndex e, ei_ReplicaIndex e)) xs
      = map (\<lambda>r. (i, r)) [0..<nat (eff_replicas inst)]"
    and "\<forall>e \<in> set xs. ei_Domain e = ic_Domain inst \<and> ei_Resolver e = ic_Resolver inst
      \<and> (ei_Mode e = ''ssh'' \<longleftrightarrow> ic_Mode inst = ''ssh'')"
    using assms by (auto simp: expand_one_def Let_def split: sum.splits if_splits)
  have "map ei_Port xs =
      map ((!) (replica_ports ps (eff_replicas inst))) [0..<nat (eff_replicas inst)]"
    using assms ps by (auto simp: expand_one_def Let_def split: if_splits)
  with ps show "\<exists>ps. ParsePorts inst = Inr ps \<and> map ei_Port xs =
      take (nat (eff_replicas inst)) (replica_ports ps (eff_replicas inst))"
    by (intro exI [of _ ps]) (auto intro!: nth_equalityI)
qed

lemma expand_one_ports:
  assumes "ParsePorts inst = Inr ps" "n = eff_replicas inst" "n \<le> int (length (replica_ports ps n))"
  shows "\<exists>xs. expand_one i inst = Inr xs \<and> map ei_Port xs = take (nat n) (replica_ports ps n)"
  using assms by (auto simp: expand_one_def Let_def intro!: nth_equalityI)

lemma expand_from_indices:
  "expand_from k insts = Inr xs \<Longrightarrow>
     map (\<lambda>e. (ei_OriginalIndex e, ei_ReplicaIndex e)) xs =
       concat (map (\<lambda>(i, inst). map (Pair i) [0..<nat (eff_replicas inst)]) (enumerate k insts))"
proof (induction insts arbitrary: k xs)
  case (Cons inst insts)
  then obtain ys zs where "expand_one k inst = Inr ys" "expand_from (Suc k) insts = Inr zs" "xs = ys @ zs"
    by (auto split: sum.splits)
  with Cons.IH [of "Suc k" zs] expand_one_Inr(1) [of k inst ys] show ?case by simp
qed simp

lemma expand_from_modes:
  "expand_from k insts = Inr xs \<Longrightarrow> e \<in> set xs \<Longrightarrow>
     \<exists>inst \<in> set insts. ei_Domain e = ic_Domain inst \<and> ei_Resolver e = ic_Resolver inst
       \<and> (ei_Mode e = ''ssh'' \<longleftrightarrow> ic_Mode inst = ''ssh'')"
proof (induction insts arbitrary: k xs)
  case (Cons inst insts)
  then obtain ys zs where "expand_one k inst = Inr ys" "expand_from (Suc k) insts = Inr zs" "xs = ys @ zs"
    by (auto split: sum.splits)
  with Cons.IH [of "Suc k" zs] Cons.prems(2) expand_one_Inr(2) [of k inst ys] show ?case by auto
qed simp

subsection \<open>Validation\<close>

datatype config_error =
    ListenRequired | NoInstances | InvalidStrategy string | CentralAddressRequired
  | DomainRequired nat | ResolverRequired nat | PortRequired nat | InvalidMode nat string
  | SSHUserRequired nat | SSHAuthRequired nat | ExpandFailed expand_error

definition strategies :: "string list" where
  "strategies = [''round_robin'', ''random'', ''least_ping'', ''least_load'', ''packet_split'']"

definition validate_instance :: "nat \<Rightarrow> InstanceConfig \<Rightarrow> config_error + InstanceConfig" where
  "validate_instance i inst =
     (if ic_Domain inst = [] then Inl (DomainRequired i)
      else if ic_Resolver inst = [] then Inl (ResolverRequired i)
      else if ic_Port inst = None then Inl (PortRequired i)
      else if ic_Mode inst \<notin> {[], ''socks'', ''ssh''} then Inl (InvalidMode i (ic_Mode inst))
      else if ic_Mode inst = ''ssh'' then
        if ic_SSHUser inst = [] then Inl (SSHUserRequired i)
        else if ic_SSHPassword inst = [] \<and> ic_SSHKey inst = [] then Inl (SSHAuthRequired i)
        else if ic_SSHPort inst \<le> 0 then Inr (inst\<lparr>ic_SSHPort := 22\<rparr>)
        else Inr inst
      else Inr inst)"

fun validate_instances :: "nat \<Rightarrow> InstanceConfig list \<Rightarrow> config_error + InstanceConfig list" where
  "validate_instances i [] = Inr []"
| "validate_instances i (inst # insts) =
     (case validate_instance i inst of
        Inl e \<Rightarrow> Inl e
      | Inr x \<Rightarrow>
          case validate_instances (Suc i) insts of Inl e \<Rightarrow> Inl e | Inr xs \<Rightarrow> Inr (x # xs))"

definition default_str :: "string \<Rightarrow> string \<Rightarrow> string" where
  "default_str d s = (if s = [] then d else s)"

definition validate_strategy :: "Config \<Rightarrow> config_error + Config" where
  "validate_strategy c =
     (if Strategy c \<in> set strategies then Inr c
      else if Strategy c = [] then Inr (c\<lparr>Strategy := ''round_robin''\<rparr>)
      else Inl (InvalidStrategy (Strategy c)))"

definition validate_packet_split :: "Config \<Rightarrow> config_error + Config" where
  "validate_packet_split c =
     (if Strategy c = ''packet_split'' then
        if central_Address (CentralServer c) = [] then Inl CentralAddressRequired
        else if central_ChunkSize (CentralServer c) \<le> 0
          then Inr (c\<lparr>CentralServer := (CentralServer c)\<lparr>central_ChunkSize := 8192\<rparr>\<rparr>)
        else Inr c
      else Inr c)"

definition default_socks :: "SocksConfig \<Rightarrow> SocksConfig" where
  "default_socks s =
     s\<lparr>socks_BufferSize := (if socks_BufferSize s \<le> 0 then 65536 else socks_BufferSize s),
       socks_MaxConnections := (if socks_MaxConnections s \<le> 0 then 10000 else socks_MaxConnections s)\<rparr>"

definition default_health :: "HealthCheckConfig \<Rightarrow> HealthCheckConfig" where
  "default_health h =
     h\<lparr>hc_Interval := default_str ''10s'' (hc_Interval h),
       hc_Target := default_str ''google.com'' (hc_Target h),
       hc_Timeout := default_str ''5s'' (hc_Timeout h)\<rparr>"

definition default_gui :: "GUIConfig \<Rightarrow> GUIConfig" where
  "default_gui g = g\<lparr>gui_Listen := default_str ''127.0.0.1:8384'' (gui_Listen g)\<rparr>"

definition Validate :: "Config \<Rightarrow> config_error + Config" where
  "Validate c0 =
     (if socks_Listen (Socks c0) = [] then Inl ListenRequired
      else if Instances c0 = [] then Inl NoInstances
      else
        case validate_strategy c0 of
          Inl e \<Rightarrow> Inl e
        | Inr c1 \<Rightarrow>
            case validate_packet_split c1 of
              Inl e \<Rightarrow> Inl e
            | Inr c2 \<Rightarrow>
                let c3 = c2\<lparr>Socks := default_socks (Socks c2)\<rparr>
                in case validate_instances 0 (Instances c3) of
                     Inl e \<Rightarrow> Inl e
                   | Inr insts \<Rightarrow>
                       let c4 = c3\<lparr>Instances := insts\<rparr>
                       in case ExpandInstances c4 of
                            Inl e \<Rightarrow> Inl (ExpandFailed e)
                          | Inr _ \<Rightarrow>
                              Inr (c4\<lparr>HealthCheck := default_health (HealthCheck c4),
                                      GUI := default_gui (GUI c4)\<rparr>))"

text \<open>What a configuration that passed validation satisfies.\<close>

definition instance_ok :: "InstanceConfig \<Rightarrow> bool" where
  "instance_ok inst \<longleftrightarrow>
     ic_Domain inst \<noteq> [] \<and> ic_Resolver inst \<noteq> [] \<and> ic_Port inst \<noteq> None
     \<and> ic_Mode inst \<in> {[], ''socks'', ''ssh''}
     \<and> (ic_Mode inst = ''ssh'' \<longrightarrow>
          ic_SSHUser inst \<noteq> [] \<and> (ic_SSHPassword inst \<noteq> [] \<or> ic_SSHKey inst \<noteq> []) \<and> 0 < ic_SSHPort inst)"

definition config_ok :: "Config \<Rightarrow> bool" where
  "config_ok c \<longleftrightarrow>
     socks_Listen (Socks c) \<noteq> [] \<and> Instances c \<noteq> [] \<and> Strategy c \<in> set strategies
     \<and> (Strategy c = ''packet_split'' \<longrightarrow>
          central_Address (CentralServer c) \<noteq> [] \<and> 0 < central_ChunkSize (CentralServer c))
     \<and> 0 < socks_BufferSize (Socks c) \<and> 0 < socks_MaxConnections (Socks c)
     \<and> list_all instance_ok (Instances c) \<and> (\<exists>xs. ExpandInstances c = Inr xs)
     \<and> hc_Interval (HealthCheck c) \<noteq> [] \<and> hc_Target (HealthCheck c) \<noteq> []
     \<and> hc_Timeout (HealthCheck c) \<noteq> [] \<and> gui_Listen (GUI c) \<noteq> []"

lemma validate_instance_Inr:
  "validate_instance i inst = Inr x \<Longrightarrow> instance_ok x"
  by (auto simp: validate_instance_def instance_ok_def split: if_splits)

lemma validate_instance_ok: "instance_ok inst \<Longrightarrow> validate_instance i inst = Inr inst"
  by (auto simp: validate_instance_def instance_ok_def)

lemma validate_instances_Inr:
  "validate_instances i insts = Inr xs \<Longrightarrow> list_all instance_ok xs \<and> length xs = length insts"
  by (induction insts arbitrary: i xs)
    (auto split: sum.splits dest: validate_instance_Inr)

lemma validate_instances_ok:
  "list_all instance_ok insts \<Longrightarrow> validate_instances i insts = Inr insts"
  by (induction insts arbitrary: i) (auto simp: validate_instance_ok)

lemma ExpandInstances_cong: "Instances c = Instances d \<Longrightarrow> ExpandInstances c = ExpandInstances d"
  by (simp add: ExpandInstances_def)

lemma Validate_ok:
  assumes "config_ok c" shows "Validate c = Inr c"
  using assms
  by (cases c)
    (auto simp: Validate_def config_ok_def validate_strategy_def validate_packet_split_def
      validate_instances_ok default_socks_def default_health_def default_gui_def default_str_def
      split: sum.splits)

lemma Validate_Inr:
  assumes "Validate c = Inr c'" shows "config_ok c'"
proof -
  obtain c1 c2 where c1: "validate_strategy c = Inr c1" and c2: "validate_packet_split c1 = Inr c2"
    and pre: "socks_Listen (Socks c) \<noteq> []" "Instances c \<noteq> []"
    using assms by (auto simp: Validate_def split: if_splits sum.splits)
  then obtain insts where i: "validate_instances 0 (Instances c2) = Inr insts"
    using assms by (auto simp: Validate_def split: sum.splits)
  let ?c4 = "c2\<lparr>Socks := default_socks (Socks c2), Instances := insts\<rparr>"
  obtain xs where x: "ExpandInstances ?c4 = Inr xs"
      "c' = ?c4\<lparr>HealthCheck := default_health (HealthCheck ?c4), GUI := default_gui (GUI ?c4)\<rparr>"
    using assms c1 c2 i pre by (auto simp: Validate_def Let_def split: sum.splits)
  have c1': "Strategy c1 \<in> set strategies" "Socks c1 = Socks c" "Instances c1 = Instances c"
    using c1 by (auto simp: validate_strategy_def strategies_def split: if_splits)
  have c2': "Strategy c2 = Strategy c1" "Socks c2 = Socks c" "Instances c2 = Instances c"
    "Strategy c2 = ''packet_split'' \<Longrightarrow>
       central_Address (CentralServer c2) \<noteq> [] \<and> 0 < central_ChunkSize (CentralServer c2)"
    using c2 c1' by (auto simp: validate_packet_split_def split: if_splits)
  have "ExpandInstances c' = Inr xs"
    using x by (simp add: ExpandInstances_def)
  then show ?thesis
    unfolding config_ok_def x(2)
    using c1' c2' pre validate_instances_Inr [OF i]
    by (auto simp: default_socks_def default_health_def default_gui_def default_str_def)
qed

subsection \<open>The shipped example\<close>

text \<open>\<^verbatim>\<open>configs/example.json\<close> as \<^verbatim>\<open>json.Unmarshal\<close> leaves it, with absent keys at their zero values.\<close>

definition example_instance :: "string \<Rightarrow> string \<Rightarrow> string \<Rightarrow> int \<Rightarrow> InstanceConfig" where
  "example_instance domain resolver port replicas =
     \<lparr>ic_Domain = domain, ic_Resolver = resolver, ic_Port = Some port, ic_Replicas = replicas,
      ic_Mode = [], ic_Authoritative = False, ic_Cert = [], ic_SSHPort = 0, ic_SSHUser = [],
      ic_SSHPassword = [], ic_SSHKey = []\<rparr>"

definition example_config :: Config where
  "example_config =
     \<lparr>Socks = \<lparr>socks_Listen = ''0.0.0.0:1080'', socks_BufferSize = 65536,
         socks_MaxConnections = 10000, socks_Users = []\<rparr>,
      SlipstreamBinary = [], Strategy = ''round_robin'',
      HealthCheck = \<lparr>hc_Interval = ''10s'', hc_Target = ''google.com'', hc_Timeout = ''10s''\<rparr>,
      Instances =
        [example_instance ''t1.example.com'' ''8.8.8.8:53'' ''17001'' 1,
         example_instance ''t2.example.com'' ''1.1.1.1:53''
           (json_quoted (range_text 17002 17005)) 4,
         example_instance ''t3.example.com'' ''9.9.9.9:53'' ''17006'' 1],
      GUI = \<lparr>gui_Enabled = True, gui_Listen = ''127.0.0.1:8384'', gui_Username = [], gui_Password = []\<rparr>,
      CentralServer = \<lparr>central_Address = [], central_Secret = [], central_ChunkSize = 0\<rparr>\<rparr>"

lemma example_ports:
  "ParsePorts (example_instance d r ''17001'' n) = Inr [17001]"
  "ParsePorts (example_instance d r ''17006'' n) = Inr [17006]"
  "ParsePorts (example_instance d r
     (json_quoted (range_text 17002 17005)) n) = Inr [17002..17005]"
proof -
  show "ParsePorts (example_instance d r ''17001'' n) = Inr [17001]"
    by (rule ParsePorts_number [where s = "''17001''"])
      (simp_all add: example_instance_def is_digit_def Atoi_def digits_val_def digit_val_def in_i64_def)
  show "ParsePorts (example_instance d r ''17006'' n) = Inr [17006]"
    by (rule ParsePorts_number [where s = "''17006''"])
      (simp_all add: example_instance_def is_digit_def Atoi_def digits_val_def digit_val_def in_i64_def)
  show "ParsePorts (example_instance d r (json_quoted (range_text 17002 17005)) n) = Inr [17002..17005]"
    by (rule ParsePorts_range) (simp_all add: example_instance_def)
qed

lemma example_expands:
  "\<exists>xs. ExpandInstances example_config = Inr xs
     \<and> map ei_Port xs = [17001, 17002, 17003, 17004, 17005, 17006]"
proof -
  have r: "eff_replicas (example_instance d r p n) = (if n \<le> 0 then 1 else n)" for d r p n
    by (simp add: eff_replicas_def example_instance_def)
  have four: "[17002..17005] = [17002, 17003, 17004, 17005 :: int]"
    by (simp add: upto.simps)
  obtain xs where xs: "expand_one 0 (example_instance ''t1.example.com'' ''8.8.8.8:53'' ''17001'' 1) = Inr xs"
      "map ei_Port xs = [17001]"
    using expand_one_ports [OF example_ports(1), of 1 "''t1.example.com''" "''8.8.8.8:53''" 1 0] by (auto simp: r replica_ports_def)
  moreover obtain ys where ys: "expand_one (Suc 0) (example_instance ''t2.example.com'' ''1.1.1.1:53''
      (json_quoted (range_text 17002 17005)) 4) = Inr ys" "map ei_Port ys = [17002, 17003, 17004, 17005]"
    using expand_one_ports [OF example_ports(3), of 4 "''t2.example.com''" "''1.1.1.1:53''" 4 "Suc 0"] by (auto simp: r four replica_ports_def)
  moreover obtain zs where "expand_one (Suc (Suc 0))
      (example_instance ''t3.example.com'' ''9.9.9.9:53'' ''17006'' 1) = Inr zs" "map ei_Port zs = [17006]"
    using expand_one_ports [OF example_ports(2), of 1 "''t3.example.com''" "''9.9.9.9:53''" 1 "Suc (Suc 0)"] by (auto simp: r replica_ports_def)
  ultimately show ?thesis
    by (simp add: ExpandInstances_def example_config_def)
qed

lemma example_valid: "config_ok example_config"
proof -
  obtain xs where "ExpandInstances example_config = Inr xs"
    using example_expands by blast
  then show ?thesis
    by (auto simp: config_ok_def example_config_def strategies_def instance_ok_def example_instance_def)
qed

subsection \<open>Properties\<close>

text \<open>
  C34. Validation is sound and stable: a configuration it returns has a listener, instances, a
  known strategy with the fields that strategy needs, positive sizes, complete instance entries
  and an expansion without conflicts, and validating it again (as a reload of the saved file does)
  changes nothing.
\<close>

theorem Validate_sound:
  assumes "Validate c = Inr c'"
  shows "config_ok c' \<and> Validate c' = Inr c'"
  using Validate_Inr [OF assms] Validate_ok by blast

theorem Validate_sound_witness:
  "config_ok example_config \<and> Validate example_config = Inr example_config"
  using Validate_sound [OF Validate_ok [OF example_valid]] .

text \<open>
  C35. Expansion: the instances of entry \<open>i\<close> are its replicas numbered from 0, in the order of the
  entries, and no two instances of the whole configuration share a local port.
\<close>

theorem ExpandInstances_layout:
  assumes "ExpandInstances c = Inr xs"
  shows "distinct (map ei_Port xs)
    \<and> map (\<lambda>e. (ei_OriginalIndex e, ei_ReplicaIndex e)) xs =
        concat (map (\<lambda>(i, inst). map (Pair i) [0..<nat (eff_replicas inst)]) (enumerate 0 (Instances c)))"
proof -
  have "expand_from 0 (Instances c) = Inr xs" "duplicate_port [] (map ei_Port xs) = None"
    using assms by (auto simp: ExpandInstances_def split: sum.splits option.splits)
  then show ?thesis
    using expand_from_indices by (simp add: duplicate_port_None)
qed

theorem ExpandInstances_layout_witness:
  "\<exists>xs. ExpandInstances example_config = Inr xs \<and> distinct (map ei_Port xs) \<and> length xs = 6"
proof -
  obtain xs where xs: "ExpandInstances example_config = Inr xs"
      "map ei_Port xs = [17001, 17002, 17003, 17004, 17005, 17006]"
    using example_expands by (elim exE conjE)
  then have "length (map ei_Port xs) = 6" by (simp only: xs(2)) simp
  then have "length xs = 6" by simp
  with xs(1) ExpandInstances_layout [OF xs(1), THEN conjunct1] show ?thesis
    by (intro exI [of _ xs] conjI)
qed

text \<open>
  A port range \<^verbatim>\<open>"a-b"\<close> with \<^verbatim>\<open>1 <= a <= b <= 65535\<close> yields exactly the ports from \<open>a\<close> to
  \<open>b\<close>, and every list of more than one port comes from such a range.
\<close>

theorem ParsePorts_ranges:
  shows "0 < a \<Longrightarrow> a \<le> b \<Longrightarrow> b \<le> 65535 \<Longrightarrow>
      ic_Port ic = Some (json_quoted (range_text a b)) \<Longrightarrow>
      ParsePorts ic = Inr [a..b]
      \<and> (\<forall>ps. ParsePorts ic' = Inr ps \<longrightarrow> length ps \<noteq> 1 \<longrightarrow>
            (\<exists>lo hi. ps = [lo..hi] \<and> 0 < lo \<and> lo < hi \<and> hi \<le> 65535))"
proof (intro conjI allI impI)
  assume "0 < a" "a \<le> b" "b \<le> 65535"
    "ic_Port ic = Some (json_quoted (range_text a b))"
  then show "ParsePorts ic = Inr [a..b]" by (rule ParsePorts_range)
next
  fix ps assume "ParsePorts ic' = Inr ps" "length ps \<noteq> 1"
  then obtain s where "parsePortRange s = Inr ps"
    by (auto simp: ParsePorts_def Let_def split: option.splits)
  with \<open>length ps \<noteq> 1\<close> obtain lo hi where "ps = [lo..hi]" "0 < lo" "lo \<le> hi" "hi \<le> 65535"
    by (auto simp: parsePortRange_def Let_def split: option.splits list.splits if_splits)
  with \<open>length ps \<noteq> 1\<close> show "\<exists>lo hi. ps = [lo..hi] \<and> 0 < lo \<and> lo < hi \<and> hi \<le> 65535"
    by (intro exI [of _ lo] exI [of _ hi]) auto
qed

theorem ParsePorts_ranges_witness:
  "ParsePorts (example_instance [] [] (json_quoted (range_text 5 7)) 1) = Inr [5..7]"
  using ParsePorts_ranges [of 5 7
      "example_instance [] [] (json_quoted (range_text 5 7)) 1"]
  by (simp add: example_instance_def)

text \<open>
  A single port is not range-checked: for every 64-bit integer \<open>p > 0\<close>, the example
  configuration with that port for its only instance passes validation, and its instance is to
  listen on \<open>p\<close>, also beyond 65535.
\<close>

theorem single_port_unchecked:
  assumes "0 < p" and "p < 2 ^ 63"
  shows "\<exists>c' xs. Validate (example_config\<lparr>Instances := [example_instance ''t.example.com'' ''8.8.8.8'' (Itoa p) 1]\<rparr>)
      = Inr c' \<and> ExpandInstances c' = Inr xs \<and> map ei_Port xs = [p]"
proof -
  let ?c = "example_config\<lparr>Instances := [example_instance ''t.example.com'' ''8.8.8.8'' (Itoa p) 1]\<rparr>"
  let ?i = "example_instance ''t.example.com'' ''8.8.8.8'' (Itoa p) 1"
  have "ParsePorts ?i = Inr [p]"
    using assms Itoa_digits [of p] Atoi_Itoa [of p]
    by (intro ParsePorts_number) (auto simp: example_instance_def in_i64_def)
  then have "\<exists>xs. expand_one 0 ?i = Inr xs \<and> map ei_Port xs = take (nat 1) (replica_ports [p] 1)"
    by (rule expand_one_ports) (simp_all add: replica_ports_def eff_replicas_def example_instance_def)
  then obtain xs where "expand_one 0 ?i = Inr xs" "map ei_Port xs = [p]"
    by (auto simp: replica_ports_def)
  then have xs: "ExpandInstances ?c = Inr xs" "map ei_Port xs = [p]"
    by (simp_all add: ExpandInstances_def)
  then have "config_ok ?c"
    by (auto simp: config_ok_def example_config_def strategies_def instance_ok_def example_instance_def)
  with xs Validate_ok show ?thesis by (intro exI conjI)
qed

theorem single_port_unchecked_witness:
  "\<exists>c' xs. Validate (example_config\<lparr>Instances :=
      [example_instance ''t.example.com'' ''8.8.8.8'' (Itoa 70000) 1]\<rparr>) = Inr c'
    \<and> ExpandInstances c' = Inr xs \<and> map ei_Port xs = [70000]"
  using single_port_unchecked [of 70000] by simp

text \<open>
  Within the range the multiplications do not overflow, a user's limits are the documented
  ones: kilobits and megabits of 1000 and 1000000 bits, megabytes and gigabytes of 2^20 and 2^30.
\<close>

theorem user_limits_exact:
  assumes "0 \<le> uc_BandwidthLimit u" "uc_BandwidthLimit u < 2 ^ 43"
    and "0 \<le> uc_DataLimit u" "uc_DataLimit u < 2 ^ 33"
  shows "BandwidthBytesPerSec u =
      (if uc_BandwidthUnit u = ''mbit'' then uc_BandwidthLimit u * 1000000 div 8
       else uc_BandwidthLimit u * 1000 div 8)
    \<and> DataLimitBytes u = uc_DataLimit u * (if uc_DataUnit u = ''gb'' then 2 ^ 30 else 2 ^ 20)"
  using assms
  by (simp add: BandwidthBytesPerSec_def DataLimitBytes_def i64_id sdiv_nonneg)

theorem user_limits_exact_witness:
  "DataLimitBytes \<lparr>uc_Username = [], uc_Password = [], uc_BandwidthLimit = 500, uc_BandwidthUnit = ''kbit'',
      uc_DataLimit = 10, uc_DataUnit = ''gb'', uc_IPLimit = 2\<rparr> = 10737418240"
  using user_limits_exact [of "\<lparr>uc_Username = [], uc_Password = [], uc_BandwidthLimit = 500,
      uc_BandwidthUnit = ''kbit'', uc_DataLimit = 10, uc_DataUnit = ''gb'', uc_IPLimit = 2\<rparr>"]
  by simp

end
