(* ===== verification/Durations.thy ===== *)
theory Durations
  imports Configuration
begin

text \<open>
  \<^verbatim>\<open>time.ParseDuration\<close> of the standard library, as far as the health-check settings of
  \<^verbatim>\<open>internal/config/config.go\<close> use it, and the two accessors.  A decimal fraction is converted with
  floating-point arithmetic; that product is the argument \<open>frac\<close>, of the digits after the point and the unit.
\<close>

subsection \<open>Parsing a duration\<close>

definition unitMap :: "(string \<times> int) list" where
  "unitMap =
     [(''ns'', 1), (''us'', 1000), ([CHR 0xC2, CHR 0xB5, CHR ''s''], 1000), ([CHR 0xCE, CHR 0xBC, CHR ''s''], 1000),
      (''ms'', 1000000), (''s'', 1000000000), (''m'', 60 * 1000000000), (''h'', 60 * (60 * 1000000000))]"

definition number_char :: "char \<Rightarrow> bool" where
  "number_char c \<longleftrightarrow> c = CHR ''.'' \<or> is_digit c"

text \<open>
  The loop over the parts \<open><number><unit>\<close>; \<open>d\<close> is the 64-bit accumulator.  \<open>None\<close> is an error.
\<close>

function duration_parts :: "(string \<Rightarrow> int \<Rightarrow> int) \<Rightarrow> int \<Rightarrow> string \<Rightarrow> int option" where
  "duration_parts frac d s =
     (if s = [] then Some d
      else if \<not> number_char (hd s) then None
      else
        let pre = takeWhile is_digit s; s1 = dropWhile is_digit s;
            dot = (s1 \<noteq> [] \<and> hd s1 = CHR ''.'');
            post = (if dot then takeWhile is_digit (tl s1) else []);
            s2 = (if dot then dropWhile is_digit (tl s1) else s1);
            u = takeWhile (\<lambda>c. \<not> number_char c) s2; s3 = dropWhile (\<lambda>c. \<not> number_char c) s2
        in if digits_val pre > 2 ^ 63 \<or> (pre = [] \<and> post = []) \<or> u = [] then None
           else case map_of unitMap u of
                  None \<Rightarrow> None
                | Some unit \<Rightarrow>
                    let v = digits_val pre * unit; f = (if digits_val post > 0 then frac post unit else 0);
                        d' = (d + (v + f)) mod 2 ^ 64
                    in if v > 2 ^ 63 \<or> v + f > 2 ^ 63 \<or> d' > 2 ^ 63 then None
                       else duration_parts frac d' s3)"
  by pat_completeness auto
termination
proof (relation "measure (\<lambda>(frac, d, s). length s)")
  fix frac :: "string \<Rightarrow> int \<Rightarrow> int" and d :: int and s pre s1 post s2 u s3 :: string and dot
  assume s: "s \<noteq> []" "\<not> \<not> number_char (hd s)" "pre = takeWhile is_digit s" "s1 = dropWhile is_digit s"
    "dot = (s1 \<noteq> [] \<and> hd s1 = CHR ''.'')" "post = (if dot then takeWhile is_digit (tl s1) else [])"
    "s2 = (if dot then dropWhile is_digit (tl s1) else s1)" "u = takeWhile (\<lambda>c. \<not> number_char c) s2"
    "s3 = dropWhile (\<lambda>c. \<not> number_char c) s2" "\<not> (digits_val pre > 2 ^ 63 \<or> (pre = [] \<and> post = []) \<or> u = [])"
  have "length s2 \<le> length s"
    using s(4,7) length_dropWhile_le [of is_digit s] length_dropWhile_le [of is_digit "tl s1"] by (auto split: if_splits)
  moreover have "length s2 = length u + length s3" using s(8,9) by (metis length_append takeWhile_dropWhile_id)
  ultimately have "length s3 < length s" using s(10) by (cases u) auto
  then show "((frac, d', s3), (frac, d, s)) \<in> measure (\<lambda>(frac, d, s). length s)" for d' by simp
qed simp

declare duration_parts.simps [simp del]

definition ParseDuration :: "(string \<Rightarrow> int \<Rightarrow> int) \<Rightarrow> string \<Rightarrow> duration option" where
  "ParseDuration frac s =
     (let (neg, r) =
        (case s of
           [] \<Rightarrow> (False, [])
         | c # r \<Rightarrow> if c = CHR ''-'' then (True, r) else if c = CHR ''+'' then (False, r) else (False, s))
      in if r = ''0'' then Some 0
         else if r = [] then None
         else case duration_parts frac 0 r of
                None \<Rightarrow> None
              | Some d \<Rightarrow> if neg then Some (i64 (- d)) else if d > 2 ^ 63 - 1 then None else Some d)"

subsection \<open>The health-check settings\<close>

definition IntervalDuration :: "(string \<Rightarrow> int \<Rightarrow> int) \<Rightarrow> HealthCheckConfig \<Rightarrow> duration" where
  "IntervalDuration frac c =
     (case ParseDuration frac (hc_Interval c) of None \<Rightarrow> 10 * second | Some d \<Rightarrow> d)"

definition TimeoutDuration :: "(string \<Rightarrow> int \<Rightarrow> int) \<Rightarrow> HealthCheckConfig \<Rightarrow> duration" where
  "TimeoutDuration frac c =
     (case ParseDuration frac (hc_Timeout c) of None \<Rightarrow> 5 * second | Some d \<Rightarrow> d)"

lemmas duration_eval =
  ParseDuration_def duration_parts.simps unitMap_def number_char_def is_digit_def digits_val_def digit_val_def
  second_def i64_def Let_def

lemma durations_simp:
  "ParseDuration frac ''10s'' = Some (10 * second)" "ParseDuration frac ''5s'' = Some (5 * second)"
  "ParseDuration frac ''0s'' = Some 0" "ParseDuration frac ''-1m30s'' = Some (- 90 * second)"
  "ParseDuration frac ''10'' = None"
  by (simp_all add: duration_eval)

end
