(* ===== verification/Engine.thy ===== *)
theory Engine
  imports Configuration
begin

text \<open>
  \<^verbatim>\<open>internal/engine\<close>: an instance (\<^verbatim>\<open>instance.go\<close>), the manager that owns the instances and the
  supervisor goroutine of each (\<^verbatim>\<open>manager.go\<close>).  The operating system's process table is part of
  the state: \<^verbatim>\<open>exec.Cmd\<close> is the process id, a process that has exited is no longer in \<open>running\<close>.
  Whether a process can be started is an argument, \<open>start_outcome\<close>.  The buffer pool of an instance
  hands out buffers of its \<open>bufferSize\<close> and holds no other state.
\<close>

subsection \<open>Instances\<close>

datatype InstanceState = StateStarting | StateHealthy | StateUnhealthy | StateDead

fun InstanceState_String :: "InstanceState \<Rightarrow> string" where
  "InstanceState_String StateStarting = ''starting''"
| "InstanceState_String StateHealthy = ''healthy''"
| "InstanceState_String StateUnhealthy = ''unhealthy''"
| "InstanceState_String StateDead = ''dead''"

text \<open>
  \<open>ConnCtx\<close> numbers the contexts an instance has had; \<open>connCancelled\<close> lists the cancelled ones.
\<close>

record Instance =
  inst_Config :: ExpandedInstance
  inst_Binary :: string
  inst_ConnCtx :: nat
  inst_connCancelled :: "nat list"
  inst_state :: InstanceState
  inst_cmd :: "nat option"
  inst_activeConns :: int
  inst_lastPingMs :: int
  inst_txBytes :: int
  inst_rxBytes :: int
  inst_stopped :: bool
  inst_id :: nat
  inst_bufferSize :: int

definition NewInstance :: "nat \<Rightarrow> ExpandedInstance \<Rightarrow> string \<Rightarrow> int \<Rightarrow> Instance" where
  "NewInstance i cfg bin bsize =
     \<lparr>inst_Config = cfg, inst_Binary = bin, inst_ConnCtx = 0, inst_connCancelled = [],
      inst_state = StateDead, inst_cmd = None, inst_activeConns = 0, inst_lastPingMs = 0,
      inst_txBytes = 0, inst_rxBytes = 0, inst_stopped = False, inst_id = i, inst_bufferSize = bsize\<rparr>"

definition IncrConns :: "Instance \<Rightarrow> Instance" where
  "IncrConns inst = inst\<lparr>inst_activeConns := i64 (inst_activeConns inst + 1)\<rparr>"

definition DecrConns :: "Instance \<Rightarrow> Instance" where
  "DecrConns inst = inst\<lparr>inst_activeConns := i64 (inst_activeConns inst - 1)\<rparr>"

definition SetLastPingMs :: "int \<Rightarrow> Instance \<Rightarrow> Instance" where
  "SetLastPingMs ms inst = inst\<lparr>inst_lastPingMs := ms\<rparr>"

definition AddTx :: "int \<Rightarrow> Instance \<Rightarrow> Instance" where
  "AddTx n inst = inst\<lparr>inst_txBytes := i64 (inst_txBytes inst + n)\<rparr>"

definition AddRx :: "int \<Rightarrow> Instance \<Rightarrow> Instance" where
  "AddRx n inst = inst\<lparr>inst_rxBytes := i64 (inst_rxBytes inst + n)\<rparr>"

definition SetState :: "InstanceState \<Rightarrow> Instance \<Rightarrow> Instance" where
  "SetState st inst = inst\<lparr>inst_state := st\<rparr>"

definition IsHealthy :: "Instance \<Rightarrow> bool" where
  "IsHealthy inst \<longleftrightarrow> inst_state inst = StateHealthy"

definition Addr :: "Instance \<Rightarrow> string" where
  "Addr inst = ''127.0.0.1:'' @ Itoa (ei_Port (inst_Config inst))"

subsection \<open>Processes\<close>

record OS =
  running :: "nat list"
  next_pid :: nat

datatype start_outcome = Started | NoStdoutPipe | NoStderrPipe | NoProcess

definition start_args :: "Instance \<Rightarrow> string list" where
  "start_args inst =
     (let cfg = inst_Config inst
      in [''--tcp-listen-port'', Itoa (ei_Port cfg), ''--tcp-listen-host'', ''127.0.0.1'',
          ''--domain'', ei_Domain cfg]
         @ (if ei_Authoritative cfg then [''--authoritative'', ei_Resolver cfg]
            else [''--resolver'', ei_Resolver cfg])
         @ (if ei_Cert cfg \<noteq> [] then [''--cert'', ei_Cert cfg] else []))"

text \<open>
  \<^verbatim>\<open>Start\<close> gives the instance a fresh context before it tries; on failure the command and the
  state stay what they were.
\<close>

definition Instance_Start ::
  "start_outcome \<Rightarrow> OS \<Rightarrow> Instance \<Rightarrow> start_outcome \<times> OS \<times> Instance" where
  "Instance_Start outcome os inst =
     (let fresh = inst\<lparr>inst_ConnCtx := Suc (inst_ConnCtx inst)\<rparr>
      in if outcome = Started
         then (Started,
               os\<lparr>running := next_pid os # running os, next_pid := Suc (next_pid os)\<rparr>,
               fresh\<lparr>inst_cmd := Some (next_pid os), inst_state := StateStarting\<rparr>)
         else (outcome, os, fresh))"

definition kill :: "nat \<Rightarrow> OS \<Rightarrow> OS" where
  "kill pid os = os\<lparr>running := filter (\<lambda>p. p \<noteq> pid) (running os)\<rparr>"

definition Instance_Stop :: "OS \<Rightarrow> Instance \<Rightarrow> OS \<times> Instance" where
  "Instance_Stop os inst =
     (let os' = (case inst_cmd inst of None \<Rightarrow> os | Some pid \<Rightarrow> kill pid os)
      in (os', inst\<lparr>inst_connCancelled := inst_ConnCtx inst # inst_connCancelled inst,
                    inst_stopped := True, inst_state := StateDead, inst_cmd := None\<rparr>))"

subsection \<open>Status\<close>

record StatusInfo =
  si_ID :: nat
  si_Domain :: string
  si_Resolver :: string
  si_Port :: int
  si_Mode :: string
  si_State :: string
  si_ActiveConns :: int
  si_LastPingMs :: int
  si_TxBytes :: int
  si_RxBytes :: int
  si_OriginalIndex :: nat
  si_ReplicaIndex :: nat

definition Instance_StatusInfo :: "Instance \<Rightarrow> StatusInfo" where
  "Instance_StatusInfo inst =
     \<lparr>si_ID = inst_id inst, si_Domain = ei_Domain (inst_Config inst),
      si_Resolver = ei_Resolver (inst_Config inst), si_Port = ei_Port (inst_Config inst),
      si_Mode = ei_Mode (inst_Config inst), si_State = InstanceState_String (inst_state inst),
      si_ActiveConns = inst_activeConns inst, si_LastPingMs = inst_lastPingMs inst,
      si_TxBytes = inst_txBytes inst, si_RxBytes = inst_rxBytes inst,
      si_OriginalIndex = ei_OriginalIndex (inst_Config inst),
      si_ReplicaIndex = ei_ReplicaIndex (inst_Config inst)\<rparr>"

subsection \<open>The manager\<close>

record Manager =
  mgr_instances :: "Instance list"
  mgr_binary :: string
  mgr_bufferSize :: int
  mgr_ctxDone :: bool

definition new_instances :: "string \<Rightarrow> int \<Rightarrow> ExpandedInstance list \<Rightarrow> Instance list" where
  "new_instances bin bsize expanded =
     map (\<lambda>(i, ei). NewInstance i ei bin bsize) (enumerate 0 expanded)"

definition NewManager :: "Config \<Rightarrow> expand_error + Manager" where
  "NewManager cfg =
     (case ExpandInstances cfg of
        Inl e \<Rightarrow> Inl e
      | Inr expanded \<Rightarrow>
          let bufSize = (if socks_BufferSize (Socks cfg) \<le> 0 then 65536 else socks_BufferSize (Socks cfg))
          in Inr \<lparr>mgr_instances = new_instances (SlipstreamBinary cfg) bufSize expanded,
                  mgr_binary = SlipstreamBinary cfg, mgr_bufferSize = bufSize, mgr_ctxDone = False\<rparr>)"

definition SetBinary :: "string \<Rightarrow> Manager \<Rightarrow> Manager" where
  "SetBinary path m =
     m\<lparr>mgr_binary := path, mgr_instances := map (\<lambda>i. i\<lparr>inst_Binary := path\<rparr>) (mgr_instances m)\<rparr>"

definition HealthyInstances :: "Manager \<Rightarrow> Instance list" where
  "HealthyInstances m = filter IsHealthy (mgr_instances m)"

definition AllInstances :: "Manager \<Rightarrow> Instance list" where
  "AllInstances m = mgr_instances m"

definition StatusAll :: "Manager \<Rightarrow> StatusInfo list" where
  "StatusAll m = map Instance_StatusInfo (mgr_instances m)"

text \<open>The first instance with the given id is stopped; its supervisor will restart it.\<close>

fun restart_in :: "int \<Rightarrow> OS \<Rightarrow> Instance list \<Rightarrow> (OS \<times> Instance list) option" where
  "restart_in i os [] = None"
| "restart_in i os (inst # insts) =
     (if int (inst_id inst) = i
      then (let (os', inst') = Instance_Stop os inst in Some (os', inst' # insts))
      else map_option (\<lambda>(os', insts'). (os', inst # insts')) (restart_in i os insts))"

definition RestartInstance :: "int \<Rightarrow> OS \<Rightarrow> Manager \<Rightarrow> (OS \<times> Manager) option" where
  "RestartInstance i os m =
     map_option (\<lambda>(os', insts). (os', m\<lparr>mgr_instances := insts\<rparr>)) (restart_in i os (mgr_instances m))"

text \<open>
  The loop that starts the instances from index \<open>k\<close> on.  \<^verbatim>\<open>StartAll\<close> gives up at the first failure,
  \<^verbatim>\<open>Reload\<close> goes on; both return the indices for which a supervisor was spawned.  \<open>out k\<close> is the
  outcome of starting instance \<open>k\<close>.
\<close>

fun start_from ::
  "bool \<Rightarrow> (nat \<Rightarrow> start_outcome) \<Rightarrow> nat \<Rightarrow> OS \<Rightarrow> Instance list
     \<Rightarrow> start_outcome option \<times> OS \<times> Instance list \<times> nat list" where
  "start_from keep_going out k os [] = (None, os, [], [])"
| "start_from keep_going out k os (inst # insts) =
     (case Instance_Start (out k) os inst of
        (res, os', inst') \<Rightarrow>
          if res \<noteq> Started \<and> \<not> keep_going then (Some res, os', inst' # insts, [])
          else (case start_from keep_going out (Suc k) os' insts of
                  (err, os'', insts', ks) \<Rightarrow>
                    (err, os'', inst' # insts', if res = Started then k # ks else ks)))"

definition StartAll ::
  "(nat \<Rightarrow> start_outcome) \<Rightarrow> OS \<Rightarrow> Manager \<Rightarrow> start_outcome option \<times> OS \<times> Manager \<times> nat list" where
  "StartAll out os m =
     (case start_from False out 0 os (mgr_instances m) of
        (err, os', insts, ks) \<Rightarrow> (err, os', m\<lparr>mgr_instances := insts\<rparr>, ks))"

text \<open>What \<^verbatim>\<open>Reload\<close> does once every old supervisor has exited.\<close>

definition reload_rebuild :: "Config \<Rightarrow> Manager \<Rightarrow> (expand_error option) \<times> Manager" where
  "reload_rebuild cfg m =
     (let bin = (if SlipstreamBinary cfg = [] then mgr_binary m else SlipstreamBinary cfg);
          m1 = m\<lparr>mgr_binary := bin\<rparr>
      in case ExpandInstances cfg of
           Inl e \<Rightarrow> (Some e, m1)
         | Inr expanded \<Rightarrow>
             (None, m1\<lparr>mgr_ctxDone := False,
                       mgr_instances := new_instances bin (mgr_bufferSize m) expanded\<rparr>))"

subsection \<open>Supervisors\<close>

text \<open>
  The program points of \<^verbatim>\<open>supervise\<close>: the two context checks, \<^verbatim>\<open>WaitForExit\<close> before it reads the
  command and once it waits for the process it read, the marking of the instance as dead, the back-off wait
  and the restart attempt.
\<close>

datatype sup_pc =
    SupCheck | SupEnter | SupWait nat | SupExited | SupMark | SupBackoff duration | SupStart duration
  | SupDone

definition maxBackoff :: duration where
  "maxBackoff = 30 * second"

definition next_backoff :: "duration \<Rightarrow> duration" where
  "next_backoff b = (if i64 (b * 2) > maxBackoff then maxBackoff else i64 (b * 2))"

datatype ctl_goal = ForShutdown | ForReload Config

datatype ctl = CtlIdle | CtlStop nat ctl_goal | CtlWait ctl_goal | CtlReturned

text \<open>
  The manager with its supervisors (an instance index and a program point each), the process table and
  the thread that is in \<^verbatim>\<open>Shutdown\<close> or \<^verbatim>\<open>Reload\<close>, if any.
\<close>

record system =
  sys_mgr :: Manager
  sys_os :: OS
  sys_sups :: "(nat \<times> sup_pc) list"
  sys_ctl :: ctl

text \<open>
  One step of the supervisor of an instance: the manager's context, the process table and the instance, with the
  next program point.  A \<^verbatim>\<open>select\<close> whose two cases are both ready may take either.
\<close>

inductive supervise ::
  "bool \<Rightarrow> OS \<times> Instance \<times> sup_pc \<Rightarrow> OS \<times> Instance \<times> sup_pc \<Rightarrow> bool" for ctxDone where
  check_done: "ctxDone \<Longrightarrow> supervise ctxDone (os, inst, SupCheck) (os, inst, SupDone)"
| check_go: "\<not> ctxDone \<Longrightarrow> supervise ctxDone (os, inst, SupCheck) (os, inst, SupEnter)"
| enter_nil: "inst_cmd inst = None \<Longrightarrow>
    supervise ctxDone (os, inst, SupEnter) (os, inst, SupExited)"
| enter_wait: "inst_cmd inst = Some pid \<Longrightarrow>
    supervise ctxDone (os, inst, SupEnter) (os, inst, SupWait pid)"
| exited: "pid \<notin> set (running os) \<Longrightarrow>
    supervise ctxDone (os, inst, SupWait pid) (os, SetState StateDead inst, SupExited)"
| exited_done: "ctxDone \<Longrightarrow> supervise ctxDone (os, inst, SupExited) (os, inst, SupDone)"
| exited_go: "\<not> ctxDone \<Longrightarrow> supervise ctxDone (os, inst, SupExited) (os, inst, SupMark)"
| mark: "supervise ctxDone (os, inst, SupMark) (os, SetState StateDead inst, SupBackoff second)"
| backoff_done: "ctxDone \<Longrightarrow> supervise ctxDone (os, inst, SupBackoff b) (os, inst, SupDone)"
| backoff_timer: "supervise ctxDone (os, inst, SupBackoff b) (os, inst, SupStart b)"
| restarted: "Instance_Start Started os inst = (res, os', inst') \<Longrightarrow>
    supervise ctxDone (os, inst, SupStart b) (os', inst', SupCheck)"
| restart_failed: "out \<noteq> Started \<Longrightarrow> Instance_Start out os inst = (res, os', inst') \<Longrightarrow>
    supervise ctxDone (os, inst, SupStart b) (os', inst', SupBackoff (next_backoff b))"

inductive_cases superviseE: "supervise d (os, inst, pc) (os', inst', pc')"

text \<open>The steps of the whole system.\<close>

definition put_inst :: "nat \<Rightarrow> Instance \<Rightarrow> system \<Rightarrow> system" where
  "put_inst i inst s =
     s\<lparr>sys_mgr := (sys_mgr s)\<lparr>mgr_instances := (mgr_instances (sys_mgr s))[i := inst]\<rparr>\<rparr>"

abbreviation insts :: "system \<Rightarrow> Instance list" where
  "insts s \<equiv> mgr_instances (sys_mgr s)"

inductive mgr_step :: "system \<Rightarrow> system \<Rightarrow> bool" where
  process_exits: "mgr_step s (s\<lparr>sys_os := kill pid (sys_os s)\<rparr>)"
| supervisor: "k < length (sys_sups s) \<Longrightarrow> sys_sups s ! k = (i, pc) \<Longrightarrow>
    supervise (mgr_ctxDone (sys_mgr s)) (sys_os s, insts s ! i, pc) (os', inst', pc') \<Longrightarrow>
    mgr_step s ((put_inst i inst' s)\<lparr>sys_os := os', sys_sups := (sys_sups s)[k := (i, pc')]\<rparr>)"
| set_state: "i < length (insts s) \<Longrightarrow> mgr_step s (put_inst i (SetState st (insts s ! i)) s)"
| restart: "RestartInstance n (sys_os s) (sys_mgr s) = Some (os', m') \<Longrightarrow>
    mgr_step s (s\<lparr>sys_mgr := m', sys_os := os'\<rparr>)"
| cancel: "sys_ctl s = CtlIdle \<Longrightarrow>
    mgr_step s (s\<lparr>sys_mgr := (sys_mgr s)\<lparr>mgr_ctxDone := True\<rparr>, sys_ctl := CtlStop 0 goal\<rparr>)"
| stop: "sys_ctl s = CtlStop i goal \<Longrightarrow> i < length (insts s) \<Longrightarrow>
    Instance_Stop (sys_os s) (insts s ! i) = (os', inst') \<Longrightarrow>
    mgr_step s ((put_inst i inst' s)\<lparr>sys_os := os', sys_ctl := CtlStop (Suc i) goal\<rparr>)"
| stopped_all: "sys_ctl s = CtlStop i goal \<Longrightarrow> length (insts s) \<le> i \<Longrightarrow>
    mgr_step s (s\<lparr>sys_ctl := CtlWait goal\<rparr>)"
| shutdown_returns: "sys_ctl s = CtlWait ForShutdown \<Longrightarrow> list_all (\<lambda>p. snd p = SupDone) (sys_sups s) \<Longrightarrow>
    mgr_step s (s\<lparr>sys_ctl := CtlReturned\<rparr>)"
| reload_fails: "sys_ctl s = CtlWait (ForReload cfg) \<Longrightarrow> list_all (\<lambda>p. snd p = SupDone) (sys_sups s) \<Longrightarrow>
    reload_rebuild cfg (sys_mgr s) = (Some e, m') \<Longrightarrow>
    mgr_step s (s\<lparr>sys_mgr := m', sys_ctl := CtlIdle\<rparr>)"
| reload_returns: "sys_ctl s = CtlWait (ForReload cfg) \<Longrightarrow> list_all (\<lambda>p. snd p = SupDone) (sys_sups s) \<Longrightarrow>
    reload_rebuild cfg (sys_mgr s) = (None, m') \<Longrightarrow>
    start_from True out 0 (sys_os s) (mgr_instances m') = (err, os', insts', ks) \<Longrightarrow>
    mgr_step s (s\<lparr>sys_mgr := m'\<lparr>mgr_instances := insts'\<rparr>, sys_os := os',
                  sys_sups := map (\<lambda>k. (k, SupCheck)) ks, sys_ctl := CtlIdle\<rparr>)"

definition mgr_init :: "system \<Rightarrow> bool" where
  "mgr_init s \<longleftrightarrow> (\<exists>cfg m out pid err ks.
     NewManager cfg = Inr m
     \<and> StartAll out \<lparr>running = [], next_pid = pid\<rparr> m = (err, sys_os s, sys_mgr s, ks)
     \<and> sys_sups s = map (\<lambda>k. (k, SupCheck)) ks \<and> sys_ctl s = CtlIdle)"

subsection \<open>At most one process per instance\<close>

definition dead_cmd :: "OS \<Rightarrow> Instance \<Rightarrow> bool" where
  "dead_cmd os inst \<longleftrightarrow> (case inst_cmd inst of None \<Rightarrow> True | Some p \<Rightarrow> p \<notin> set (running os))"

definition old_cmd :: "OS \<Rightarrow> Instance \<Rightarrow> bool" where
  "old_cmd os inst \<longleftrightarrow> (case inst_cmd inst of None \<Rightarrow> True | Some p \<Rightarrow> p < next_pid os)"

definition sup_ok :: "OS \<Rightarrow> Instance \<Rightarrow> sup_pc \<Rightarrow> bool" where
  "sup_ok os inst pc \<longleftrightarrow>
     (case pc of
        SupWait p \<Rightarrow> inst_cmd inst = Some p \<or> dead_cmd os inst
      | SupExited \<Rightarrow> dead_cmd os inst
      | SupMark \<Rightarrow> dead_cmd os inst
      | SupBackoff b \<Rightarrow> dead_cmd os inst \<and> second \<le> b \<and> b \<le> maxBackoff
      | SupStart b \<Rightarrow> dead_cmd os inst \<and> second \<le> b \<and> b \<le> maxBackoff
      | _ \<Rightarrow> True)"

definition os_ok :: "OS \<Rightarrow> bool" where
  "os_ok os \<longleftrightarrow> (\<forall>p \<in> set (running os). p < next_pid os)"

definition mgr_inv :: "system \<Rightarrow> bool" where
  "mgr_inv s \<longleftrightarrow>
     os_ok (sys_os s) \<and> (\<forall>inst \<in> set (insts s). old_cmd (sys_os s) inst)
     \<and> distinct (map fst (sys_sups s))
     \<and> (\<forall>(i, pc) \<in> set (sys_sups s). i < length (insts s) \<and> sup_ok (sys_os s) (insts s ! i) pc)"

text \<open>The process table only loses old processes and gains new ones.\<close>

definition os_le :: "OS \<Rightarrow> OS \<Rightarrow> bool" where
  "os_le os os' \<longleftrightarrow> next_pid os \<le> next_pid os'
     \<and> (\<forall>p < next_pid os. p \<in> set (running os') \<longrightarrow> p \<in> set (running os))"

lemma os_le_refl [simp]: "os_le os os"
  by (simp add: os_le_def)

lemma os_le_kill [simp]: "os_le os (kill p os)" "os_ok os \<Longrightarrow> os_ok (kill p os)"
  by (auto simp: os_le_def kill_def os_ok_def)

lemma old_cmd_mono:
  "old_cmd os inst \<Longrightarrow> os_le os os' \<Longrightarrow> inst_cmd inst' = inst_cmd inst \<or> inst_cmd inst' = None \<Longrightarrow>
     old_cmd os' inst'"
  by (auto simp: old_cmd_def os_le_def split: option.splits)

lemma sup_ok_mono:
  assumes "sup_ok os inst pc" "old_cmd os inst" "os_le os os'"
    and "inst_cmd inst' = inst_cmd inst \<or> inst_cmd inst' = None"
  shows "sup_ok os' inst' pc"
proof -
  have "dead_cmd os inst \<Longrightarrow> dead_cmd os' inst'"
    using assms by (auto simp: dead_cmd_def old_cmd_def os_le_def split: option.splits)
  moreover have "inst_cmd inst' = None \<Longrightarrow> dead_cmd os' inst'"
    by (simp add: dead_cmd_def)
  ultimately show ?thesis
    using assms by (auto simp: sup_ok_def split: sup_pc.splits)
qed

lemma Instance_Start_os:
  assumes "Instance_Start out os inst = (res, os', inst')"
  shows "os_le os os'" "os_ok os \<Longrightarrow> os_ok os'" "old_cmd os inst \<Longrightarrow> old_cmd os' inst'"
    "out \<noteq> Started \<Longrightarrow> os' = os \<and> inst_cmd inst' = inst_cmd inst"
  using assms
  by (auto simp: Instance_Start_def Let_def os_le_def os_ok_def old_cmd_def less_Suc_eq
      split: if_splits option.splits)

lemma Instance_Stop_os:
  assumes "Instance_Stop os inst = (os', inst')"
  shows "os_le os os'" "os_ok os \<Longrightarrow> os_ok os'" "inst_cmd inst' = None" "inst_id inst' = inst_id inst"
    "set (running os') = set (running os) - set_option (inst_cmd inst)"
  using assms by (auto simp: Instance_Stop_def Let_def kill_def os_ok_def os_le_def split: option.splits)

lemma next_backoff_bounds:
  "second \<le> b \<Longrightarrow> b \<le> maxBackoff \<Longrightarrow> second \<le> next_backoff b \<and> next_backoff b \<le> maxBackoff"
  by (simp add: next_backoff_def maxBackoff_def second_def i64_id)

lemma SetState_cmd [simp]: "inst_cmd (SetState st inst) = inst_cmd inst" "inst_id (SetState st inst) = inst_id inst"
  by (simp_all add: SetState_def)

lemma supervise_ok:
  assumes "supervise d (os, inst, pc) (os', inst', pc')" "sup_ok os inst pc"
    and "old_cmd os inst" "os_ok os"
  shows "os_le os os' \<and> os_ok os' \<and> old_cmd os' inst' \<and> sup_ok os' inst' pc'"
  using assms(1)
proof (rule superviseE)
  fix b res assume "pc = SupStart b" "Instance_Start Started os inst = (res, os', inst')" "pc' = SupCheck"
  with assms Instance_Start_os show ?thesis by (simp add: sup_ok_def)
next
  fix b out res assume *: "pc = SupStart b" "Instance_Start out os inst = (res, os', inst')" "out \<noteq> Started"
    "pc' = SupBackoff (next_backoff b)"
  with Instance_Start_os [OF *(2)] have "os' = os" "inst_cmd inst' = inst_cmd inst" by simp_all
  with * assms show ?thesis
    by (simp add: sup_ok_def next_backoff_bounds dead_cmd_def old_cmd_def)
qed (use assms in \<open>auto simp: sup_ok_def dead_cmd_def old_cmd_def maxBackoff_def second_def split: option.splits\<close>)

text \<open>Every step but a restart and a reload leaves the commands of the instances alone or clears them.\<close>

lemma mgr_inv_weaken:
  assumes "mgr_inv s" "os_le (sys_os s) (sys_os t)" "os_ok (sys_os t)" "sys_sups t = sys_sups s"
    and len: "length (insts t) = length (insts s)"
    and cmd: "\<forall>i < length (insts s). inst_cmd (insts t ! i) = inst_cmd (insts s ! i) \<or> inst_cmd (insts t ! i) = None"
  shows "mgr_inv t"
proof -
  have old: "i < length (insts s) \<Longrightarrow> old_cmd (sys_os s) (insts s ! i)" for i
    using assms(1) by (simp add: mgr_inv_def)
  have "old_cmd (sys_os t) inst" if memt: "inst \<in> set (insts t)" for inst
  proof -
    obtain i where "i < length (insts s)" "inst = insts t ! i"
      using memt len by (auto simp: in_set_conv_nth)
    with cmd show ?thesis by (simp add: old_cmd_mono [OF old assms(2)])
  qed
  moreover have "i < length (insts t) \<and> sup_ok (sys_os t) (insts t ! i) pc"
    if "(i, pc) \<in> set (sys_sups t)" for i pc
  proof -
    have i: "i < length (insts s)" "sup_ok (sys_os s) (insts s ! i) pc"
      using that assms(1,4) by (auto simp: mgr_inv_def)
    with cmd len show ?thesis by (simp add: sup_ok_mono [OF i(2) old [OF i(1)] assms(2)])
  qed
  ultimately show ?thesis
    using assms(1,3,4) by (auto simp: mgr_inv_def)
qed

lemma insts_put_inst [simp]:
  "insts (put_inst i inst s) = (insts s)[i := inst]" "sys_os (put_inst i inst s) = sys_os s"
  "sys_sups (put_inst i inst s) = sys_sups s" "sys_ctl (put_inst i inst s) = sys_ctl s"
  "mgr_ctxDone (sys_mgr (put_inst i inst s)) = mgr_ctxDone (sys_mgr s)"
  by (simp_all add: put_inst_def)

lemma restart_in_cmds:
  "restart_in n os xs = Some (os', ys) \<Longrightarrow>
     length ys = length xs \<and> os_le os os' \<and> (os_ok os \<longrightarrow> os_ok os')
     \<and> (\<forall>i < length xs. inst_cmd (ys ! i) = inst_cmd (xs ! i) \<or> inst_cmd (ys ! i) = None)
     \<and> (\<forall>p \<in> set (running os'). p \<in> set (running os) \<and> (Some p \<in> inst_cmd ` set xs \<longrightarrow> Some p \<in> inst_cmd ` set ys))"
proof (induction xs arbitrary: ys)
  case (Cons x xs)
  show ?case
  proof (cases "int (inst_id x) = n")
    case True
    with Cons.prems obtain x' where "Instance_Stop os x = (os', x')" "ys = x' # xs"
      by (auto split: prod.splits)
    with Instance_Stop_os [of os x os' x'] show ?thesis
      by (auto simp: nth_Cons split: nat.splits)
  next
    case False
    with Cons.prems obtain ys' where "restart_in n os xs = Some (os', ys')" "ys = x # ys'"
      by (auto split: prod.splits)
    with Cons.IH [of ys'] show ?thesis by (auto simp: nth_Cons split: nat.splits)
  qed
qed simp

lemma mgr_inv_supervisor:
  assumes "mgr_inv s" "k < length (sys_sups s)" "sys_sups s ! k = (i, pc)"
    and "supervise d (sys_os s, insts s ! i, pc) (os', inst', pc')"
  shows "mgr_inv ((put_inst i inst' s)\<lparr>sys_os := os', sys_sups := (sys_sups s)[k := (i, pc')]\<rparr>)"
proof -
  have mem: "(i, pc) \<in> set (sys_sups s)" using assms(2,3) by (metis nth_mem)
  then have i: "i < length (insts s)" "sup_ok (sys_os s) (insts s ! i) pc"
    using assms(1) by (auto simp: mgr_inv_def)
  have old: "j < length (insts s) \<Longrightarrow> old_cmd (sys_os s) (insts s ! j)" for j
    using assms(1) by (simp add: mgr_inv_def)
  have st: "os_le (sys_os s) os'" "os_ok os'" "old_cmd os' inst'" "sup_ok os' inst' pc'"
    using supervise_ok [OF assms(4) i(2) old [OF i(1)]] assms(1) by (auto simp: mgr_inv_def)
  have fsts: "map fst ((sys_sups s)[k := (i, pc')]) = map fst (sys_sups s)"
    using assms(2,3) list_update_id [of "map fst (sys_sups s)" k] by (simp add: map_update)
  have dist: "distinct (map fst (sys_sups s))" using assms(1) by (simp add: mgr_inv_def)
  have "j < length (insts s) \<and> sup_ok os' ((insts s)[i := inst'] ! j) pcj"
    if memj: "(j, pcj) \<in> set ((sys_sups s)[k := (i, pc')])" for j pcj
  proof -
    obtain l where l: "l < length (sys_sups s)" "(sys_sups s)[k := (i, pc')] ! l = (j, pcj)"
      using memj unfolding in_set_conv_nth length_list_update by (elim exE conjE)
    show ?thesis
    proof (cases "l = k")
      case True with l i st show ?thesis by simp
    next
      case False
      with l have lj: "sys_sups s ! l = (j, pcj)" by simp
      have "map fst (sys_sups s) ! l \<noteq> map fst (sys_sups s) ! k"
        using dist assms(2) False l(1) by (simp add: nth_eq_iff_index_eq del: nth_map)
      with lj assms(2,3) l(1) have "j \<noteq> i" by simp
      moreover have "j < length (insts s)" "sup_ok (sys_os s) (insts s ! j) pcj"
        using assms(1) lj l(1) by (auto simp: mgr_inv_def dest!: nth_mem)
      ultimately show ?thesis by (simp add: sup_ok_mono [OF _ old st(1)])
    qed
  qed
  moreover have "old_cmd os' inst" if memi: "inst \<in> set ((insts s)[i := inst'])" for inst
  proof -
    obtain j where j: "j < length (insts s)" "inst = (insts s)[i := inst'] ! j"
      using memi by (auto simp: in_set_conv_nth)
    then show ?thesis
      by (cases "j = i") (simp_all add: st(3) old_cmd_mono [OF old st(1)])
  qed
  ultimately show ?thesis
    using st fsts dist unfolding mgr_inv_def by (auto simp del: map_update)
qed

lemma start_from_ok:
  assumes "start_from g out k os xs = (err, os', ys, ks)" "os_ok os" "\<forall>x \<in> set xs. old_cmd os x"
  shows "length ys = length xs \<and> os_ok os' \<and> os_le os os' \<and> (\<forall>y \<in> set ys. old_cmd os' y)
    \<and> distinct ks \<and> (\<forall>j \<in> set ks. k \<le> j \<and> j < k + length xs)"
  using assms
proof (induction xs arbitrary: k os err os' ys ks)
  case (Cons x xs)
  obtain res os1 x' where x: "Instance_Start (out k) os x = (res, os1, x')"
    by (metis prod_cases3)
  note so = Instance_Start_os [OF x]
  have old: "\<forall>y \<in> set xs. old_cmd os1 y" "old_cmd os1 x'" "os_ok os1"
    using Cons.prems so old_cmd_mono [OF _ so(1)] by auto
  show ?case
  proof (cases "res \<noteq> Started \<and> \<not> g")
    case True
    with Cons.prems x old so show ?thesis by auto
  next
    case False
    obtain ys' ks' where r: "start_from g out (Suc k) os1 xs = (err, os', ys', ks')"
        "ys = x' # ys'" "ks = (if res = Started then k # ks' else ks')"
      using Cons.prems(1) x False by (auto split: prod.splits)
    note ih = Cons.IH [OF r(1) old(3,1)]
    then have "os_le os os'" using so(1) by (auto simp: os_le_def)
    moreover have "old_cmd os' x'" using ih old(2) old_cmd_mono by blast
    ultimately show ?thesis using ih r by (auto simp: Suc_le_eq)
  qed
qed simp

lemma new_instances_cmd: "inst \<in> set (new_instances b n xs) \<Longrightarrow> inst_cmd inst = None"
  by (auto simp: new_instances_def NewInstance_def)

lemma mgr_inv_started:
  assumes "start_from g out 0 os xs = (err, os', ys, ks)" "os_ok os" "\<forall>x \<in> set xs. inst_cmd x = None"
    and "insts s = ys" "sys_os s = os'" "sys_sups s = map (\<lambda>k. (k, SupCheck)) ks"
  shows "mgr_inv s"
proof -
  have "\<forall>x \<in> set xs. old_cmd os x" using assms(3) by (simp add: old_cmd_def)
  from start_from_ok [OF assms(1,2) this] show ?thesis
    using assms(4-6) by (auto simp: mgr_inv_def sup_ok_def o_def)
qed

lemma mgr_inv_init: "mgr_init s \<Longrightarrow> mgr_inv s"
proof -
  assume "mgr_init s"
  then obtain cfg m out pid err ks where
    m: "NewManager cfg = Inr m" and
    st: "StartAll out \<lparr>running = [], next_pid = pid\<rparr> m = (err, sys_os s, sys_mgr s, ks)" and
    su: "sys_sups s = map (\<lambda>k. (k, SupCheck)) ks"
    unfolding mgr_init_def by (elim exE conjE)
  from m have "\<forall>x \<in> set (mgr_instances m). inst_cmd x = None"
    by (auto simp: NewManager_def Let_def new_instances_cmd split: sum.splits)
  moreover from st obtain ys where
    "start_from False out 0 \<lparr>running = [], next_pid = pid\<rparr> (mgr_instances m) = (err, sys_os s, ys, ks)"
    "sys_mgr s = m\<lparr>mgr_instances := ys\<rparr>"
    by (auto simp: StartAll_def split: prod.splits)
  ultimately show ?thesis using su by (intro mgr_inv_started) (auto simp: os_ok_def)
qed

lemma mgr_inv_step:
  assumes "mgr_inv s" "mgr_step s t"
  shows "mgr_inv t"
  using assms(2)
proof cases
  case (process_exits pid)
  with assms(1) show ?thesis
    by (intro mgr_inv_weaken [OF assms(1)]) (simp_all add: mgr_inv_def)
next
  case (supervisor k i pc os' inst' pc')
  with assms(1) show ?thesis by (simp add: mgr_inv_supervisor)
next
  case (set_state i st)
  with assms(1) show ?thesis
    by (intro mgr_inv_weaken [OF assms(1)]) (simp_all add: mgr_inv_def nth_list_update)
next
  case (restart n os' m')
  then obtain ys where "restart_in n (sys_os s) (insts s) = Some (os', ys)" "m' = (sys_mgr s)\<lparr>mgr_instances := ys\<rparr>"
    by (auto simp: RestartInstance_def)
  with restart restart_in_cmds [of n "sys_os s" "insts s" os' ys] assms(1) show ?thesis
    by (intro mgr_inv_weaken [OF assms(1)]) (simp_all add: mgr_inv_def)
next
  case (stop i goal os' inst')
  with Instance_Stop_os [OF stop(4)] assms(1) show ?thesis
    by (intro mgr_inv_weaken [OF assms(1)]) (simp_all add: mgr_inv_def nth_list_update)
next
  case (reload_fails cfg e m')
  with assms(1) show ?thesis
    by (intro mgr_inv_weaken [OF assms(1)])
      (auto simp: mgr_inv_def reload_rebuild_def Let_def split: sum.splits)
next
  case (reload_returns cfg m' out err os' insts' ks)
  then have "\<forall>x \<in> set (mgr_instances m'). inst_cmd x = None"
    by (auto simp: reload_rebuild_def Let_def new_instances_cmd split: sum.splits)
  with reload_returns assms(1) show ?thesis
    by (intro mgr_inv_started [OF reload_returns(5)]) (simp_all add: mgr_inv_def)
qed (use assms(1) in \<open>simp_all add: mgr_inv_def\<close>)

interpretation engine: invariant_system mgr_init mgr_step mgr_inv
  using mgr_inv_init mgr_inv_step by unfold_locales

subsection \<open>Shutdown\<close>

text \<open>A supervisor that has decided to restart its instance, and the processes the manager knows.\<close>

definition restarting :: "sup_pc \<Rightarrow> bool" where
  "restarting pc \<longleftrightarrow> (case pc of SupMark \<Rightarrow> True | SupBackoff _ \<Rightarrow> True | SupStart _ \<Rightarrow> True | _ \<Rightarrow> False)"

definition tracked :: "system \<Rightarrow> bool" where
  "tracked s \<longleftrightarrow> (\<forall>p \<in> set (running (sys_os s)). Some p \<in> inst_cmd ` set (insts s))"

definition calm :: "system \<Rightarrow> bool" where
  "calm s \<longleftrightarrow> mgr_ctxDone (sys_mgr s) \<and> tracked s
     \<and> (\<forall>(i, pc) \<in> set (sys_sups s). i < length (insts s) \<and> \<not> restarting pc)"

definition shutting :: "system \<Rightarrow> bool" where
  "shutting s \<longleftrightarrow> calm s \<and>
     (case sys_ctl s of
        CtlStop i ForShutdown \<Rightarrow> (\<forall>j < min i (length (insts s)). inst_cmd (insts s ! j) = None)
      | CtlWait ForShutdown \<Rightarrow> (\<forall>j < length (insts s). inst_cmd (insts s ! j) = None)
      | CtlReturned \<Rightarrow> (\<forall>j < length (insts s). inst_cmd (insts s ! j) = None)
      | _ \<Rightarrow> False)"

lemma supervise_calm:
  assumes "supervise True (os, inst, pc) (os', inst', pc')" "\<not> restarting pc"
  shows "os' = os \<and> inst_cmd inst' = inst_cmd inst \<and> \<not> restarting pc'"
  using assms by (auto elim!: superviseE simp: restarting_def)

text \<open>What the steps of a calm system do to the commands.\<close>

lemma shutting_same:
  assumes "shutting s" "length (insts t) = length (insts s)"
    and "\<forall>j < length (insts s). inst_cmd (insts t ! j) = inst_cmd (insts s ! j) \<or> inst_cmd (insts t ! j) = None"
    and "sys_ctl t = sys_ctl s" "calm t"
  shows "shutting t"
  using assms unfolding shutting_def
  by (auto split: ctl.splits ctl_goal.splits)

lemma image_cmd_update:
  "i < length xs \<Longrightarrow> inst_cmd x = inst_cmd (xs ! i) \<Longrightarrow> inst_cmd ` set (xs[i := x]) = inst_cmd ` set xs"
  by (metis list.set_map list_update_id map_update nth_map)

lemma shutting_step:
  assumes "shutting s" "mgr_step s t"
  shows "shutting t"
  using assms(2)
proof cases
  case (process_exits pid)
  with assms(1) show ?thesis
    by (intro shutting_same [OF assms(1)]) (auto simp: shutting_def calm_def tracked_def kill_def)
next
  case (supervisor k i pc os' inst' pc')
  have "(i, pc) \<in> set (sys_sups s)" using supervisor(2,3) by (metis nth_mem)
  then have i: "i < length (insts s)" "\<not> restarting pc" and d: "mgr_ctxDone (sys_mgr s)"
    using assms(1) by (auto simp: shutting_def calm_def)
  with supervise_calm [of "sys_os s" "insts s ! i" pc os' inst' pc'] supervisor
  have c: "os' = sys_os s" "inst_cmd inst' = inst_cmd (insts s ! i)" "\<not> restarting pc'" by auto
  have "calm t"
    using assms(1) c i supervisor(1) image_cmd_update [OF i(1) c(2)]
    by (auto simp: shutting_def calm_def tracked_def dest!: set_update_subset_insert [THEN subsetD])
  with supervisor(1) c i(1) show ?thesis
    by (intro shutting_same [OF assms(1)]) (auto simp: nth_list_update)
next
  case (set_state i st)
  with image_cmd_update [of i "insts s" "SetState st (insts s ! i)"] assms(1) show ?thesis
    by (intro shutting_same [OF assms(1)])
      (auto simp: shutting_def calm_def tracked_def nth_list_update)
next
  case (restart n os' m')
  then obtain ys where ys: "restart_in n (sys_os s) (insts s) = Some (os', ys)" "m' = (sys_mgr s)\<lparr>mgr_instances := ys\<rparr>"
    by (auto simp: RestartInstance_def)
  with restart restart_in_cmds [OF ys(1)] assms(1) show ?thesis
    by (intro shutting_same [OF assms(1)]) (auto simp: shutting_def calm_def tracked_def)
next
  case (stop i goal os' inst')
  note st = Instance_Stop_os [OF stop(4)]
  have "calm t"
  proof -
    have "Some p \<in> inst_cmd ` set ((insts s)[i := inst'])" if "p \<in> set (running os')" for p
    proof -
      from that st(5) have p: "p \<in> set (running (sys_os s))" "inst_cmd (insts s ! i) \<noteq> Some p" by auto
      moreover have "tracked s" using assms(1) by (simp add: shutting_def calm_def)
      ultimately have "Some p \<in> inst_cmd ` set (insts s)" by (simp add: tracked_def)
      then obtain j where j: "j < length (insts s)" "inst_cmd (insts s ! j) = Some p"
        by (auto simp: in_set_conv_nth)
      with p have "j \<noteq> i" by auto
      with j show ?thesis
        by (intro image_eqI [of _ _ "insts s ! j"]) (auto simp: in_set_conv_nth intro!: exI [of _ j])
    qed
    with stop(1) assms(1) show ?thesis by (auto simp: shutting_def calm_def tracked_def)
  qed
  with stop assms(1) st show ?thesis
    by (auto simp: shutting_def nth_list_update less_Suc_eq split: ctl_goal.splits)
qed (use assms(1) in \<open>auto simp: shutting_def calm_def tracked_def split: ctl_goal.splits\<close>)

lemma shutting_steps: "mgr_step\<^sup>*\<^sup>* s t \<Longrightarrow> shutting s \<Longrightarrow> shutting t"
  by (induction rule: rtranclp_induct) (auto intro: shutting_step)

subsection \<open>One instance, step by step\<close>

definition solo :: "Manager \<Rightarrow> bool \<Rightarrow> OS \<Rightarrow> Instance \<Rightarrow> sup_pc \<Rightarrow> ctl \<Rightarrow> system" where
  "solo m d os inst pc c =
     \<lparr>sys_mgr = m\<lparr>mgr_instances := [inst], mgr_ctxDone := d\<rparr>, sys_os = os, sys_sups = [(0, pc)], sys_ctl = c\<rparr>"

lemma solo_supervise:
  "supervise d (os, inst, pc) (os', inst', pc') \<Longrightarrow> mgr_step (solo m d os inst pc c) (solo m d os' inst' pc' c)"
  using mgr_step.supervisor [of 0 "solo m d os inst pc c" 0 pc os' inst' pc']
  by (cases m) (simp add: solo_def put_inst_def)

lemma solo_exit: "mgr_step (solo m d os inst pc c) (solo m d (kill p os) inst pc c)"
  using mgr_step.process_exits [of "solo m d os inst pc c" p] by (simp add: solo_def)

lemma solo_cancel:
  "mgr_step (solo m d os inst pc CtlIdle) (solo m True os inst pc (CtlStop 0 goal))"
  using mgr_step.cancel [of "solo m d os inst pc CtlIdle" goal] by (simp add: solo_def)

lemma solo_stop:
  assumes "Instance_Stop os inst = (os', inst')"
  shows "mgr_step (solo m d os inst pc (CtlStop 0 goal)) (solo m d os' inst' pc (CtlStop 1 goal))"
  using mgr_step.stop [of "solo m d os inst pc (CtlStop 0 goal)" 0 goal os' inst'] assms
  by (cases m) (simp add: solo_def put_inst_def)

lemma solo_wait: "mgr_step (solo m d os inst pc (CtlStop 1 goal)) (solo m d os inst pc (CtlWait goal))"
  using mgr_step.stopped_all [of "solo m d os inst pc (CtlStop 1 goal)" 1 goal] by (simp add: solo_def)

lemma solo_return:
  "mgr_step (solo m d os inst SupDone (CtlWait ForShutdown)) (solo m d os inst SupDone CtlReturned)"
  using mgr_step.shutdown_returns [of "solo m d os inst SupDone (CtlWait ForShutdown)"]
  by (simp add: solo_def)

text \<open>The process crashes and the supervisor's back-off timer fires.\<close>

lemma solo_crash:
  assumes "inst_cmd inst = Some p" "running os = [p]"
  shows "mgr_step\<^sup>*\<^sup>* (solo m False os inst SupCheck CtlIdle)
     (solo m False (kill p os) (SetState StateDead inst) (SupStart second) CtlIdle)"
proof -
  let ?s = "\<lambda>os inst pc. solo m False os inst pc CtlIdle"
  note [trans] = rtranclp.rtrancl_into_rtrancl
  have "mgr_step\<^sup>*\<^sup>* (?s os inst SupCheck) (?s os inst SupCheck)" by simp
  also have "mgr_step (?s os inst SupCheck) (?s os inst SupEnter)"
    by (intro solo_supervise supervise.check_go) simp
  also have "mgr_step (?s os inst SupEnter) (?s os inst (SupWait p))"
    using assms(1) by (intro solo_supervise supervise.enter_wait)
  also have "mgr_step (?s os inst (SupWait p)) (?s (kill p os) inst (SupWait p))"
    by (rule solo_exit)
  also have "mgr_step (?s (kill p os) inst (SupWait p)) (?s (kill p os) (SetState StateDead inst) SupExited)"
    by (intro solo_supervise supervise.exited) (simp add: kill_def)
  also have "mgr_step (?s (kill p os) (SetState StateDead inst) SupExited)
      (?s (kill p os) (SetState StateDead inst) SupMark)"
    by (intro solo_supervise supervise.exited_go) simp
  also have "mgr_step (?s (kill p os) (SetState StateDead inst) SupMark)
      (?s (kill p os) (SetState StateDead inst) (SupBackoff second))"
    using supervise.mark [of False "kill p os" "SetState StateDead inst"]
    by (intro solo_supervise) (simp add: SetState_def)
  also have "mgr_step (?s (kill p os) (SetState StateDead inst) (SupBackoff second))
      (?s (kill p os) (SetState StateDead inst) (SupStart second))"
    by (intro solo_supervise supervise.backoff_timer)
  finally show ?thesis by simp
qed

text \<open>A shutdown that begins while that timer has fired.\<close>

lemma solo_race:
  assumes "running os = []"
  shows "\<exists>t. mgr_step\<^sup>*\<^sup>* (solo m False os inst (SupStart b) CtlIdle) t
    \<and> sys_ctl t = CtlReturned \<and> running (sys_os t) = [next_pid os]"
proof -
  obtain os1 i1 where stop: "Instance_Stop os inst = (os1, i1)" by fastforce
  have os1: "running os1 = []" "next_pid os1 = next_pid os"
    using stop assms by (auto simp: Instance_Stop_def Let_def kill_def split: option.splits)
  obtain res os2 i2 where start: "Instance_Start Started os1 i1 = (res, os2, i2)"
    by (metis prod_cases3)
  have os2: "running os2 = [next_pid os]"
    using start os1 by (auto simp: Instance_Start_def Let_def)
  note [trans] = rtranclp.rtrancl_into_rtrancl
  have "mgr_step\<^sup>*\<^sup>* (solo m False os inst (SupStart b) CtlIdle) (solo m False os inst (SupStart b) CtlIdle)" by simp
  also have "mgr_step (solo m False os inst (SupStart b) CtlIdle) (solo m True os inst (SupStart b) (CtlStop 0 ForShutdown))"
    by (rule solo_cancel)
  also have "mgr_step (solo m True os inst (SupStart b) (CtlStop 0 ForShutdown))
      (solo m True os1 i1 (SupStart b) (CtlStop 1 ForShutdown))"
    by (rule solo_stop [OF stop])
  also have "mgr_step (solo m True os1 i1 (SupStart b) (CtlStop 1 ForShutdown))
      (solo m True os1 i1 (SupStart b) (CtlWait ForShutdown))"
    by (rule solo_wait)
  also have "mgr_step (solo m True os1 i1 (SupStart b) (CtlWait ForShutdown))
      (solo m True os2 i2 SupCheck (CtlWait ForShutdown))"
    by (intro solo_supervise supervise.restarted [OF start])
  also have "mgr_step (solo m True os2 i2 SupCheck (CtlWait ForShutdown))
      (solo m True os2 i2 SupDone (CtlWait ForShutdown))"
    by (intro solo_supervise supervise.check_done) simp
  also have "mgr_step (solo m True os2 i2 SupDone (CtlWait ForShutdown)) (solo m True os2 i2 SupDone CtlReturned)"
    by (rule solo_return)
  finally show ?thesis
    using os2 by (intro exI [of _ "solo m True os2 i2 SupDone CtlReturned"]) (simp add: solo_def)
qed

text \<open>A configuration with one instance, started.\<close>

definition solo_config :: Config where
  "solo_config = example_config\<lparr>Instances := [example_instance ''t1.example.com'' ''8.8.8.8:53'' ''17001'' 1]\<rparr>"

lemma solo_started:
  "\<exists>m inst. mgr_init (solo m False \<lparr>running = [7], next_pid = 8\<rparr> inst SupCheck CtlIdle)
     \<and> inst_cmd inst = Some 7"
proof -
  let ?i = "example_instance ''t1.example.com'' ''8.8.8.8:53'' ''17001'' 1"
  obtain xs where x: "expand_one 0 ?i = Inr xs" "map ei_Port xs = [17001]"
    using expand_one_ports [OF example_ports(1), of 1 "''t1.example.com''" "''8.8.8.8:53''" 1 0]
    by (auto simp: eff_replicas_def example_instance_def replica_ports_def)
  then obtain ei where e: "ExpandInstances solo_config = Inr [ei]"
    by (auto simp: ExpandInstances_def solo_config_def)
  then obtain m where m: "NewManager solo_config = Inr m" "mgr_instances m = [NewInstance 0 ei (mgr_binary m) (mgr_bufferSize m)]"
      "mgr_ctxDone m = False"
    by (auto simp: NewManager_def Let_def new_instances_def)
  let ?inst = "(NewInstance 0 ei (mgr_binary m) (mgr_bufferSize m))\<lparr>inst_ConnCtx := 1, inst_cmd := Some 7, inst_state := StateStarting\<rparr>"
  have "StartAll (\<lambda>_. Started) \<lparr>running = [], next_pid = 7\<rparr> m =
      (None, \<lparr>running = [7], next_pid = 8\<rparr>, m\<lparr>mgr_instances := [?inst]\<rparr>, [0])"
    using m(2) by (simp add: StartAll_def Instance_Start_def NewInstance_def)
  moreover have "m\<lparr>mgr_instances := [?inst]\<rparr> = m\<lparr>mgr_instances := [?inst], mgr_ctxDone := False\<rparr>"
    using m(3) by (cases m) simp
  ultimately show ?thesis
    using m(1) unfolding mgr_init_def solo_def
    by (intro exI [of _ m] exI [of _ ?inst] conjI exI [of _ solo_config] exI [of _ "\<lambda>_. Started"] exI [of _ 7]
      exI [of _ None] exI [of _ "[0]"]) simp_all
qed

subsection \<open>Properties\<close>

text \<open>
  C28. Restarts never overlap: whatever the order of crashes, health verdicts, manual restarts, shutdowns and reloads,
  when a supervisor is about to start its instance the previous process of that instance is
  gone, and the wait before the attempt was between one and thirty seconds.
\<close>

theorem restart_exclusive:
  assumes "mgr_init s" "mgr_step\<^sup>*\<^sup>* s t" "(i, SupStart b) \<in> set (sys_sups t)"
  shows "dead_cmd (sys_os t) (insts t ! i) \<and> second \<le> b \<and> b \<le> 30 * second"
  using engine.reachable_inv [OF assms(1,2)] assms(3)
  by (auto simp: mgr_inv_def sup_ok_def maxBackoff_def)

theorem restart_exclusive_witness:
  "\<exists>s t. mgr_init s \<and> mgr_step\<^sup>*\<^sup>* s t \<and> sys_sups t = [(0, SupStart second)]
     \<and> dead_cmd (sys_os t) (insts t ! 0)"
proof -
  obtain m inst where s: "mgr_init (solo m False \<lparr>running = [7], next_pid = 8\<rparr> inst SupCheck CtlIdle)"
      "inst_cmd inst = Some 7"
    using solo_started by blast
  let ?t = "solo m False (kill 7 \<lparr>running = [7], next_pid = 8\<rparr>) (SetState StateDead inst) (SupStart second) CtlIdle"
  have c: "mgr_step\<^sup>*\<^sup>* (solo m False \<lparr>running = [7], next_pid = 8\<rparr> inst SupCheck CtlIdle) ?t"
    by (rule solo_crash) (simp_all add: s(2))
  have "sys_sups ?t = [(0, SupStart second)]" by (simp add: solo_def)
  with s(1) c restart_exclusive [OF s(1) c, of 0 second] show ?thesis
    by (intro exI conjI) auto
qed

text \<open>
  C29. Shutdown: when it begins with no supervisor between a crash and the restart attempt, and every
  running process is the command of an instance, then no process is left when it returns.
\<close>

theorem shutdown_kills_all:
  assumes "mgr_init s0" "mgr_step\<^sup>*\<^sup>* s0 s" "tracked s" "mgr_ctxDone (sys_mgr s)" "sys_ctl s = CtlStop 0 ForShutdown"
    and "\<forall>(i, pc) \<in> set (sys_sups s). \<not> restarting pc"
    and "mgr_step\<^sup>*\<^sup>* s t" "sys_ctl t = CtlReturned"
  shows "running (sys_os t) = []"
proof -
  have "shutting s"
    using engine.reachable_inv [OF assms(1,2)] assms(3-6) by (auto simp: mgr_inv_def shutting_def calm_def)
  from shutting_steps [OF assms(7) this] assms(8)
  have "tracked t" "\<forall>inst \<in> set (insts t). inst_cmd inst = None"
    by (auto simp: shutting_def calm_def in_set_conv_nth)
  then show ?thesis by (cases "running (sys_os t)") (auto simp: tracked_def)
qed

theorem shutdown_kills_all_witness:
  "\<exists>s t. mgr_init s \<and> mgr_step\<^sup>*\<^sup>* s t \<and> running (sys_os s) \<noteq> [] \<and> sys_ctl t = CtlReturned \<and> running (sys_os t) = []"
proof -
  let ?os = "\<lparr>running = [7], next_pid = 8\<rparr>"
  obtain m inst where s: "mgr_init (solo m False ?os inst SupCheck CtlIdle)" "inst_cmd inst = Some 7"
    using solo_started by blast
  obtain os1 i1 where stop: "Instance_Stop ?os inst = (os1, i1)" by fastforce
  let ?s = "solo m True ?os inst SupCheck (CtlStop 0 ForShutdown)"
  let ?t = "solo m True os1 i1 SupDone CtlReturned"
  have c: "mgr_step\<^sup>*\<^sup>* (solo m False ?os inst SupCheck CtlIdle) ?s"
    using solo_cancel by (rule r_into_rtranclp)
  note [trans] = rtranclp.rtrancl_into_rtrancl
  have "mgr_step\<^sup>*\<^sup>* ?s ?s" by simp
  also have "mgr_step ?s (solo m True os1 i1 SupCheck (CtlStop 1 ForShutdown))"
    by (rule solo_stop [OF stop])
  also have "mgr_step (solo m True os1 i1 SupCheck (CtlStop 1 ForShutdown)) (solo m True os1 i1 SupCheck (CtlWait ForShutdown))"
    by (rule solo_wait)
  also have "mgr_step (solo m True os1 i1 SupCheck (CtlWait ForShutdown)) (solo m True os1 i1 SupDone (CtlWait ForShutdown))"
    by (intro solo_supervise supervise.check_done) simp
  also have "mgr_step (solo m True os1 i1 SupDone (CtlWait ForShutdown)) ?t"
    by (rule solo_return)
  finally have r: "mgr_step\<^sup>*\<^sup>* ?s ?t" .
  have "running (sys_os ?t) = []"
    using s(2) by (intro shutdown_kills_all [OF s(1) c _ _ _ _ r]) (simp_all add: solo_def tracked_def restarting_def)
  moreover have "mgr_step\<^sup>*\<^sup>* (solo m False ?os inst SupCheck CtlIdle) ?t"
    using c r by (rule rtranclp_trans)
  ultimately show ?thesis
    using s(1) by (intro exI conjI) (auto simp: solo_def)
qed

text \<open>
  The restriction is needed: when the back-off timer of a crashed instance fires before the
  context is cancelled, the supervisor starts the instance after \<^verbatim>\<open>Shutdown\<close> has stopped it, sees
  the cancelled context and exits; \<^verbatim>\<open>Shutdown\<close> returns and the new process keeps running.
\<close>

theorem shutdown_race_leaks_process:
  "\<exists>s t. mgr_init s \<and> mgr_step\<^sup>*\<^sup>* s t \<and> sys_ctl t = CtlReturned \<and> running (sys_os t) \<noteq> []"
proof -
  let ?os = "\<lparr>running = [7], next_pid = 8\<rparr>"
  obtain m inst where s: "mgr_init (solo m False ?os inst SupCheck CtlIdle)" "inst_cmd inst = Some 7"
    using solo_started by blast
  have "mgr_step\<^sup>*\<^sup>* (solo m False ?os inst SupCheck CtlIdle)
      (solo m False (kill 7 ?os) (SetState StateDead inst) (SupStart second) CtlIdle)"
    by (rule solo_crash) (simp_all add: s(2))
  moreover obtain t where
    "mgr_step\<^sup>*\<^sup>* (solo m False (kill 7 ?os) (SetState StateDead inst) (SupStart second) CtlIdle) t"
    "sys_ctl t = CtlReturned" "running (sys_os t) \<noteq> []"
    using solo_race [of "kill 7 ?os" m "SetState StateDead inst" second] by (auto simp: kill_def)
  ultimately show ?thesis using s(1) rtranclp_trans by metis
qed

text \<open>
  The back-off schedule: after \<open>n\<close> failed attempts the next wait is two to the power \<open>n\<close> seconds, at most thirty.
\<close>

theorem backoff_schedule:
  "(next_backoff ^^ n) second = min (2 ^ n * second) (30 * second)"
proof (induction n)
  case (Suc n)
  show ?case
  proof (cases "n < 5")
    case True
    then have "n \<in> {0, 1, 2, 3, 4}" by auto
    with Suc show ?thesis
      by (auto simp: next_backoff_def maxBackoff_def second_def i64_id numeral_eq_Suc)
  next
    case False
    then have "(2::int) ^ 5 \<le> 2 ^ n" by (intro power_increasing) auto
    with Suc show ?thesis
      by (simp add: next_backoff_def maxBackoff_def second_def i64_id)
  qed
qed (simp add: second_def)

end
