(* ===== verification/Stopping.thy ===== *)
theory Stopping
  imports Engine
begin

text \<open>
  Why \<^verbatim>\<open>Shutdown\<close> and \<^verbatim>\<open>Reload\<close> of \<^verbatim>\<open>internal/engine/manager.go\<close> return: both cancel the context, stop every instance and wait until the
  last supervisor has exited.  The step relation is that of the engine; shown is that the wait cannot block for ever,
  however the supervisors, crashes, verdicts and manual restarts interleave with it, as long as a \<^verbatim>\<open>select\<close> that finds
  both the context cancelled and its back-off timer fired does not keep choosing the timer.
\<close>

subsection \<open>The steps of a stop\<close>

text \<open>Shutdown or reload is under way, and how far the loop that stops the instances has come.\<close>

definition stopping :: "system \<Rightarrow> bool" where
  "stopping s \<longleftrightarrow> (case sys_ctl s of CtlStop i goal \<Rightarrow> True | CtlWait goal \<Rightarrow> True | _ \<Rightarrow> False)"

definition stop_front :: "system \<Rightarrow> nat" where
  "stop_front s = (case sys_ctl s of CtlStop i goal \<Rightarrow> i | CtlWait goal \<Rightarrow> length (insts s) | _ \<Rightarrow> 0)"

text \<open>
  The steps that bring a stop forward: those of the thread that stops, and those of the supervisors except for a back-off timer that
  fires although the context is cancelled.
\<close>

inductive stop_go :: "system \<Rightarrow> system \<Rightarrow> bool" where
  supervisor: "k < length (sys_sups s) \<Longrightarrow> sys_sups s ! k = (i, pc) \<Longrightarrow>
    supervise (mgr_ctxDone (sys_mgr s)) (sys_os s, insts s ! i, pc) (os', inst', pc') \<Longrightarrow>
    (\<And>b. pc = SupBackoff b \<Longrightarrow> pc' = SupDone) \<Longrightarrow>
    stop_go s ((put_inst i inst' s)\<lparr>sys_os := os', sys_sups := (sys_sups s)[k := (i, pc')]\<rparr>)"
| stop: "sys_ctl s = CtlStop i goal \<Longrightarrow> i < length (insts s) \<Longrightarrow>
    Instance_Stop (sys_os s) (insts s ! i) = (os', inst') \<Longrightarrow>
    stop_go s ((put_inst i inst' s)\<lparr>sys_os := os', sys_ctl := CtlStop (Suc i) goal\<rparr>)"
| stopped_all: "sys_ctl s = CtlStop i goal \<Longrightarrow> length (insts s) \<le> i \<Longrightarrow> stop_go s (s\<lparr>sys_ctl := CtlWait goal\<rparr>)"
| returns: "sys_ctl s = CtlWait goal \<Longrightarrow> mgr_step s t \<Longrightarrow> \<not> stopping t \<Longrightarrow> stop_go s t"

text \<open>What happens around it.\<close>

inductive stop_env :: "system \<Rightarrow> system \<Rightarrow> bool" where
  process_exits: "stop_env s (s\<lparr>sys_os := kill pid (sys_os s)\<rparr>)"
| set_state: "i < length (insts s) \<Longrightarrow> stop_env s (put_inst i (SetState st (insts s ! i)) s)"
| restart: "RestartInstance n (sys_os s) (sys_mgr s) = Some (os', m') \<Longrightarrow>
    stop_env s (s\<lparr>sys_mgr := m', sys_os := os'\<rparr>)"

lemma stop_go_step: "stop_go s t \<Longrightarrow> mgr_step s t"
  by (induction rule: stop_go.induct) (auto intro: mgr_step.intros)

lemma stop_env_step: "stop_env s t \<Longrightarrow> mgr_step s t"
  by (induction rule: stop_env.induct) (auto intro: mgr_step.intros)

text \<open>Nothing else happens during a stop but the timer.\<close>

lemma stopping_steps:
  assumes "stopping s" "mgr_step s t"
  shows "stop_go s t \<or> stop_env s t
    \<or> (\<exists>k < length (sys_sups s). \<exists>i b. sys_sups s ! k = (i, SupBackoff b) \<and> sys_sups t ! k = (i, SupStart b))"
  using assms(2)
proof (cases rule: mgr_step.cases)
  case (supervisor k i pc os' inst' pc')
  show ?thesis
  proof (cases "\<exists>b. pc = SupBackoff b \<and> pc' \<noteq> SupDone")
    case True
    then obtain b where b: "pc = SupBackoff b" "pc' \<noteq> SupDone" by blast
    with supervisor(4) have "pc' = SupStart b" by (auto elim: superviseE)
    with supervisor b have "sys_sups t ! k = (i, SupStart b)" by simp
    with supervisor b show ?thesis by blast
  next
    case False
    with supervisor show ?thesis by (auto intro!: stop_go.supervisor)
  qed
next
  case (cancel goal)
  with assms(1) show ?thesis by (simp add: stopping_def)
next
  case (shutdown_returns)
  with assms show ?thesis by (auto intro!: stop_go.returns simp: stopping_def)
next
  case (reload_fails cfg e m')
  with assms show ?thesis by (auto intro!: stop_go.returns simp: stopping_def)
next
  case (reload_returns cfg m' out err os' insts' ks)
  with assms show ?thesis by (auto intro!: stop_go.returns simp: stopping_def)
qed (auto intro: stop_go.intros stop_env.intros)

subsection \<open>What a waiting supervisor waits for\<close>

text \<open>
  A supervisor in \<^verbatim>\<open>cmd.Wait\<close> waits for the command of its instance, or for a process that is gone; behind the loop that stops
  the instances none waits for a running process, and none is about to read a command.
\<close>

definition waits_ok :: "system \<Rightarrow> bool" where
  "waits_ok s \<longleftrightarrow> (\<forall>(i, pc) \<in> set (sys_sups s). \<forall>p. pc = SupWait p \<longrightarrow>
     p < next_pid (sys_os s) \<and> (inst_cmd (insts s ! i) = Some p \<or> p \<notin> set (running (sys_os s))))"

definition behind_ok :: "system \<Rightarrow> bool" where
  "behind_ok s \<longleftrightarrow> (\<forall>(i, pc) \<in> set (sys_sups s). i < stop_front s \<longrightarrow>
     (pc = SupEnter \<or> (\<exists>p. pc = SupWait p)) \<longrightarrow> inst_cmd (insts s ! i) = None)"

lemma waits_okD:
  "waits_ok s \<Longrightarrow> (i, SupWait p) \<in> set (sys_sups s) \<Longrightarrow>
     inst_cmd (insts s ! i) = Some p \<or> p \<notin> set (running (sys_os s))"
  by (auto simp: waits_ok_def)

lemma behind_okD:
  "behind_ok s \<Longrightarrow> (i, SupWait p) \<in> set (sys_sups s) \<Longrightarrow> i < stop_front s \<Longrightarrow> inst_cmd (insts s ! i) = None"
  by (auto simp: behind_ok_def)

definition stop_inv :: "system \<Rightarrow> bool" where
  "stop_inv s \<longleftrightarrow> mgr_inv s \<and> (stopping s \<longrightarrow> mgr_ctxDone (sys_mgr s)) \<and> waits_ok s \<and> behind_ok s"

lemma stop_front_stopping: "i < stop_front s \<Longrightarrow> stopping s"
  by (auto simp: stop_front_def stopping_def split: ctl.splits)

lemma restart_in_kills:
  "restart_in n os xs = Some (os', ys) \<Longrightarrow> i < length xs \<Longrightarrow>
     inst_cmd (ys ! i) = inst_cmd (xs ! i)
     \<or> inst_cmd (ys ! i) = None \<and> set_option (inst_cmd (xs ! i)) \<inter> set (running os') = {}"
proof (induction xs arbitrary: ys i)
  case (Cons x xs)
  show ?case
  proof (cases "int (inst_id x) = n")
    case True
    with Cons.prems obtain x' where "Instance_Stop os x = (os', x')" "ys = x' # xs"
      by (auto split: prod.splits)
    with Instance_Stop_os [of os x os' x'] show ?thesis
      by (auto simp: nth_Cons split: nat.splits)
  next
    case False
    with Cons.prems obtain ys' where "restart_in n os xs = Some (os', ys')" "ys = x # ys'"
      by (auto split: prod.splits)
    with Cons.IH [of ys'] Cons.prems(2) show ?thesis by (auto simp: nth_Cons split: nat.splits)
  qed
qed simp

text \<open>A step that moves no supervisor clears the command of an instance only when it kills the process.\<close>

lemma stop_inv_weaken:
  assumes "stop_inv s" "mgr_inv t" "os_le (sys_os s) (sys_os t)" "sys_sups t = sys_sups s"
    and cmd: "\<And>i. i < length (insts s) \<Longrightarrow> inst_cmd (insts t ! i) = inst_cmd (insts s ! i)
      \<or> inst_cmd (insts t ! i) = None \<and> set_option (inst_cmd (insts s ! i)) \<inter> set (running (sys_os t)) = {}"
    and ctx: "stopping t \<Longrightarrow> mgr_ctxDone (sys_mgr t)"
    and front: "\<And>i. i < stop_front t \<Longrightarrow> i < length (insts s) \<Longrightarrow> i < stop_front s \<or> inst_cmd (insts t ! i) = None"
  shows "stop_inv t"
proof -
  have ix: "i < length (insts s)" if "(i, pc) \<in> set (sys_sups s)" for i pc
    using that assms(1) by (auto simp: stop_inv_def mgr_inv_def)
  have "p < next_pid (sys_os t) \<and> (inst_cmd (insts t ! i) = Some p \<or> p \<notin> set (running (sys_os t)))"
    if mem: "(i, SupWait p) \<in> set (sys_sups s)" for i p
  proof -
    have w: "p < next_pid (sys_os s)" "inst_cmd (insts s ! i) = Some p \<or> p \<notin> set (running (sys_os s))"
      using mem assms(1) by (auto simp: stop_inv_def waits_ok_def)
    show ?thesis using w cmd [OF ix [OF mem]] assms(3) by (auto simp: os_le_def)
  qed
  moreover have "inst_cmd (insts t ! i) = None"
    if mem: "(i, pc) \<in> set (sys_sups s)" and "i < stop_front t" "pc = SupEnter \<or> (\<exists>p. pc = SupWait p)" for i pc
    using front [OF that(2) ix [OF mem]] cmd [OF ix [OF mem]] that assms(1)
    by (auto simp: stop_inv_def behind_ok_def)
  ultimately show ?thesis
    using assms(2,4) ctx by (auto simp: stop_inv_def waits_ok_def behind_ok_def)
qed

text \<open>A supervisor begins to wait only for the command it has just read, and reads one only before the cancel.\<close>

lemma supervise_wait:
  assumes "supervise d (os, inst, pc) (os', inst', SupWait p)"
  shows "pc = SupEnter \<and> os' = os \<and> inst' = inst \<and> inst_cmd inst = Some p"
  using assms by (auto elim: superviseE)

lemma supervise_enter: "supervise d (os, inst, pc) (os', inst', SupEnter) \<Longrightarrow> \<not> d"
  by (auto elim: superviseE)

lemma sup_update_cases:
  assumes "distinct (map fst xs)" "k < length xs" "xs ! k = (i, pc)" "(j, q) \<in> set (xs[k := (i, pc')])"
  shows "(j, q) \<in> set xs \<and> j \<noteq> i \<or> (j, q) = (i, pc')"
proof -
  obtain l where l: "l < length xs" "xs[k := (i, pc')] ! l = (j, q)"
    using assms(4) by (auto simp: in_set_conv_nth)
  show ?thesis
  proof (cases "l = k")
    case False
    then have "fst (xs ! l) \<noteq> fst (xs ! k)"
      using l(1) assms(1,2) nth_eq_iff_index_eq [of "map fst xs" l k] by simp
    with False l assms(3) show ?thesis by (auto simp: in_set_conv_nth)
  qed (use l assms(2) in simp)
qed

lemma stop_inv_supervisor:
  assumes "stop_inv s" "k < length (sys_sups s)" "sys_sups s ! k = (i, pc)"
    and sup: "supervise (mgr_ctxDone (sys_mgr s)) (sys_os s, insts s ! i, pc) (os', inst', pc')"
  shows "stop_inv ((put_inst i inst' s)\<lparr>sys_os := os', sys_sups := (sys_sups s)[k := (i, pc')]\<rparr>)"
    (is "stop_inv ?t")
proof -
  have inv: "mgr_inv s" using assms(1) by (simp add: stop_inv_def)
  have mem: "(i, pc) \<in> set (sys_sups s)" using assms(2,3) by (metis nth_mem)
  with inv have i: "i < length (insts s)" "sup_ok (sys_os s) (insts s ! i) pc" "old_cmd (sys_os s) (insts s ! i)"
    by (auto simp: mgr_inv_def)
  have le: "os_le (sys_os s) os'"
    using supervise_ok [OF sup i(2,3)] inv by (simp add: mgr_inv_def)
  have front: "stop_front ?t = stop_front s" by (simp add: stop_front_def split: ctl.splits)
  have "distinct (map fst (sys_sups s))" using inv by (simp add: mgr_inv_def)
  note other = sup_update_cases [OF this assms(2,3)]
  have "p < next_pid os' \<and> (inst_cmd ((insts s)[i := inst'] ! j) = Some p \<or> p \<notin> set (running os'))"
    if "(j, SupWait p) \<in> set ((sys_sups s)[k := (i, pc')])" for j p
    using other [OF that]
  proof
    assume "(j, SupWait p) = (i, pc')"
    with supervise_wait [of _ _ _ pc os' inst' p] sup i show ?thesis by (auto simp: old_cmd_def)
  next
    assume j: "(j, SupWait p) \<in> set (sys_sups s) \<and> j \<noteq> i"
    with assms(1) have "p < next_pid (sys_os s)" "inst_cmd (insts s ! j) = Some p \<or> p \<notin> set (running (sys_os s))"
      by (auto simp: stop_inv_def waits_ok_def)
    with j le show ?thesis by (auto simp: os_le_def)
  qed
  moreover have "inst_cmd ((insts s)[i := inst'] ! j) = None"
    if "(j, q) \<in> set ((sys_sups s)[k := (i, pc')])" "j < stop_front s" "q = SupEnter \<or> (\<exists>p. q = SupWait p)" for j q
    using other [OF that(1)]
  proof
    assume "(j, q) = (i, pc')"
    moreover have "mgr_ctxDone (sys_mgr s)"
      using stop_front_stopping [OF that(2)] assms(1) by (simp add: stop_inv_def)
    moreover have "inst_cmd (insts s ! i) = None" if "pc = SupEnter" "j = i"
      using that mem \<open>j < stop_front s\<close> assms(1) by (auto simp: stop_inv_def behind_ok_def)
    ultimately show ?thesis
      using that(3) sup supervise_wait supervise_enter by (metis option.distinct(1) prod.inject)
  next
    assume "(j, q) \<in> set (sys_sups s) \<and> j \<noteq> i"
    with that(2,3) assms(1) show ?thesis by (auto simp: stop_inv_def behind_ok_def)
  qed
  ultimately show ?thesis
    using mgr_inv_supervisor [OF inv assms(2,3) sup] assms(1) front
    by (auto simp: stop_inv_def waits_ok_def behind_ok_def stopping_def)
qed

lemma stop_inv_step:
  assumes "stop_inv s" "mgr_step s t"
  shows "stop_inv t"
proof -
  have inv: "mgr_inv s" using assms(1) by (simp add: stop_inv_def)
  note inv' = mgr_inv_step [OF inv assms(2)]
  note keep = stop_inv_weaken [OF assms(1) inv']
  note defs = stop_front_def stopping_def
  have ctx: "stopping s \<Longrightarrow> mgr_ctxDone (sys_mgr s)" using assms(1) by (simp add: stop_inv_def)
  show ?thesis
    using assms(2)
  proof (cases rule: mgr_step.cases)
    case (supervisor k i pc os' inst' pc')
    then show ?thesis using stop_inv_supervisor [OF assms(1)] by simp
  next
    case (process_exits pid)
    with ctx show ?thesis by (intro keep) (auto simp: defs split: ctl.splits)
  next
    case (set_state i st)
    with ctx show ?thesis by (intro keep) (auto simp: defs nth_list_update split: ctl.splits)
  next
    case (restart n os' m')
    then obtain ys where ys: "restart_in n (sys_os s) (insts s) = Some (os', ys)" "m' = (sys_mgr s)\<lparr>mgr_instances := ys\<rparr>"
      by (auto simp: RestartInstance_def)
    from restart ctx restart_in_kills [OF ys(1)] restart_in_cmds [OF ys(1)] ys(2)
    show ?thesis by (intro keep) (auto simp: defs split: ctl.splits)
  next
    case (cancel goal)
    with ctx show ?thesis by (intro keep) (auto simp: defs)
  next
    case (stop i goal os' inst')
    with ctx Instance_Stop_os [OF stop(4)] show ?thesis
      by (intro keep) (auto simp: defs nth_list_update less_Suc_eq)
  next
    case (stopped_all i goal)
    with ctx show ?thesis by (intro keep) (auto simp: defs)
  next
    case shutdown_returns
    with ctx show ?thesis by (intro keep) (auto simp: defs)
  next
    case (reload_fails cfg e m')
    then have "insts t = insts s" by (auto simp: reload_rebuild_def Let_def split: sum.splits)
    with reload_fails show ?thesis by (intro keep) (auto simp: defs)
  next
    case (reload_returns cfg m' out err os' insts' ks)
    with inv' show ?thesis by (auto simp: stop_inv_def waits_ok_def behind_ok_def defs)
  qed
qed

lemma stop_inv_init: "mgr_init s \<Longrightarrow> stop_inv s"
  using mgr_inv_init [of s]
  by (auto simp: stop_inv_def waits_ok_def behind_ok_def stopping_def stop_front_def mgr_init_def)

subsection \<open>Every stop ends\<close>

text \<open>How many steps a supervisor has before it returns, and how many the thread that stops the instances.\<close>

fun sup_work :: "sup_pc \<Rightarrow> nat" where
  "sup_work SupDone = 0"
| "sup_work SupCheck = 1"
| "sup_work SupExited = 1"
| "sup_work (SupBackoff b) = 1"
| "sup_work (SupWait p) = 2"
| "sup_work SupMark = 2"
| "sup_work (SupStart b) = 2"
| "sup_work SupEnter = 3"

fun ctl_work :: "nat \<Rightarrow> ctl \<Rightarrow> nat" where
  "ctl_work n (CtlStop i goal) = n - i + 2"
| "ctl_work n (CtlWait goal) = 1"
| "ctl_work n c = 0"

definition stop_work :: "system \<Rightarrow> nat" where
  "stop_work s =
     (if stopping s then sum_list (map (\<lambda>p. sup_work (snd p)) (sys_sups s)) + ctl_work (length (insts s)) (sys_ctl s)
      else 0)"

lemma stop_work_le: "stop_work s \<le> 3 * length (sys_sups s) + length (insts s) + 2"
proof -
  have "sup_work pc \<le> 3" for pc by (cases pc) simp_all
  then have "sum_list (map (\<lambda>p. sup_work (snd p)) xs) \<le> 3 * length xs" for xs :: "(nat \<times> sup_pc) list"
    by (induction xs) (simp_all add: add_mono)
  then have "sum_list (map (\<lambda>p. sup_work (snd p)) (sys_sups s)) \<le> 3 * length (sys_sups s)" .
  moreover have "ctl_work n c \<le> n + 2" for n c by (cases c) simp_all
  then have "ctl_work (length (insts s)) (sys_ctl s) \<le> length (insts s) + 2" .
  ultimately show ?thesis by (simp add: stop_work_def)
qed

lemma supervise_shrinks:
  assumes "supervise True (os, inst, pc) (os', inst', pc')" "\<And>b. pc = SupBackoff b \<Longrightarrow> pc' = SupDone"
  shows "sup_work pc' < sup_work pc"
  using assms by (auto elim!: superviseE)

lemma sum_list_update_less:
  fixes xs :: "nat list"
  assumes "k < length xs" "y < xs ! k"
  shows "sum_list (xs[k := y]) < sum_list xs"
  using assms sum_list_update [of k xs y] member_le_sum_list [of "xs ! k" xs] by simp

lemma stop_go_shrinks:
  assumes "stop_inv s" "stopping s" "stop_go s t"
  shows "stop_work t < stop_work s"
  using assms(3)
proof (cases rule: stop_go.cases)
  case (supervisor k i pc os' inst' pc')
  have d: "mgr_ctxDone (sys_mgr s)" using assms(1,2) by (simp add: stop_inv_def)
  have "sup_work pc' < map (\<lambda>p. sup_work (snd p)) (sys_sups s) ! k"
    using supervise_shrinks [of "sys_os s" "insts s ! i" pc os' inst' pc'] supervisor d by simp
  from sum_list_update_less [OF _ this] supervisor(1,2) assms(2) show ?thesis
    by (auto simp: stop_work_def stopping_def map_update)
qed (use assms(2) in \<open>auto simp: stop_work_def stopping_def\<close>)

lemma stop_env_bounded:
  assumes "stop_env s t"
  shows "stop_work t \<le> stop_work s"
  using assms
proof (cases rule: stop_env.cases)
  case (restart n os' m')
  then obtain ys where "restart_in n (sys_os s) (insts s) = Some (os', ys)" "m' = (sys_mgr s)\<lparr>mgr_instances := ys\<rparr>"
    by (auto simp: RestartInstance_def)
  with restart restart_in_cmds [of n "sys_os s" "insts s" os' ys] show ?thesis by (simp add: stop_work_def stopping_def)
qed (simp_all add: stop_work_def stopping_def)

text \<open>Once the context is cancelled, a supervisor that waits for no running process can take a step towards its end.\<close>

lemma supervise_enabled:
  assumes "pc \<noteq> SupDone" "\<And>p. pc = SupWait p \<Longrightarrow> p \<notin> set (running os)"
  shows "\<exists>os' inst' pc'. supervise True (os, inst, pc) (os', inst', pc') \<and> (\<forall>b. pc = SupBackoff b \<longrightarrow> pc' = SupDone)"
proof (cases pc)
  case SupEnter
  then show ?thesis by (cases "inst_cmd inst") (blast intro: supervise.enter_nil supervise.enter_wait)+
next
  case (SupStart b)
  obtain res os' inst' where "Instance_Start Started os inst = (res, os', inst')" by (metis prod_cases3)
  with SupStart show ?thesis by (blast intro: supervise.restarted)
qed (use assms in \<open>blast intro: supervise.intros\<close>)+

lemma stop_go_returns:
  assumes "sys_ctl s = CtlWait goal" "list_all (\<lambda>p. snd p = SupDone) (sys_sups s)"
  shows "\<exists>t. stop_go s t"
proof (cases goal)
  case ForShutdown
  have "mgr_step s (s\<lparr>sys_ctl := CtlReturned\<rparr>)"
    by (rule mgr_step.shutdown_returns) (use assms ForShutdown in simp_all)
  from stop_go.returns [OF assms(1) this] show ?thesis by (auto simp: stopping_def)
next
  case (ForReload cfg)
  obtain e m' where re: "reload_rebuild cfg (sys_mgr s) = (e, m')" by fastforce
  show ?thesis
  proof (cases e)
    case None
    obtain err os' insts' ks where
      st: "start_from True (\<lambda>_. Started) 0 (sys_os s) (mgr_instances m') = (err, os', insts', ks)"
      by (metis prod_cases4)
    have "mgr_step s (s\<lparr>sys_mgr := m'\<lparr>mgr_instances := insts'\<rparr>, sys_os := os',
        sys_sups := map (\<lambda>k. (k, SupCheck)) ks, sys_ctl := CtlIdle\<rparr>)"
      by (rule mgr_step.reload_returns) (use assms ForReload re None st in simp_all)
    from stop_go.returns [OF assms(1) this] show ?thesis by (auto simp: stopping_def)
  next
    case (Some err)
    have "mgr_step s (s\<lparr>sys_mgr := m', sys_ctl := CtlIdle\<rparr>)"
      by (rule mgr_step.reload_fails) (use assms ForReload re Some in simp_all)
    from stop_go.returns [OF assms(1) this] show ?thesis by (auto simp: stopping_def)
  qed
qed

lemma stop_go_waits:
  assumes "stop_inv s" "sys_ctl s = CtlWait goal" "\<not> list_all (\<lambda>p. snd p = SupDone) (sys_sups s)"
  shows "\<exists>t. stop_go s t"
proof -
  obtain k where "k < length (sys_sups s)" "snd (sys_sups s ! k) \<noteq> SupDone"
    using assms(3) by (auto simp: list_all_length)
  then obtain i pc where k: "k < length (sys_sups s)" "sys_sups s ! k = (i, pc)" "pc \<noteq> SupDone"
    by (cases "sys_sups s ! k") simp
  then have mem: "(i, pc) \<in> set (sys_sups s)" by (metis nth_mem)
  then have "i < stop_front s"
    using assms(1,2) by (auto simp: stop_inv_def mgr_inv_def stop_front_def)
  then have "pc = SupWait p \<Longrightarrow> p \<notin> set (running (sys_os s))" for p
    using mem waits_okD [of s i p] behind_okD [of s i p] assms(1) by (auto simp: stop_inv_def)
  from supervise_enabled [OF k(3) this, of "insts s ! i"] obtain os' inst' pc'
    where "supervise True (sys_os s, insts s ! i, pc) (os', inst', pc')" "\<forall>b. pc = SupBackoff b \<longrightarrow> pc' = SupDone"
    by blast
  moreover have "mgr_ctxDone (sys_mgr s)" using assms(1,2) by (simp add: stop_inv_def stopping_def)
  ultimately show ?thesis using stop_go.supervisor [OF k(1,2), of os' inst' pc'] by auto
qed

lemma stop_go_enabled:
  assumes "stop_inv s" "stopping s"
  shows "\<exists>t. stop_go s t"
proof (cases "sys_ctl s")
  case (CtlStop i goal)
  obtain os' inst' where "Instance_Stop (sys_os s) (insts s ! i) = (os', inst')" by fastforce
  with CtlStop show ?thesis
    by (cases "i < length (insts s)") (auto dest: stop_go.stop stop_go.stopped_all)
next
  case (CtlWait goal)
  with stop_go_returns stop_go_waits [OF assms(1)] show ?thesis by blast
qed (use assms(2) in \<open>simp_all add: stopping_def\<close>)

interpretation stopper: terminating_system mgr_init mgr_step stop_inv stop_go stop_env stopping stop_work
  using stop_inv_init stop_inv_step stop_go_step stop_env_step stop_go_enabled stop_go_shrinks stop_env_bounded
  by unfold_locales

subsection \<open>Properties\<close>

text \<open>
  C30. Every shutdown and every reload returns.  From any state reached while one is under way, whatever crashes,
  restarts and back-off waits came before, the steps of the supervisors and of the stopping thread alone lead to its return;
  and however they interleave with exiting processes, health verdicts and manual restarts, no more of them can
  be taken than the bound: two, one for each instance, and at most three for each supervisor.  Left out of these runs is
  a back-off timer that fires after the cancel, which sends its supervisor round once more.
\<close>

theorem stop_terminates:
  assumes "mgr_init s0" "mgr_step\<^sup>*\<^sup>* s0 s" "stopping s"
  shows "(\<exists>n t. interleaved stop_go (\<lambda>_ _. False) stopping n s t \<and> \<not> stopping t)
    \<and> (\<forall>n t. interleaved stop_go stop_env stopping n s t \<longrightarrow>
         n \<le> 3 * length (sys_sups s) + length (insts s) + 2 \<and> (stopping t \<longrightarrow> (\<exists>u. stop_go t u)))"
proof -
  have inv: "stop_inv s" by (rule stopper.reachable_inv [OF assms(1,2)])
  have "n \<le> 3 * length (sys_sups s) + length (insts s) + 2" if "interleaved stop_go stop_env stopping n s t" for n t
    using stopper.work_bounds [OF that inv] stop_work_le [of s] by simp
  with stopper.finishes [OF inv] stopper.never_stuck [OF _ inv] show ?thesis by blast
qed

theorem stop_terminates_witness:
  "\<exists>m inst n t. let s = solo m True \<lparr>running = [7], next_pid = 8\<rparr> inst SupCheck (CtlStop 0 ForShutdown) in
     interleaved stop_go (\<lambda>_ _. False) stopping n s t \<and> \<not> stopping t"
proof -
  obtain m inst where s: "mgr_init (solo m False \<lparr>running = [7], next_pid = 8\<rparr> inst SupCheck CtlIdle)"
    using solo_started by blast
  let ?s = "solo m True \<lparr>running = [7], next_pid = 8\<rparr> inst SupCheck (CtlStop 0 ForShutdown)"
  have "stopping ?s" by (simp add: stopping_def solo_def)
  moreover have "mgr_step\<^sup>*\<^sup>* (solo m False \<lparr>running = [7], next_pid = 8\<rparr> inst SupCheck CtlIdle) ?s"
    by (rule r_into_rtranclp) (rule solo_cancel)
  ultimately obtain n t where "interleaved stop_go (\<lambda>_ _. False) stopping n ?s t" "\<not> stopping t"
    using stop_terminates [OF s] by blast
  then show ?thesis by (intro exI [of _ m] exI [of _ inst] exI [of _ n] exI [of _ t]) (simp add: Let_def)
qed

end
