(* ===== verification/Health.thy ===== *)
theory Health
  imports Durations Engine Protocol
begin

text \<open>
  \<^verbatim>\<open>internal/health\<close>: the checker that decides which instances may carry traffic (\<^verbatim>\<open>checker.go\<close>) and its probes
  (\<^verbatim>\<open>probes.go\<close>).  What a probe meets on the network is an argument: whether the dial succeeds, the outcome of each
  write, the bytes the peer sends, how much one \<^verbatim>\<open>Read\<close> returns, and the two clock readings.  A
  deadline that passes is an error of the reader.  A check of one instance is a single step; the restart that it may
  trigger is part of its result.
\<close>

subsection \<open>Probes\<close>

datatype probe_error =
    DialError | WriteError io_error | FrameWriteError frame_error | ReadError io_error | FrameReadError frame_error
  | BadVersion byte | BadBanner bytes | ConnectRejected byte | BadResponse bytes | WrongConnID u32

record probe_env =
  pe_dial :: bool
  pe_out :: "nat \<Rightarrow> write_outcome"
  pe_in :: reader
  pe_read :: nat
  pe_start :: time
  pe_end :: time

text \<open>One \<^verbatim>\<open>Read\<close> into a buffer of size \<open>cap\<close>: some of the bytes that are there, or the error.\<close>

definition go_read :: "nat \<Rightarrow> nat \<Rightarrow> reader \<Rightarrow> io_error + bytes" where
  "go_read k cap r =
     (if rd_data r = [] then Inl (rd_end r) else Inr (take (min cap (max 1 k)) (rd_data r)))"

definition write_error :: "write_outcome \<Rightarrow> bytes \<Rightarrow> probe_error option" where
  "write_error out b = map_option WriteError (snd (inner_write out b))"

definition elapsed :: "probe_env \<Rightarrow> duration" where
  "elapsed e = time_sub (pe_end e) (pe_start e)"

definition probeSOCKS :: "probe_env \<Rightarrow> probe_error + duration" where
  "probeSOCKS e =
     (if \<not> pe_dial e then Inl DialError
      else case write_error (pe_out e 0) [0x05, 0x01, 0x00] of
        Some err \<Rightarrow> Inl err
      | None \<Rightarrow>
          (case ReadFull (pe_in e) 2 of
             (Inl err, r1) \<Rightarrow> Inl (ReadError err)
           | (Inr resp, r1) \<Rightarrow> if resp ! 0 \<noteq> 0x05 then Inl (BadVersion (resp ! 0)) else Inr (elapsed e)))"

definition probeSSH :: "probe_env \<Rightarrow> probe_error + duration" where
  "probeSSH e =
     (if \<not> pe_dial e then Inl DialError
      else case go_read (pe_read e) 64 (pe_in e) of
        Inl err \<Rightarrow> Inl (ReadError err)
      | Inr banner \<Rightarrow>
          if length banner < 4 \<or> take 4 banner \<noteq> string_bytes ''SSH-'' then Inl (BadBanner banner)
          else Inr (elapsed e))"

definition http_head :: "string \<Rightarrow> bytes" where
  "http_head domain = string_bytes (''HEAD / HTTP/1.1'' @ [CHR 13, CHR 10] @ ''Host: '' @ domain @ [CHR 13, CHR 10]
     @ ''Connection: close'' @ [CHR 13, CHR 10, CHR 13, CHR 10])"

definition connect_request :: "string \<Rightarrow> bytes" where
  "connect_request domain =
     [0x05, 0x01, 0x00, 0x03, word_of_nat (length domain)] @ string_bytes domain @ PutUint16 80"

text \<open>Errors while the bind address is drained are ignored.\<close>

definition drain_bind :: "byte \<Rightarrow> reader \<Rightarrow> reader" where
  "drain_bind atyp r =
     (if atyp = 0x03 then
        (case ReadFull r 1 of
           (Inr lb, r2) \<Rightarrow> snd (ReadFull r2 (unat (lb ! 0) + 2))
         | (Inl e, r2) \<Rightarrow> snd (ReadFull r2 2))
      else if atyp = 0x04 then snd (ReadFull r 18)
      else snd (ReadFull r 6))"

definition probeEndToEnd :: "string \<Rightarrow> probe_env \<Rightarrow> probe_error + duration" where
  "probeEndToEnd target e =
     (if \<not> pe_dial e then Inl DialError
      else case write_error (pe_out e 0) [0x05, 0x01, 0x00] of
        Some err \<Rightarrow> Inl err
      | None \<Rightarrow>
     (case ReadFull (pe_in e) 2 of
        (Inl err, r1) \<Rightarrow> Inl (ReadError err)
      | (Inr greeting, r1) \<Rightarrow>
     if greeting ! 0 \<noteq> 0x05 then Inl (BadVersion (greeting ! 0))
     else case write_error (pe_out e 1) (connect_request target) of
        Some err \<Rightarrow> Inl err
      | None \<Rightarrow>
     (case ReadFull r1 4 of
        (Inl err, r2) \<Rightarrow> Inl (ReadError err)
      | (Inr resp, r2) \<Rightarrow>
     if resp ! 1 \<noteq> 0 then Inl (ConnectRejected (resp ! 1))
     else let r3 = drain_bind (resp ! 3) r2
          in case write_error (pe_out e 2) (http_head target) of
        Some err \<Rightarrow> Inl err
      | None \<Rightarrow>
     (case go_read (pe_read e) 128 r3 of
        Inl err \<Rightarrow> Inl (ReadError err)
      | Inr buf \<Rightarrow>
          if length buf < 12 \<or> take 4 buf \<noteq> string_bytes ''HTTP'' then Inl (BadResponse buf) else Inr (elapsed e)))))"

definition probe_payload :: "string \<Rightarrow> bytes" where
  "probe_payload domain = [0x03, word_of_nat (length domain)] @ string_bytes domain @ [0x00, 0x50]"

definition probeConnID :: "nat \<Rightarrow> u32 \<Rightarrow> u32 \<Rightarrow> u32" where
  "probeConnID i seq rnd =
     0xFE000000 OR push_bit 16 (word_of_nat i AND 0xFF) OR push_bit 8 (seq AND 0xFF) OR (rnd AND 0xFF)"

definition frame_write :: "write_outcome \<Rightarrow> Frame \<Rightarrow> frame_error option" where
  "frame_write out f = (case WriteFrame (\<lambda>b. snd (inner_write out b)) f of Inl err \<Rightarrow> Some err | Inr b \<Rightarrow> None)"

text \<open>The FIN it sends at the end is not waited for and does not affect the result.\<close>

definition probeFramingProtocol :: "string \<Rightarrow> u32 \<Rightarrow> probe_env \<Rightarrow> probe_error + duration" where
  "probeFramingProtocol target cid e =
     (if \<not> pe_dial e then Inl DialError
      else case frame_write (pe_out e 0) \<lparr>ConnID = cid, SeqNum = 0, Flags = FlagSYN, Payload = Some (probe_payload target)\<rparr> of
        Some err \<Rightarrow> Inl (FrameWriteError err)
      | None \<Rightarrow>
     (case frame_write (pe_out e 1) \<lparr>ConnID = cid, SeqNum = 1, Flags = FlagData, Payload = Some (http_head target)\<rparr> of
        Some err \<Rightarrow> Inl (FrameWriteError err)
      | None \<Rightarrow>
     (case ReadFrame (pe_in e) of
        (Inl err, r1) \<Rightarrow> Inl (FrameReadError err)
      | (Inr f, r1) \<Rightarrow> if ConnID f \<noteq> cid then Inl (WrongConnID (ConnID f)) else Inr (elapsed e))))"

subsection \<open>The checker\<close>

definition maxConsecutiveFailures :: int where
  "maxConsecutiveFailures = 3"

record Checker =
  ck_interval :: duration
  ck_timeout :: duration
  ck_target :: string
  ck_packetSplit :: bool
  ck_cancelled :: bool
  ck_failures :: "(nat, int) gomap"
  ck_probeSeq :: u32

definition NewChecker :: "(string \<Rightarrow> int \<Rightarrow> int) \<Rightarrow> HealthCheckConfig \<Rightarrow> Checker" where
  "NewChecker frac cfg =
     (let timeout = TimeoutDuration frac cfg
      in \<lparr>ck_interval = IntervalDuration frac cfg,
          ck_timeout = (if timeout < 30 * second then 30 * second else timeout),
          ck_target = hc_Target cfg, ck_packetSplit = False, ck_cancelled = False, ck_failures = [], ck_probeSeq = 0\<rparr>)"

definition SetPacketSplit :: "bool \<Rightarrow> Checker \<Rightarrow> Checker" where
  "SetPacketSplit enabled c = c\<lparr>ck_packetSplit := enabled\<rparr>"

definition Checker_Stop :: "Checker \<Rightarrow> Checker" where
  "Checker_Stop c = c\<lparr>ck_cancelled := True\<rparr>"

definition failure_count :: "Checker \<Rightarrow> nat \<Rightarrow> int" where
  "failure_count c i = (case gm_get (ck_failures c) i of None \<Rightarrow> 0 | Some n \<Rightarrow> n)"

definition recordSuccess :: "nat \<Rightarrow> Checker \<Rightarrow> Checker" where
  "recordSuccess i c = c\<lparr>ck_failures := gm_put i 0 (ck_failures c)\<rparr>"

definition recordFailure :: "nat \<Rightarrow> Checker \<Rightarrow> int \<times> Checker" where
  "recordFailure i c =
     (let n = i64 (failure_count c i + 1) in (n, c\<lparr>ck_failures := gm_put i n (ck_failures c)\<rparr>))"

definition Milliseconds :: "duration \<Rightarrow> int" where
  "Milliseconds d = d sdiv 1000000"

text \<open>
  What one check meets: the first dial, the probe of the tunnel, the end-to-end probe, and the random
  bits of its connection id.
\<close>

record check_env =
  ce_tcp :: bool
  ce_probe :: probe_env
  ce_e2e :: probe_env
  ce_rnd :: u16

text \<open>Marking an instance unhealthy, if it is not already: the result also says whether it changed.\<close>

definition mark_unhealthy :: "Instance \<Rightarrow> Instance \<times> bool" where
  "mark_unhealthy inst =
     (if inst_state inst \<noteq> StateUnhealthy then (SetLastPingMs (- 1) (SetState StateUnhealthy inst), True)
      else (inst, False))"

definition tunnel_probe :: "check_env \<Rightarrow> Instance \<Rightarrow> probe_error + duration" where
  "tunnel_probe e inst =
     (if ei_Mode (inst_Config inst) = ''ssh'' then probeSSH (ce_probe e) else probeSOCKS (ce_probe e))"

text \<open>The end-to-end probe, when there is one to make; the framing probe draws the next probe number.\<close>

definition e2e_probe :: "check_env \<Rightarrow> Checker \<Rightarrow> Instance \<Rightarrow> (probe_error + duration) option \<times> Checker" where
  "e2e_probe e c inst =
     (if ck_target c \<noteq> [] \<and> ei_Mode (inst_Config inst) \<noteq> ''ssh'' then
        if ck_packetSplit c then
          if \<not> pe_dial (ce_e2e e) then (Some (Inl DialError), c)
          else let seq = ck_probeSeq c + 1
               in (Some (probeFramingProtocol (ck_target c) (probeConnID (inst_id inst) seq (ucast (ce_rnd e))) (ce_e2e e)),
                   c\<lparr>ck_probeSeq := seq\<rparr>)
        else (Some (probeEndToEnd (ck_target c) (ce_e2e e)), c)
      else (None, c))"

definition check_passed :: "duration \<Rightarrow> Checker \<Rightarrow> Instance \<Rightarrow> Checker \<times> Instance \<times> bool" where
  "check_passed rtt c inst =
     (let ms = Milliseconds rtt; inst1 = SetLastPingMs (if ms \<le> 0 then 1 else ms) inst
      in (recordSuccess (inst_id inst) c,
          if inst_state inst1 \<noteq> StateHealthy then SetState StateHealthy inst1 else inst1, False))"

text \<open>The check of one instance; the last component is whether it starts a restart of the instance.\<close>

definition checkOne :: "check_env \<Rightarrow> Checker \<Rightarrow> Instance \<Rightarrow> Checker \<times> Instance \<times> bool" where
  "checkOne e c inst =
     (if \<not> ce_tcp e then
        (case recordFailure (inst_id inst) c of
           (n, c1) \<Rightarrow> case mark_unhealthy inst of (inst1, changed) \<Rightarrow> (c1, inst1, changed))
      else case tunnel_probe e inst of
        Inl err \<Rightarrow>
          (case recordFailure (inst_id inst) c of
             (n, c1) \<Rightarrow>
               if n \<ge> maxConsecutiveFailures
               then (case mark_unhealthy inst of (inst1, changed) \<Rightarrow> (c1, inst1, changed))
               else (c1, inst, False))
      | Inr rtt \<Rightarrow>
          (case e2e_probe e c inst of
             (None, c1) \<Rightarrow> check_passed rtt c1 inst
           | (Some (Inr e2e), c1) \<Rightarrow> check_passed (if e2e > rtt then e2e else rtt) c1 inst
           | (Some (Inl err), c1) \<Rightarrow>
               (case recordFailure (inst_id inst) c1 of
                  (n, c2) \<Rightarrow>
                    if n \<ge> maxConsecutiveFailures
                    then (case mark_unhealthy inst of (inst1, changed) \<Rightarrow> (c2, inst1, False))
                    else (c2, inst, False))))"

text \<open>A round: dead instances only lose their latency, the others are checked.\<close>

fun checkAll :: "(nat \<Rightarrow> check_env) \<Rightarrow> Checker \<Rightarrow> Instance list \<Rightarrow> Checker \<times> Instance list \<times> nat list" where
  "checkAll env c [] = (c, [], [])"
| "checkAll env c (inst # xs) =
     (case (if inst_state inst = StateDead then (c, SetLastPingMs (- 1) inst, False)
            else checkOne (env (inst_id inst)) c inst) of
        (c1, inst1, restart) \<Rightarrow>
          case checkAll env c1 xs of
            (c2, xs2, rs) \<Rightarrow> (c2, inst1 # xs2, if restart then inst_id inst # rs else rs))"

text \<open>
  \<^verbatim>\<open>run\<close>: nothing when it is stopped during the first eight seconds; otherwise a round, the ticker, and a round
  per tick until it is stopped; the last component lists the restarts it asked for.  \<^verbatim>\<open>time.NewTicker\<close> panics on an interval that is not positive
  (\<open>None\<close>).  \<open>envs\<close> has the environment of each round.
\<close>

fun check_rounds :: "(nat \<Rightarrow> check_env) list \<Rightarrow> Checker \<Rightarrow> Instance list \<Rightarrow> Checker \<times> Instance list \<times> nat list" where
  "check_rounds [] c xs = (c, xs, [])"
| "check_rounds (env # envs) c xs =
     (case checkAll env c xs of
        (c1, xs1, rs) \<Rightarrow> case check_rounds envs c1 xs1 of (c2, xs2, rs2) \<Rightarrow> (c2, xs2, rs @ rs2))"

definition Checker_run ::
  "bool \<Rightarrow> (nat \<Rightarrow> check_env) \<Rightarrow> (nat \<Rightarrow> check_env) list \<Rightarrow> Checker \<Rightarrow> Instance list
    \<Rightarrow> (Checker \<times> Instance list \<times> nat list) option" where
  "Checker_run stopped env envs c xs =
     (if stopped then Some (c, xs, [])
      else case checkAll env c xs of
             (c1, xs1, rs) \<Rightarrow>
               if ck_interval c1 \<le> 0 then None
               else case check_rounds envs c1 xs1 of (c2, xs2, rs2) \<Rightarrow> Some (c2, xs2, rs @ rs2))"

subsection \<open>What a check does to an instance\<close>

text \<open>
  The specification of the checker for one instance: the number of consecutive failures and the state, moved by the
  verdict of each check.
\<close>

datatype verdict = PortClosed | ProbeFailed | Passed

fun health_spec :: "verdict \<Rightarrow> int \<times> InstanceState \<Rightarrow> int \<times> InstanceState" where
  "health_spec PortClosed (n, st) = (n + 1, StateUnhealthy)"
| "health_spec ProbeFailed (n, st) = (n + 1, if n + 1 \<ge> 3 then StateUnhealthy else st)"
| "health_spec Passed (n, st) = (0, StateHealthy)"

definition check_verdict :: "check_env \<Rightarrow> Checker \<Rightarrow> Instance \<Rightarrow> verdict" where
  "check_verdict e c inst =
     (if \<not> ce_tcp e then PortClosed
      else case tunnel_probe e inst of
             Inl err \<Rightarrow> ProbeFailed
           | Inr rtt \<Rightarrow> (case fst (e2e_probe e c inst) of Some (Inl err) \<Rightarrow> ProbeFailed | _ \<Rightarrow> Passed))"

definition health_abs :: "Checker \<Rightarrow> Instance \<Rightarrow> int \<times> InstanceState" where
  "health_abs c inst = (failure_count c (inst_id inst), inst_state inst)"

lemma recordFailure_count:
  assumes "0 \<le> failure_count c i" "failure_count c i < 2 ^ 63 - 1" "recordFailure i c = (n, c')"
  shows "n = failure_count c i + 1 \<and> failure_count c' i = n \<and> (\<forall>j. j \<noteq> i \<longrightarrow> failure_count c' j = failure_count c j)"
proof -
  have "i64 (failure_count c i + 1) = failure_count c i + 1" using assms by (intro i64_id) linarith+
  with assms(3) show ?thesis by (auto simp: recordFailure_def failure_count_def Let_def)
qed

lemma recordSuccess_count:
  "failure_count (recordSuccess i c) j = (if j = i then 0 else failure_count c j)"
  by (simp add: failure_count_def recordSuccess_def)

lemma e2e_probe_count [simp]: "failure_count (snd (e2e_probe e c inst)) i = failure_count c i"
  by (simp add: e2e_probe_def failure_count_def Let_def)

lemma mark_unhealthy_spec:
  "mark_unhealthy inst = (inst', b) \<Longrightarrow> inst_state inst' = StateUnhealthy \<and> inst_id inst' = inst_id inst
     \<and> (b \<longleftrightarrow> inst_state inst \<noteq> StateUnhealthy)"
  by (auto simp: mark_unhealthy_def SetState_def SetLastPingMs_def split: if_splits)

lemma check_passed_spec:
  "check_passed rtt c inst = (c', inst', b) \<Longrightarrow> inst_state inst' = StateHealthy \<and> inst_id inst' = inst_id inst
     \<and> 1 \<le> inst_lastPingMs inst' \<and> c' = recordSuccess (inst_id inst) c \<and> \<not> b"
  by (auto simp: check_passed_def Let_def SetState_def SetLastPingMs_def)

text \<open>One check refines one step of the specification; the counters of other instances stay.\<close>

lemma checkOne_refines:
  assumes n: "0 \<le> failure_count c (inst_id inst)" "failure_count c (inst_id inst) < 2 ^ 63 - 1"
    and ck: "checkOne e c inst = (c', inst', b)"
  shows "health_abs c' inst' = health_spec (check_verdict e c inst) (health_abs c inst)
    \<and> inst_id inst' = inst_id inst \<and> (\<forall>j. j \<noteq> inst_id inst \<longrightarrow> failure_count c' j = failure_count c j)
    \<and> (b \<longrightarrow> inst_state inst \<noteq> StateUnhealthy \<and> inst_state inst' = StateUnhealthy)"
proof -
  let ?i = "inst_id inst"
  obtain m c1 where f: "recordFailure ?i c = (m, c1)" by fastforce
  obtain r c2 where e2: "e2e_probe e c inst = (r, c2)" by fastforce
  obtain m3 c3 where f3: "recordFailure ?i c2 = (m3, c3)" by fastforce
  obtain inst1 b1 where mk: "mark_unhealthy inst = (inst1, b1)" by fastforce
  have cnt: "failure_count c2 j = failure_count c j" for j using e2e_probe_count [of e c inst j] e2 by simp
  note f' = recordFailure_count [OF n f] and f3' = recordFailure_count [of c2 ?i, unfolded cnt, OF n f3]
  note mk' = mark_unhealthy_spec [OF mk]
  show ?thesis
  proof (cases "check_verdict e c inst")
    case PortClosed
    then show ?thesis
      using ck f mk f' mk' by (auto simp: check_verdict_def checkOne_def health_abs_def split: if_splits sum.splits option.splits)
  next
    case ProbeFailed
    then show ?thesis
      using ck f mk f' mk' e2 f3 f3' cnt
      by (auto simp: check_verdict_def checkOne_def health_abs_def maxConsecutiveFailures_def
        split: if_splits sum.splits option.splits)
  next
    case Passed
    then have "\<exists>rtt. check_passed rtt c2 inst = (c', inst', b)"
      using ck e2 by (auto simp: check_verdict_def checkOne_def e2e_probe_def Let_def split: if_splits sum.splits option.splits)
    with Passed check_passed_spec cnt show ?thesis
      by (fastforce simp: health_abs_def recordSuccess_count)
  qed
qed

subsection \<open>Runs of checks\<close>

fun check_seq :: "check_env list \<Rightarrow> Checker \<Rightarrow> Instance \<Rightarrow> Checker \<times> Instance" where
  "check_seq [] c inst = (c, inst)"
| "check_seq (e # es) c inst = (case checkOne e c inst of (c', inst', b) \<Rightarrow> check_seq es c' inst')"

fun verdicts :: "check_env list \<Rightarrow> Checker \<Rightarrow> Instance \<Rightarrow> verdict list" where
  "verdicts [] c inst = []"
| "verdicts (e # es) c inst =
     check_verdict e c inst # (case checkOne e c inst of (c', inst', b) \<Rightarrow> verdicts es c' inst')"

lemma check_seq_refines:
  assumes "0 \<le> failure_count c (inst_id inst)" "failure_count c (inst_id inst) + int (length es) < 2 ^ 63 - 1"
    and "check_seq es c inst = (c', inst')"
  shows "health_abs c' inst' = fold health_spec (verdicts es c inst) (health_abs c inst)"
  using assms
proof (induction es arbitrary: c inst)
  case (Cons e es)
  obtain c1 inst1 b where ck: "checkOne e c inst = (c1, inst1, b)" by (metis prod_cases3)
  have r: "health_abs c1 inst1 = health_spec (check_verdict e c inst) (health_abs c inst)" "inst_id inst1 = inst_id inst"
    using checkOne_refines [OF _ _ ck] Cons.prems(1,2) by simp_all
  then have "failure_count c1 (inst_id inst1) \<in> {0, failure_count c (inst_id inst) + 1}"
    by (cases "check_verdict e c inst") (auto simp: health_abs_def)
  with Cons.IH [of c1 inst1] Cons.prems ck r show ?case by auto
qed simp

definition failing :: "verdict \<Rightarrow> bool" where
  "failing v \<longleftrightarrow> v \<noteq> Passed"

lemma spec_count:
  "fst (fold health_spec vs (n, st)) =
     (if Passed \<in> set vs then 0 else n) + int (length (takeWhile failing (rev vs)))"
proof (induction vs rule: rev_induct)
  case (snoc v vs)
  obtain m s where "fold health_spec vs (n, st) = (m, s)" by fastforce
  with snoc show ?case by (cases v) (auto simp: failing_def)
qed simp

lemma takeWhile_rev_split:
  assumes "2 \<le> length (takeWhile P (rev xs))"
  shows "\<exists>pre a b. xs = pre @ [a, b] \<and> P a \<and> P b"
proof -
  obtain b ys where 1: "rev xs = b # ys" "P b" using assms by (cases "rev xs") (auto split: if_splits)
  then obtain a zs where 2: "ys = a # zs" "P a" using assms by (cases ys) (auto split: if_splits)
  from 1 2 have "xs = rev zs @ [a, b]" by (metis append.assoc append_Cons append_Nil rev.simps(2) rev_rev_ident)
  with 1 2 show ?thesis by blast
qed

lemma spec_unhealthy:
  assumes "snd (fold health_spec vs (0, st)) = StateUnhealthy" "st \<noteq> StateUnhealthy"
  shows "PortClosed \<in> set vs \<or> (\<exists>pre a b d post. vs = pre @ [a, b, d] @ post \<and> failing a \<and> failing b \<and> failing d)"
  using assms(1)
proof (induction vs rule: rev_induct)
  case Nil
  then show ?case using assms(2) by simp
next
  case (snoc v vs)
  obtain m s where f: "fold health_spec vs (0, st) = (m, s)" by fastforce
  show ?case
  proof (cases "s = StateUnhealthy")
    case True
    then show ?thesis using snoc.IH f by (metis append.assoc butlast_append in_set_conv_decomp set_append UnCI snd_conv)
  next
    case False
    then consider "v = PortClosed" | "v = ProbeFailed" "m \<ge> 2" using snoc.prems f by (cases v) (auto split: if_splits)
    then show ?thesis
    proof cases
      case 2
      have "2 \<le> length (takeWhile failing (rev vs))" using spec_count [of vs 0 st] f 2(2) by (simp split: if_splits)
      then obtain pre a b where "vs = pre @ [a, b]" "failing a" "failing b" using takeWhile_rev_split by blast
      with 2(1) show ?thesis
        by (intro disjI2, rule_tac x = pre in exI, rule_tac x = a in exI, rule_tac x = b in exI, rule_tac x = v in exI)
          (simp add: failing_def)
    qed simp
  qed
qed

subsection \<open>A round over all instances\<close>

lemma check_verdict_cong:
  assumes "ck_target c = ck_target d" "ck_packetSplit c = ck_packetSplit d" "ck_probeSeq c = ck_probeSeq d"
  shows "check_verdict e c inst = check_verdict e d inst"
proof -
  have "fst (e2e_probe e c inst) = fst (e2e_probe e d inst)" using assms by (simp add: e2e_probe_def Let_def)
  then show ?thesis unfolding check_verdict_def by (simp only:)
qed

text \<open>The settings of the checker do not change.\<close>

definition same_settings :: "Checker \<Rightarrow> Checker \<Rightarrow> bool" where
  "same_settings c d \<longleftrightarrow> ck_target c = ck_target d \<and> ck_packetSplit c = ck_packetSplit d \<and> ck_interval c = ck_interval d
     \<and> ck_timeout c = ck_timeout d"

lemma recordFailure_settings: "recordFailure i c = (n, c') \<Longrightarrow> same_settings c' c"
  by (auto simp: recordFailure_def same_settings_def Let_def)

lemma e2e_probe_settings: "e2e_probe e c inst = (r, c') \<Longrightarrow> same_settings c' c"
  by (auto simp: e2e_probe_def same_settings_def Let_def split: if_splits)

lemma same_settings_trans: "same_settings a b \<Longrightarrow> same_settings b c \<Longrightarrow> same_settings a c"
  by (simp add: same_settings_def)

lemma checkOne_settings:
  assumes "checkOne e c inst = (c', inst', b)"
  shows "same_settings c' c"
proof -
  obtain n1 c1 where f: "recordFailure (inst_id inst) c = (n1, c1)" by fastforce
  obtain r c2 where e: "e2e_probe e c inst = (r, c2)" by fastforce
  obtain n3 c3 where f3: "recordFailure (inst_id inst) c2 = (n3, c3)" by fastforce
  have "same_settings c3 c"
    by (rule same_settings_trans [OF recordFailure_settings [OF f3] e2e_probe_settings [OF e]])
  moreover have "same_settings (recordSuccess (inst_id inst) c2) c"
    using e2e_probe_settings [OF e] by (simp add: same_settings_def recordSuccess_def)
  moreover have "c' \<in> {c1, c3, recordSuccess (inst_id inst) c2}"
    using assms f e f3
    by (auto simp: checkOne_def check_passed_def Let_def split: if_splits sum.splits option.splits prod.splits)
  ultimately show ?thesis using recordFailure_settings [OF f] by auto
qed

lemma checkAll_settings: "checkAll env c xs = (c', xs', rs) \<Longrightarrow> same_settings c' c"
proof (induction xs arbitrary: c c' xs' rs)
  case (Cons inst xs)
  obtain c1 inst1 b where one: "(if inst_state inst = StateDead then (c, SetLastPingMs (- 1) inst, False)
      else checkOne (env (inst_id inst)) c inst) = (c1, inst1, b)" by (metis prod_cases3)
  obtain c2 xs2 rs2 where rest: "checkAll env c1 xs = (c2, xs2, rs2)" by (metis prod_cases3)
  have "same_settings c1 c" using one checkOne_settings by (fastforce simp: same_settings_def split: if_splits)
  moreover have "c' = c2" using Cons.prems one rest by simp
  ultimately show ?case using Cons.IH [OF rest] same_settings_trans by blast
qed (simp add: same_settings_def)

text \<open>What a round does to one instance.\<close>

definition round_effect :: "(nat \<Rightarrow> check_env) \<Rightarrow> Checker \<Rightarrow> Checker \<Rightarrow> nat set \<Rightarrow> Instance \<Rightarrow> Instance \<Rightarrow> bool" where
  "round_effect env c c' rs x x' \<longleftrightarrow>
     inst_id x' = inst_id x
     \<and> (if inst_state x = StateDead
        then health_abs c' x' = health_abs c x \<and> inst_lastPingMs x' = - 1
        else \<exists>s. health_abs c' x' = health_spec (check_verdict (env (inst_id x)) (c\<lparr>ck_probeSeq := s\<rparr>) x) (health_abs c x))
     \<and> (inst_id x \<in> rs \<longrightarrow> inst_state x \<notin> {StateDead, StateUnhealthy} \<and> inst_state x' = StateUnhealthy)"

lemma round_one:
  assumes "0 \<le> failure_count c (inst_id x)" "failure_count c (inst_id x) < 2 ^ 63 - 1"
    and "(if inst_state x = StateDead then (c, SetLastPingMs (- 1) x, False) else checkOne (env (inst_id x)) c x) = (c1, x1, b)"
  shows "round_effect env c c1 (if b then {inst_id x} else {}) x x1
    \<and> (\<forall>j. j \<noteq> inst_id x \<longrightarrow> failure_count c1 j = failure_count c j)"
proof (cases "inst_state x = StateDead")
  case True
  then show ?thesis using assms(3) by (auto simp: round_effect_def health_abs_def SetLastPingMs_def)
next
  case False
  with assms(3) have ck: "checkOne (env (inst_id x)) c x = (c1, x1, b)" by simp
  have "\<exists>s. health_abs c1 x1 = health_spec (check_verdict (env (inst_id x)) (c\<lparr>ck_probeSeq := s\<rparr>) x) (health_abs c x)"
    using checkOne_refines [OF assms(1,2) ck] by (intro exI [of _ "ck_probeSeq c"]) simp
  with False checkOne_refines [OF assms(1,2) ck] show ?thesis by (simp add: round_effect_def)
qed

lemma round_effect_head:
  assumes "round_effect env c c1 rs x x'" "failure_count c' (inst_id x) = failure_count c1 (inst_id x)"
    and "inst_id x \<in> rs' \<Longrightarrow> inst_id x \<in> rs"
  shows "round_effect env c c' rs' x x'"
  using assms by (auto simp: round_effect_def health_abs_def)

lemma round_effect_tail:
  assumes "round_effect env c1 c' rs x x'" "same_settings c1 c" "failure_count c1 (inst_id x) = failure_count c (inst_id x)"
    and "inst_id x \<in> rs' \<Longrightarrow> inst_id x \<in> rs"
  shows "round_effect env c c' rs' x x'"
proof -
  have "check_verdict e (c1\<lparr>ck_probeSeq := s\<rparr>) x = check_verdict e (c\<lparr>ck_probeSeq := s\<rparr>) x" for e s
    using assms(2) by (intro check_verdict_cong) (simp_all add: same_settings_def)
  then show ?thesis using assms(1,3,4) by (auto simp: round_effect_def health_abs_def)
qed

lemma checkAll_rounds:
  assumes "distinct (map inst_id xs)"
    and "\<forall>x\<in>set xs. 0 \<le> failure_count c (inst_id x) \<and> failure_count c (inst_id x) < 2 ^ 63 - 1"
    and "checkAll env c xs = (c', xs', rs)"
  shows "list_all2 (round_effect env c c' (set rs)) xs xs' \<and> set rs \<subseteq> inst_id ` set xs
    \<and> (\<forall>j. j \<notin> inst_id ` set xs \<longrightarrow> failure_count c' j = failure_count c j)"
  using assms
proof (induction xs arbitrary: c c' xs' rs)
  case (Cons x xs)
  obtain c1 x1 b where one: "(if inst_state x = StateDead then (c, SetLastPingMs (- 1) x, False)
      else checkOne (env (inst_id x)) c x) = (c1, x1, b)" by (metis prod_cases3)
  obtain c2 xs2 rs2 where rest: "checkAll env c1 xs = (c2, xs2, rs2)" by (metis prod_cases3)
  have res: "c' = c2" "xs' = x1 # xs2" "rs = (if b then inst_id x # rs2 else rs2)" using Cons.prems(3) one rest by simp_all
  have hd: "round_effect env c c1 (if b then {inst_id x} else {}) x x1"
      "\<And>j. j \<noteq> inst_id x \<Longrightarrow> failure_count c1 j = failure_count c j"
    using round_one [of c x env, OF _ _ one] Cons.prems(2) by simp_all
  have ids: "inst_id x \<notin> inst_id ` set xs" "distinct (map inst_id xs)" using Cons.prems(1) by simp_all
  then have same: "failure_count c1 (inst_id y) = failure_count c (inst_id y)" if "y \<in> set xs" for y
    using hd(2) [of "inst_id y"] that by (metis imageI)
  have tl: "list_all2 (round_effect env c1 c2 (set rs2)) xs xs2" "set rs2 \<subseteq> inst_id ` set xs"
      "\<And>j. j \<notin> inst_id ` set xs \<Longrightarrow> failure_count c2 j = failure_count c1 j"
    using Cons.IH [OF ids(2) _ rest] Cons.prems(2) same by simp_all
  have s: "same_settings c1 c" using one checkOne_settings by (fastforce simp: same_settings_def split: if_splits)
  have "round_effect env c c2 (set rs) x x1"
    using round_effect_head [OF hd(1) tl(3) [OF ids(1)]] tl(2) ids(1) res(3) by (auto split: if_splits)
  moreover have "list_all2 (round_effect env c c2 (set rs)) xs xs2"
  proof (rule list.rel_mono_strong [OF tl(1)])
    fix y z assume y: "y \<in> set xs" "z \<in> set xs2" "round_effect env c1 c2 (set rs2) y z"
    have "inst_id y \<in> set rs2" if "inst_id y \<in> set rs"
      using that ids(1) res(3) y(1) by (metis imageI set_ConsD)
    then show "round_effect env c c2 (set rs) y z" by (rule round_effect_tail [OF y(3) s same [OF y(1)]])
  qed
  moreover have "set rs \<subseteq> inst_id ` set (x # xs)" using tl(2) res(3) by (auto split: if_splits)
  moreover have "failure_count c2 j = failure_count c j" if "j \<notin> inst_id ` set (x # xs)" for j using tl(3) hd(2) that by simp
  ultimately show ?case using res(1,2) by simp
qed simp

subsection \<open>Properties\<close>

text \<open>
  C26. Health decisions.  Over any sequence of checks of an instance that starts without failures on record: three consecutive
  failed checks make it unhealthy; a passed check makes it healthy with a clean record; and it only becomes unhealthy
  when its port was closed or three checks in a row failed.
\<close>

theorem health_decisions:
  assumes "failure_count c (inst_id inst) = 0" "inst_state inst \<noteq> StateUnhealthy" "int (length es) < 2 ^ 63 - 1"
    and "check_seq es c inst = (c', inst')" and vs: "vs = verdicts es c inst"
  shows "(\<forall>pre a b d. vs = pre @ [a, b, d] \<and> failing a \<and> failing b \<and> failing d \<longrightarrow> inst_state inst' = StateUnhealthy)
    \<and> (\<forall>pre. vs = pre @ [Passed] \<longrightarrow> inst_state inst' = StateHealthy \<and> failure_count c' (inst_id inst') = 0)
    \<and> (inst_state inst' = StateUnhealthy \<longrightarrow> PortClosed \<in> set vs
        \<or> (\<exists>pre a b d post. vs = pre @ [a, b, d] @ post \<and> failing a \<and> failing b \<and> failing d))"
proof -
  have abs: "health_abs c' inst' = fold health_spec vs (0, inst_state inst)"
    using check_seq_refines [OF _ _ assms(4)] assms(1,3) vs by (simp add: health_abs_def)
  have "inst_state inst' = StateUnhealthy" if "vs = pre @ [a, b, d]" "failing a" "failing b" "failing d" for pre a b d
  proof -
    obtain m s where "fold health_spec pre (0, inst_state inst) = (m, s)" by fastforce
    moreover have "0 \<le> m" using spec_count [of pre 0 "inst_state inst"] calculation by simp
    ultimately show ?thesis
      using abs that by (cases a; cases b; cases d) (auto simp: health_abs_def failing_def split: if_splits)
  qed
  moreover have "inst_state inst' = StateHealthy \<and> failure_count c' (inst_id inst') = 0" if "vs = pre @ [Passed]" for pre
    using abs that by (cases "fold health_spec pre (0, inst_state inst)") (simp add: health_abs_def)
  moreover have "snd (fold health_spec vs (0, inst_state inst)) = StateUnhealthy" if "inst_state inst' = StateUnhealthy"
    using abs [symmetric] that by (simp add: health_abs_def)
  ultimately show ?thesis using spec_unhealthy [OF _ assms(2)] by blast
qed

definition sample_check :: "bool \<Rightarrow> check_env" where
  "sample_check up =
     (let p = \<lparr>pe_dial = up, pe_out = (\<lambda>_. WroteAll), pe_in = \<lparr>rd_data = [5, 0], rd_end = EOF\<rparr>,
               pe_read = 64, pe_start = 0, pe_end = 20000000\<rparr>
      in \<lparr>ce_tcp = True, ce_probe = p, ce_e2e = p, ce_rnd = 0\<rparr>)"

definition sample_checker :: Checker where
  "sample_checker = NewChecker (\<lambda>_ _. 0) \<lparr>hc_Interval = ''10s'', hc_Target = [], hc_Timeout = ''5s''\<rparr>"

definition checked_instance :: Instance where
  "checked_instance = NewInstance 4 \<lparr>ei_Domain = ''t.example.com'', ei_Resolver = ''8.8.8.8'', ei_Port = 17001,
     ei_Mode = ''socks'', ei_Authoritative = False, ei_Cert = [], ei_SSHPort = 0, ei_SSHUser = [],
     ei_SSHPassword = [], ei_SSHKey = [], ei_OriginalIndex = 0, ei_ReplicaIndex = 0\<rparr> ''slipstream'' 65536"

theorem health_decisions_witness:
  "inst_state (snd (check_seq (replicate 3 (sample_check False)) sample_checker checked_instance)) = StateUnhealthy"
proof -
  let ?inst = checked_instance and ?es = "replicate 3 (sample_check False)"
  obtain c' inst' where r: "check_seq ?es sample_checker ?inst = (c', inst')" by fastforce
  have ck: "tunnel_probe (sample_check False) i = Inl DialError" for i
    by (simp add: tunnel_probe_def probeSSH_def probeSOCKS_def sample_check_def Let_def)
  have "check_verdict (sample_check False) c i = ProbeFailed" for c i
    by (simp add: check_verdict_def ck) (simp add: sample_check_def Let_def)
  then have "verdicts ?es sample_checker ?inst = [] @ [ProbeFailed, ProbeFailed, ProbeFailed]"
    by (simp add: numeral_3_eq_3 split: prod.split)
  moreover have "failure_count sample_checker 4 = 0" by (simp add: sample_checker_def NewChecker_def failure_count_def Let_def)
  ultimately show ?thesis
    using health_decisions [OF _ _ _ r refl] r by (force simp: checked_instance_def NewInstance_def failing_def)
qed

text \<open>
  C27. A round of checks works on the instances independently: the state and the failure count of each live instance
  take one step of the specification with the verdict of its own check, dead instances only lose their latency, and
  a restart is only asked for an instance that this round turned unhealthy.
\<close>

theorem checkAll_refines:
  assumes "distinct (map inst_id xs)"
    and "\<forall>x\<in>set xs. 0 \<le> failure_count c (inst_id x) \<and> failure_count c (inst_id x) < 2 ^ 63 - 1"
    and "checkAll env c xs = (c', xs', rs)"
  shows "list_all2 (round_effect env c c' (set rs)) xs xs' \<and> set rs \<subseteq> inst_id ` set xs"
  using checkAll_rounds [OF assms] by blast

theorem checkAll_refines_witness:
  "\<exists>c' x' rs. checkAll (\<lambda>i. sample_check False) sample_checker [checked_instance] = (c', [x'], rs)
     \<and> round_effect (\<lambda>i. sample_check False) sample_checker c' (set rs) checked_instance x'"
proof -
  obtain c' xs' rs where r: "checkAll (\<lambda>i. sample_check False) sample_checker [checked_instance] = (c', xs', rs)"
    by (metis prod_cases3)
  have "failure_count sample_checker j = 0" for j by (simp add: sample_checker_def NewChecker_def failure_count_def Let_def)
  then have "list_all2 (round_effect (\<lambda>i. sample_check False) sample_checker c' (set rs)) [checked_instance] xs'"
    using checkAll_refines [OF _ _ r] by simp
  with r show ?thesis by (auto simp: list_all2_Cons1)
qed

text \<open>
  Probes do not disturb traffic: the connection id of a framing probe is at least \<^verbatim>\<open>0xFE000000\<close>, so it is none
  of the first \<^verbatim>\<open>0x7E000000\<close> ids that the generator of a proxy hands out.
\<close>

theorem probe_ids_disjoint:
  assumes "n \<le> 0x7E000000 - 1"
  shows "probeConnID i seq rnd \<notin> set (conn_ids n (NewConnIDGenerator buf))"
proof
  let ?g = "NewConnIDGenerator buf"
  assume "probeConnID i seq rnd \<in> set (conn_ids n ?g)"
  then obtain k where k: "k < n" "probeConnID i seq rnd = counter ?g + word_of_nat (Suc k)" by (auto simp: conn_ids_map)
  have "0xFE000000 \<le> probeConnID i seq rnd" unfolding probeConnID_def or.assoc by (rule le_word_or2)
  then have "unat (0xFE000000 :: u32) \<le> unat (probeConnID i seq rnd)" by (simp only: word_le_nat_alt)
  moreover have "unat (counter ?g + word_of_nat (Suc k)) = unat (counter ?g) + Suc k"
    using start_bound [of buf] k(1) assms by (intro conn_id_unat) simp
  ultimately show False using start_bound [of buf] k assms by simp
qed

theorem probe_ids_disjoint_witness:
  "probeConnID 4 7 0x1234 \<notin> set (conn_ids 100000 (NewConnIDGenerator (Some [0x7F, 0xFF, 0xFF, 0xFF])))"
  by (rule probe_ids_disjoint) simp

text \<open>
  An interval that is not positive passes validation and takes the process down: with \<^verbatim>\<open>"0s"\<close> the
  configuration is accepted, and the checker panics after its first round, whatever that round meets.
\<close>

theorem zero_interval_panics:
  "\<exists>cfg. Validate cfg = Inr cfg \<and> (\<forall>frac env envs xs. Checker_run False env envs (NewChecker frac (HealthCheck cfg)) xs = None)"
proof -
  let ?cfg = "example_config\<lparr>HealthCheck := (HealthCheck example_config)\<lparr>hc_Interval := ''0s''\<rparr>\<rparr>"
  have "config_ok ?cfg" using example_valid by (simp add: config_ok_def ExpandInstances_def)
  then have "Validate ?cfg = Inr ?cfg" by (rule Validate_ok)
  moreover have "Checker_run False env envs (NewChecker frac (HealthCheck ?cfg)) xs = None" for frac env envs xs
  proof -
    obtain c1 xs1 rs where r: "checkAll env (NewChecker frac (HealthCheck ?cfg)) xs = (c1, xs1, rs)" by (metis prod_cases3)
    have "ck_interval c1 = 0"
      using checkAll_settings [OF r]
      by (simp add: same_settings_def NewChecker_def IntervalDuration_def durations_simp Let_def)
    with r show ?thesis by (simp add: Checker_run_def)
  qed
  ultimately show ?thesis by blast
qed

end
