(* ===== verification/Weighted.thy ===== *)
theory Weighted
  imports Prelude
begin

text \<open>
  The specification of weighted round-robin that two routines of the program implement, the
  balancer's \<^verbatim>\<open>WeightedRoundRobin.Pick\<close> and the splitter's \<^verbatim>\<open>pickInstance\<close>: a position and the number
  of consecutive picks made there.  The client lemma is proved once, for any routine that
  simulates this step.
\<close>

definition wstep :: "nat \<Rightarrow> (nat \<Rightarrow> nat) \<Rightarrow> nat \<times> nat \<Rightarrow> nat \<times> nat" where
  "wstep n w a = (if snd a < w (fst a) then (fst a, Suc (snd a)) else (Suc (fst a) mod n, 1))"

text \<open>The results of \<open>k\<close> consecutive picks.\<close>

fun picks :: "('s \<Rightarrow> 'i \<times> 's) \<Rightarrow> nat \<Rightarrow> 's \<Rightarrow> 'i list \<times> 's" where
  "picks f 0 s = ([], s)"
| "picks f (Suc k) s = (case f s of (i, s') \<Rightarrow> case picks f k s' of (is, t) \<Rightarrow> (i # is, t))"

lemma picks_add:
  "picks f (j + k) s = (case picks f j s of (is, s') \<Rightarrow> case picks f k s' of (js, t) \<Rightarrow> (is @ js, t))"
  by (induction j arbitrary: s) (auto split: prod.splits)

text \<open>One full turn: every position as often as its weight.\<close>

definition full_turn :: "nat \<Rightarrow> (nat \<Rightarrow> nat) \<Rightarrow> nat list" where
  "full_turn n w = concat (map (\<lambda>i. replicate (w i) i) [0..<n])"

lemma count_full_turn: "i < n \<Longrightarrow> count_list (full_turn n w) i = w i"
proof -
  have rep: "count_list (replicate m j) i = (if i = j then m else 0)" for m j :: nat
    by (induction m) auto
  have "count_list (concat (map (\<lambda>i. replicate (w i) i) [0..<m])) i = (if i < m then w i else 0)" for m
    by (induction m) (auto simp: rep)
  then show "i < n \<Longrightarrow> count_list (full_turn n w) i = w i" by (simp add: full_turn_def)
qed

lemma length_full_turn: "length (full_turn n w) = sum w {0..<n}"
  by (simp add: full_turn_def length_concat o_def sum_list_sum_nth atLeast0LessThan)

text \<open>
  The interface: \<open>c\<close> is what the routine works on (the instances), \<open>ok c\<close> the situation in which it
  promises anything, and \<open>valid c k s\<close> says that its counters stay in range for \<open>k\<close> more picks.
\<close>

locale weighted_rr =
  fixes ok :: "'c \<Rightarrow> bool"
    and n :: "'c \<Rightarrow> nat"
    and w :: "'c \<Rightarrow> nat \<Rightarrow> nat"
    and pick :: "'c \<Rightarrow> 's \<Rightarrow> nat \<times> 's"
    and abs :: "'c \<Rightarrow> 's \<Rightarrow> nat \<times> nat"
    and valid :: "'c \<Rightarrow> nat \<Rightarrow> 's \<Rightarrow> bool"
  assumes n_pos: "ok c \<Longrightarrow> 0 < n c"
    and w_pos: "ok c \<Longrightarrow> i < n c \<Longrightarrow> 0 < w c i"
    and pick_step: "ok c \<Longrightarrow> valid c (Suc k) s \<Longrightarrow> pick c s = (i, s') \<Longrightarrow>
      abs c s' = wstep (n c) (w c) (abs c s) \<and> i = fst (abs c s') \<and> valid c k s'"
begin

text \<open>The next pick starts position \<open>i\<close> afresh.\<close>

definition ready :: "'c \<Rightarrow> nat \<Rightarrow> 's \<Rightarrow> bool" where
  "ready c i s \<longleftrightarrow> i < n c \<and> wstep (n c) (w c) (abs c s) = (i, 1)"

lemma ready_start: "ok c \<Longrightarrow> abs c s = (0, 0) \<Longrightarrow> ready c 0 s"
  using n_pos w_pos by (simp add: ready_def wstep_def)

lemma picks_within:
  assumes "ok c"
  shows "abs c s = (i, d) \<Longrightarrow> d + k \<le> w c i \<Longrightarrow> valid c (k + l) s \<Longrightarrow>
     \<exists>t. picks (pick c) k s = (replicate k i, t) \<and> abs c t = (i, d + k) \<and> valid c l t"
proof (induction k arbitrary: s d)
  case (Suc k)
  obtain j s' where p: "pick c s = (j, s')" by fastforce
  with pick_step [OF assms, of "k + l" s j s'] Suc.prems
  have "j = i" "abs c s' = (i, Suc d)" "valid c (k + l) s'" by (auto simp: wstep_def)
  with Suc.IH [of s' "Suc d"] Suc.prems(2) p show ?case by auto
qed simp

lemma picks_block:
  assumes "ok c" "ready c i s" "valid c (w c i + l) s"
  shows "\<exists>t. picks (pick c) (w c i) s = (replicate (w c i) i, t)
    \<and> ready c (Suc i mod n c) t \<and> valid c l t"
proof -
  obtain k where k: "w c i = Suc k" using assms(1,2) w_pos by (metis ready_def gr0_implies_Suc)
  obtain j s' where p: "pick c s = (j, s')" by fastforce
  with pick_step [OF assms(1), of "k + l" s j s'] assms k
  have s': "j = i" "abs c s' = (i, 1)" "valid c (k + l) s'" by (auto simp: ready_def)
  from picks_within [OF assms(1) s'(2) _ s'(3)] k obtain t where
    t: "picks (pick c) k s' = (replicate k i, t)" "abs c t = (i, w c i)" "valid c l t" by auto
  moreover have "ready c (Suc i mod n c) t" using t(2) n_pos [OF assms(1)] by (simp add: ready_def wstep_def)
  ultimately show ?thesis using p k s'(1) by auto
qed

lemma picks_blocks:
  assumes "ok c" "ready c 0 s" "valid c (sum (w c) {0..<m} + l) s" "m \<le> n c"
  shows "\<exists>t. picks (pick c) (sum (w c) {0..<m}) s = (full_turn m (w c), t)
    \<and> ready c (m mod n c) t \<and> valid c l t"
  using assms(3,4)
proof (induction m arbitrary: l)
  case 0
  with assms(2) show ?case by (simp add: full_turn_def)
next
  case (Suc m)
  then have "valid c (sum (w c) {0..<m} + (w c m + l)) s" "m \<le> n c" by (simp_all add: add.assoc)
  from Suc.IH [OF this] obtain t where t: "picks (pick c) (sum (w c) {0..<m}) s = (full_turn m (w c), t)"
      "ready c (m mod n c) t" "valid c (w c m + l) t"
    by (elim exE conjE)
  moreover have "m mod n c = m" using Suc.prems by simp
  ultimately show ?case
    using picks_block [OF assms(1), of m t l] by (auto simp: picks_add full_turn_def)
qed

text \<open>Turn after turn, every position is picked exactly as often as its weight says.\<close>

lemma picks_turns:
  assumes "ok c" "ready c 0 s" "valid c (r * sum (w c) {0..<n c}) s"
  shows "fst (picks (pick c) (r * sum (w c) {0..<n c}) s) = concat (replicate r (full_turn (n c) (w c)))"
  using assms(2,3)
proof (induction r arbitrary: s)
  case (Suc r)
  with picks_blocks [OF assms(1), of s "n c" "r * sum (w c) {0..<n c}"] obtain t where
    "picks (pick c) (sum (w c) {0..<n c}) s = (full_turn (n c) (w c), t)" "ready c 0 t"
    "valid c (r * sum (w c) {0..<n c}) t"
    by auto
  with Suc.IH [of t] show ?case by (auto simp: picks_add split: prod.splits)
qed simp

end

end
