(* ===== verification/Balancer.thy ===== *)
theory Balancer
  imports Engine Weighted
begin

text \<open>
  \<^verbatim>\<open>internal/balancer\<close>: the five strategies behind the interface \<^verbatim>\<open>Balancer\<close> and the factory
  \<^verbatim>\<open>New\<close>.  A pick returns \<open>NoInstance\<close> (nil), an instance, or \<open>Panic\<close> where the code would index
  out of range.  \<^verbatim>\<open>rand.Intn\<close> is the argument \<open>intn\<close>.
\<close>

datatype pick = NoInstance | Picked Instance | Panic

definition pick_at :: "Instance list \<Rightarrow> int \<Rightarrow> pick" where
  "pick_at xs i = (case go_index xs i of None \<Rightarrow> Panic | Some inst \<Rightarrow> Picked inst)"

lemma pick_at_nat [simp]: "i < length xs \<Longrightarrow> pick_at xs (int i) = Picked (xs ! i)"
  by (simp add: pick_at_def)

subsection \<open>Round robin and random\<close>

definition RoundRobin_Pick :: "u64 \<Rightarrow> Instance list \<Rightarrow> pick \<times> u64" where
  "RoundRobin_Pick counter xs =
     (if xs = [] then (NoInstance, counter)
      else let counter' = counter + 1; idx = counter' - 1
           in (pick_at xs (int (unat (idx mod of_nat (length xs)))), counter'))"

definition Random_Pick :: "(nat \<Rightarrow> nat) \<Rightarrow> Instance list \<Rightarrow> pick" where
  "Random_Pick intn xs = (if xs = [] then NoInstance else pick_at xs (int (intn (length xs))))"

subsection \<open>Least load and least ping\<close>

text \<open>The scan both share: the first instance with the smallest key below \<^verbatim>\<open>math.MaxInt64\<close>.\<close>

fun least_loop :: "(Instance \<Rightarrow> int) \<Rightarrow> Instance option \<Rightarrow> int \<Rightarrow> Instance list \<Rightarrow> Instance option" where
  "least_loop key best bound [] = best"
| "least_loop key best bound (inst # xs) =
     (if key inst < bound then least_loop key (Some inst) (key inst) xs
      else least_loop key best bound xs)"

definition LeastLoad_Pick :: "Instance list \<Rightarrow> pick" where
  "LeastLoad_Pick xs =
     (if xs = [] then NoInstance
      else case least_loop inst_activeConns None max_i64 xs of
             None \<Rightarrow> pick_at xs 0 | Some best \<Rightarrow> Picked best)"

definition ping_key :: "Instance \<Rightarrow> int" where
  "ping_key inst = (if inst_lastPingMs inst \<le> 0 then max_i64 - 1 else inst_lastPingMs inst)"

definition LeastPing_Pick :: "Instance list \<Rightarrow> pick" where
  "LeastPing_Pick xs =
     (if xs = [] then NoInstance
      else case least_loop ping_key None max_i64 xs of
             None \<Rightarrow> pick_at xs 0 | Some best \<Rightarrow> Picked best)"

subsection \<open>Weighted round robin\<close>

record WeightedRoundRobin =
  wrr_current :: int
  wrr_counter :: int

definition computeWeights :: "Instance list \<Rightarrow> int list" where
  "computeWeights xs =
     (let m = foldl (\<lambda>m inst. if inst_lastPingMs inst > m then inst_lastPingMs inst else m) 1 xs;
          maxPing = (if m \<le> 0 then 1 else m)
      in map (\<lambda>inst.
           let ping = (if inst_lastPingMs inst \<le> 0 then max_i64 sdiv 2 else inst_lastPingMs inst);
               w = maxPing sdiv ping
           in if w < 1 then 1 else w) xs)"

datatype wrr_result = WrrAt nat | WrrExhausted | WrrPanic

fun wrr_loop :: "nat \<Rightarrow> int list \<Rightarrow> WeightedRoundRobin \<Rightarrow> wrr_result \<times> WeightedRoundRobin" where
  "wrr_loop 0 weights w = (WrrExhausted, w)"
| "wrr_loop (Suc attempts) weights w =
     (let idx = wrr_current w smod int (length weights)
      in case go_index weights idx of
           None \<Rightarrow> (WrrPanic, w)
         | Some weight \<Rightarrow>
             if wrr_counter w < weight
             then (WrrAt (nat idx), w\<lparr>wrr_counter := i64 (wrr_counter w + 1)\<rparr>)
             else wrr_loop attempts weights
                    (w\<lparr>wrr_counter := 0, wrr_current := i64 (wrr_current w + 1)\<rparr>))"

definition WeightedRoundRobin_Pick ::
  "WeightedRoundRobin \<Rightarrow> Instance list \<Rightarrow> pick \<times> WeightedRoundRobin" where
  "WeightedRoundRobin_Pick w xs =
     (if xs = [] then (NoInstance, w)
      else if length xs = 1 then (pick_at xs 0, w)
      else case wrr_loop (length xs * 2) (computeWeights xs) w of
             (WrrAt i, w') \<Rightarrow> (pick_at xs (int i), w')
           | (WrrExhausted, w') \<Rightarrow> (pick_at xs 0, w')
           | (WrrPanic, w') \<Rightarrow> (Panic, w'))"

subsection \<open>The interface\<close>

datatype Balancer =
    RoundRobin u64 | Random | LeastPing | LeastLoad | WeightedRR WeightedRoundRobin

definition New :: "string \<Rightarrow> Balancer" where
  "New strategy =
     (if strategy = ''round_robin'' then RoundRobin 0
      else if strategy = ''random'' then Random
      else if strategy = ''least_ping'' then LeastPing
      else if strategy = ''least_load'' then LeastLoad
      else if strategy = ''weighted_rr'' \<or> strategy = ''packet_split''
        then WeightedRR \<lparr>wrr_current = 0, wrr_counter = 0\<rparr>
      else RoundRobin 0)"

fun Pick :: "(nat \<Rightarrow> nat) \<Rightarrow> Balancer \<Rightarrow> Instance list \<Rightarrow> pick \<times> Balancer" where
  "Pick intn (RoundRobin c) xs = (case RoundRobin_Pick c xs of (p, c') \<Rightarrow> (p, RoundRobin c'))"
| "Pick intn Random xs = (Random_Pick intn xs, Random)"
| "Pick intn LeastPing xs = (LeastPing_Pick xs, LeastPing)"
| "Pick intn LeastLoad xs = (LeastLoad_Pick xs, LeastLoad)"
| "Pick intn (WeightedRR w) xs = (case WeightedRoundRobin_Pick w xs of (p, w') \<Rightarrow> (p, WeightedRR w'))"

subsection \<open>Facts about the strategies\<close>

lemma RoundRobin_Pick_nth:
  assumes "xs \<noteq> []" "length xs < 2 ^ 64"
  shows "RoundRobin_Pick c xs = (Picked (xs ! (unat c mod length xs)), c + 1)"
proof -
  have "unat (c mod of_nat (length xs)) = unat c mod length xs"
    using assms(2) by (simp add: unat_mod_distrib unat_of_nat take_bit_nat_eq_self)
  moreover have "unat c mod length xs < length xs" using assms(1) by simp
  ultimately have "pick_at xs (int (unat (c mod of_nat (length xs)))) = Picked (xs ! (unat c mod length xs))"
    by (simp only: pick_at_nat)
  with assms(1) show ?thesis by (simp add: RoundRobin_Pick_def Let_def)
qed

lemma RoundRobin_picks:
  assumes "xs \<noteq> []" "length xs < 2 ^ 64" "unat c + k < 2 ^ 64"
  shows "picks (\<lambda>c. RoundRobin_Pick c xs) k c =
    (map (\<lambda>i. Picked (xs ! (i mod length xs))) [unat c..<unat c + k], c + of_nat k)"
  using assms(3)
proof (induction k arbitrary: c)
  case (Suc k)
  then have u: "unat (c + 1) = Suc (unat c)"
    by (simp add: unat_word_ariths)
  moreover have "unat (c + 1) + k < 2 ^ 64" using Suc.prems u by simp
  ultimately show ?case
    using Suc.IH [of "c + 1"] assms(1,2) Suc.prems upt_conv_Cons [of "unat c" "unat c + Suc k"]
    by (simp add: RoundRobin_Pick_nth del: upt_Suc)
qed simp

lemma map_mod_rotate: "map (\<lambda>i. xs ! (i mod length xs)) [c..<c + length xs] = rotate (c mod length xs) xs"
proof (rule nth_equalityI)
  fix i assume "i < length (map (\<lambda>i. xs ! (i mod length xs)) [c..<c + length xs])"
  then show "map (\<lambda>i. xs ! (i mod length xs)) [c..<c + length xs] ! i = rotate (c mod length xs) xs ! i"
    by (simp add: nth_rotate mod_add_left_eq)
qed simp

text \<open>The first position with the smallest key.\<close>

definition first_min :: "(Instance \<Rightarrow> int) \<Rightarrow> Instance list \<Rightarrow> nat \<Rightarrow> bool" where
  "first_min key xs i \<longleftrightarrow> i < length xs \<and> (\<forall>j < length xs. key (xs ! i) \<le> key (xs ! j))
     \<and> (\<forall>j < i. key (xs ! i) < key (xs ! j))"

lemma least_loop_spec:
  "if \<exists>x \<in> set xs. key x < bound
   then \<exists>i. first_min key xs i \<and> least_loop key best bound xs = Some (xs ! i)
   else least_loop key best bound xs = best"
proof (induction xs arbitrary: best bound)
  case (Cons x xs)
  have zero: "first_min key (x # xs) 0" if "\<forall>y \<in> set xs. key x \<le> key y"
    using that by (auto simp: first_min_def nth_Cons split: nat.splits)
  have suc: "first_min key (x # xs) (Suc i)" if "first_min key xs i" "key (xs ! i) < key x" for i
    using that by (auto simp: first_min_def nth_Cons split: nat.splits)
  show ?case
  proof (cases "key x < bound")
    case True
    show ?thesis
    proof (cases "\<exists>y \<in> set xs. key y < key x")
      case lower: True
      with Cons.IH [of "key x" "Some x"] obtain i where
        i: "first_min key xs i" "least_loop key (Some x) (key x) xs = Some (xs ! i)" by auto
      moreover from lower i(1) have "key (xs ! i) < key x"
        by (fastforce simp: first_min_def in_set_conv_nth)
      ultimately show ?thesis using True suc by (auto intro!: exI [of _ "Suc i"])
    next
      case False
      with Cons.IH [of "key x" "Some x"] True zero show ?thesis
        by (auto simp: not_less intro!: exI [of _ 0])
    qed
  next
    case False
    show ?thesis
    proof (cases "\<exists>y \<in> set xs. key y < bound")
      case lower: True
      with Cons.IH [of bound best] obtain i where
        i: "first_min key xs i" "least_loop key best bound xs = Some (xs ! i)" by auto
      moreover from lower i(1) False have "key (xs ! i) < key x"
        by (fastforce simp: first_min_def in_set_conv_nth)
      ultimately show ?thesis using False lower suc by (auto intro!: exI [of _ "Suc i"])
    next
      case none: False
      with Cons.IH [of bound best] False show ?thesis by auto
    qed
  qed
qed simp

lemma least_pick:
  assumes "xs \<noteq> []" "\<forall>x \<in> set xs. key x \<le> max_i64"
  shows "\<exists>i. first_min key xs i \<and>
    (case least_loop key None max_i64 xs of None \<Rightarrow> pick_at xs 0 | Some best \<Rightarrow> Picked best) = Picked (xs ! i)"
proof (cases "\<exists>x \<in> set xs. key x < max_i64")
  case True
  with least_loop_spec [of xs key max_i64 None] show ?thesis by auto
next
  case False
  with assms have "\<forall>x \<in> set xs. key x = max_i64" by force
  then have "first_min key xs 0" using assms(1) by (simp add: first_min_def)
  with False least_loop_spec [of xs key max_i64 None] assms(1) show ?thesis
    by (intro exI [of _ 0]) (auto simp: pick_at_def go_index_def)
qed

subsection \<open>Weighted round robin implements its specification\<close>

lemma computeWeights_pos: "i < length xs \<Longrightarrow> 1 \<le> computeWeights xs ! i"
  by (simp add: computeWeights_def Let_def)

lemma length_computeWeights [simp]: "length (computeWeights xs) = length xs"
  by (simp add: computeWeights_def Let_def)

definition wrr_weight :: "Instance list \<Rightarrow> nat \<Rightarrow> nat" where
  "wrr_weight xs i = nat (computeWeights xs ! i)"

definition wrr_next :: "Instance list \<Rightarrow> WeightedRoundRobin \<Rightarrow> nat \<times> WeightedRoundRobin" where
  "wrr_next xs w =
     (case wrr_loop (length xs * 2) (computeWeights xs) w of (WrrAt i, w') \<Rightarrow> (i, w') | (_, w') \<Rightarrow> (0, w'))"

definition wrr_abs :: "Instance list \<Rightarrow> WeightedRoundRobin \<Rightarrow> nat \<times> nat" where
  "wrr_abs xs w = (nat (wrr_current w mod int (length xs)), nat (wrr_counter w))"

definition wrr_valid :: "Instance list \<Rightarrow> nat \<Rightarrow> WeightedRoundRobin \<Rightarrow> bool" where
  "wrr_valid xs k w \<longleftrightarrow> 0 \<le> wrr_current w \<and> 0 \<le> wrr_counter w
     \<and> wrr_current w + int k < 2 ^ 63 \<and> wrr_counter w + int k < 2 ^ 63"

lemma wrr_loop_step:
  assumes "2 \<le> length xs" "wrr_valid xs (Suc k) w"
  defines "n \<equiv> int (length xs)"
  shows "wrr_loop (length xs * 2) (computeWeights xs) w =
    (if wrr_counter w < computeWeights xs ! nat (wrr_current w mod n)
     then (WrrAt (nat (wrr_current w mod n)), w\<lparr>wrr_counter := wrr_counter w + 1\<rparr>)
     else (WrrAt (nat ((wrr_current w + 1) mod n)), \<lparr>wrr_current = wrr_current w + 1, wrr_counter = 1\<rparr>))"
proof -
  obtain m where m: "length xs * 2 = Suc (Suc m)"
    using assms(1) by (metis Suc_le_D mult_2_right add_Suc_shift numeral_2_eq_2 add_Suc)
  have pos: "0 < n" using assms(1) unfolding n_def by linarith
  have idx: "go_index (computeWeights xs) (a smod n) = Some (computeWeights xs ! nat (a mod n))"
    if "0 \<le> a" for a
    using that pos by (simp add: smod_nonneg go_index_def n_def)
  have one: "0 < computeWeights xs ! nat (a mod n)" for a
    using pos computeWeights_pos [of "nat (a mod n)" xs] by (simp add: n_def nat_less_iff)
  have wrap: "i64 (wrr_current w + 1) = wrr_current w + 1" "i64 (wrr_counter w + 1) = wrr_counter w + 1"
    "i64 1 = 1"
    using assms(2) by (simp_all add: wrr_valid_def i64_id)
  have c: "0 \<le> wrr_current w" using assms(2) by (simp add: wrr_valid_def)
  show ?thesis
    unfolding m
    using idx [OF c] idx [of "wrr_current w + 1"] c one wrap pos
    by (simp add: n_def smod_nonneg)
qed

interpretation wrr: weighted_rr "\<lambda>xs. 2 \<le> length xs" length wrr_weight wrr_next wrr_abs wrr_valid
proof unfold_locales
  fix xs :: "Instance list" and k w i w'
  assume a: "2 \<le> length xs" "wrr_valid xs (Suc k) w" "wrr_next xs w = (i, w')"
  have n: "0 < int (length xs)" using a(1) by linarith
  have "wrr_current w mod int (length xs) < int (length xs)" using n by simp
  then have "nat ((wrr_current w + 1) mod int (length xs)) = Suc (nat (wrr_current w mod int (length xs))) mod length xs"
    using n a(2)
    by (simp add: wrr_valid_def nat_mod_distrib Suc_nat_eq_nat_zadd1 mod_simps add.commute)
  with a wrr_loop_step [OF a(1,2)] n show "wrr_abs xs w' = wstep (length xs) (wrr_weight xs) (wrr_abs xs w)
      \<and> i = fst (wrr_abs xs w') \<and> wrr_valid xs k w'"
    by (auto simp: wrr_next_def wrr_abs_def wstep_def wrr_valid_def wrr_weight_def nat_less_eq_zless Suc_nat_eq_nat_zadd1
      split: if_splits)
qed (auto simp: wrr_weight_def dest: computeWeights_pos)

lemma wrr_Pick_next:
  assumes "2 \<le> length xs" "wrr_valid xs (Suc k) w"
  shows "\<exists>i w'. wrr_next xs w = (i, w') \<and> WeightedRoundRobin_Pick w xs = (Picked (xs ! i), w')
    \<and> i < length xs \<and> wrr_valid xs k w'"
proof -
  obtain i w' where l: "wrr_loop (length xs * 2) (computeWeights xs) w = (WrrAt i, w')" "i < length xs"
  proof -
    have "nat (a mod int (length xs)) < length xs" for a
    proof -
      have "0 < int (length xs)" using assms(1) by linarith
      then show ?thesis by (simp add: nat_less_iff)
    qed
    with wrr_loop_step [OF assms] that show thesis by (auto split: if_splits)
  qed
  moreover have "xs \<noteq> []" "length xs \<noteq> 1" using assms(1) by auto
  moreover from l(1) have "wrr_next xs w = (i, w')" by (simp add: wrr_next_def)
  moreover from wrr.pick_step [OF assms this] have "wrr_valid xs k w'" by simp
  ultimately show ?thesis by (simp add: WeightedRoundRobin_Pick_def)
qed

lemma wrr_picks_instances:
  assumes "2 \<le> length xs"
  shows "wrr_valid xs k w \<Longrightarrow> fst (picks (\<lambda>w. WeightedRoundRobin_Pick w xs) k w) =
    map (\<lambda>i. Picked (xs ! i)) (fst (picks (wrr_next xs) k w))"
proof (induction k arbitrary: w)
  case (Suc k)
  obtain i w' where "wrr_next xs w = (i, w')" "WeightedRoundRobin_Pick w xs = (Picked (xs ! i), w')"
      "wrr_valid xs k w'"
    using wrr_Pick_next [OF assms Suc.prems] by (elim exE conjE)
  with Suc.IH [of w'] show ?case by (auto split: prod.splits)
qed simp

subsection \<open>What every strategy promises its caller\<close>

text \<open>One pick per incoming connection, each from the instances that are healthy at that moment.\<close>

fun serve :: "('b \<Rightarrow> Instance list \<Rightarrow> pick \<times> 'b) \<Rightarrow> 'b \<Rightarrow> Instance list list \<Rightarrow> pick list" where
  "serve pick b [] = []"
| "serve pick b (xs # xss) = (case pick b xs of (p, b') \<Rightarrow> p # serve pick b' xss)"

text \<open>\<open>ok k b\<close>: the strategy's own counters stay in range for \<open>k\<close> more picks.\<close>

locale balancer =
  fixes pick :: "'b \<Rightarrow> Instance list \<Rightarrow> pick \<times> 'b"
    and ok :: "nat \<Rightarrow> 'b \<Rightarrow> bool"
  assumes pick_empty: "pick b [] = (NoInstance, b)"
    and pick_member: "ok (Suc k) b \<Longrightarrow> xs \<noteq> [] \<Longrightarrow> length xs < 2 ^ 63 \<Longrightarrow> pick b xs = (p, b') \<Longrightarrow>
      (\<exists>i < length xs. p = Picked (xs ! i)) \<and> ok k b'"
    and ok_less: "ok (Suc k) b \<Longrightarrow> ok k b"
begin

lemma serve_member:
  "ok (length xss) b \<Longrightarrow> \<forall>xs \<in> set xss. length xs < 2 ^ 63 \<Longrightarrow>
     list_all2 (\<lambda>p xs. if xs = [] then p = NoInstance else \<exists>i < length xs. p = Picked (xs ! i)) (serve pick b xss) xss"
proof (induction xss arbitrary: b)
  case (Cons xs xss)
  obtain p b' where p: "pick b xs = (p, b')" by fastforce
  show ?case
  proof (cases "xs = []")
    case True
    with p pick_empty have "p = NoInstance" "b' = b" by auto
    with p True Cons ok_less show ?thesis by auto
  next
    case False
    with pick_member [OF _ False _ p] Cons.prems have "\<exists>i < length xs. p = Picked (xs ! i)" "ok (length xss) b'"
      by auto
    with p False Cons.IH [of b'] Cons.prems show ?thesis by auto
  qed
qed simp

end

text \<open>The instances hold 64-bit counters, and \<^verbatim>\<open>rand.Intn(n)\<close> returns a number below \<open>n\<close>.\<close>

definition bal_ok :: "(nat \<Rightarrow> nat) \<Rightarrow> nat \<Rightarrow> Balancer \<Rightarrow> bool" where
  "bal_ok intn k b \<longleftrightarrow>
     (case b of
        Random \<Rightarrow> \<forall>n > 0. intn n < n
      | WeightedRR w \<Rightarrow> wrr_valid [] k w
      | _ \<Rightarrow> True)"

lemma least_loop_mem: "least_loop key best bound xs = Some y \<Longrightarrow> best = Some y \<or> y \<in> set xs"
  by (induction xs arbitrary: best bound) (auto split: if_splits)

lemma least_pick_mem:
  "xs \<noteq> [] \<Longrightarrow> \<exists>i < length xs.
     (case least_loop key None b xs of None \<Rightarrow> pick_at xs 0 | Some best \<Rightarrow> Picked best) = Picked (xs ! i)"
  using pick_at_nat [of 0 xs]
  by (auto split: option.splits dest!: least_loop_mem simp: in_set_conv_nth)

lemma WeightedRoundRobin_Pick_member:
  assumes "wrr_valid [] (Suc k) w" "xs \<noteq> []" "WeightedRoundRobin_Pick w xs = (p, w')"
  shows "(\<exists>i < length xs. p = Picked (xs ! i)) \<and> wrr_valid [] k w'"
proof (cases "length xs = 1")
  case True
  with assms pick_at_nat [of 0 xs] show ?thesis
    by (auto simp: WeightedRoundRobin_Pick_def wrr_valid_def)
next
  case False
  with assms(2) have n: "2 \<le> length xs" by (cases xs rule: remdups_adj.cases) auto
  have "wrr_valid xs (Suc k) w" using assms(1) by (simp add: wrr_valid_def)
  from wrr_Pick_next [OF n this] assms(3) show ?thesis by (auto simp: wrr_valid_def)
qed

lemma Pick_member:
  assumes "bal_ok intn (Suc k) b" "xs \<noteq> []" "length xs < 2 ^ 63" "Pick intn b xs = (p, b')"
  shows "(\<exists>i < length xs. p = Picked (xs ! i)) \<and> bal_ok intn k b'"
proof (cases b)
  case (RoundRobin c)
  moreover have "unat c mod length xs < length xs" using assms(2) by simp
  ultimately show ?thesis
    using assms by (auto simp: RoundRobin_Pick_nth bal_ok_def intro!: exI [of _ "unat c mod length xs"])
next
  case (WeightedRR w)
  with assms WeightedRoundRobin_Pick_member [of k w xs] show ?thesis
    by (auto simp: bal_ok_def split: prod.splits)
next
  case Random
  with assms pick_at_nat [of "intn (length xs)" xs] show ?thesis
    by (auto simp: bal_ok_def Random_Pick_def)
next
  case LeastPing
  with assms least_pick_mem [of xs ping_key max_i64] show ?thesis
    by (auto simp: bal_ok_def LeastPing_Pick_def)
next
  case LeastLoad
  with assms least_pick_mem [of xs inst_activeConns max_i64] show ?thesis
    by (auto simp: bal_ok_def LeastLoad_Pick_def)
qed

interpretation bal: balancer "Pick intn" "bal_ok intn" for intn
proof unfold_locales
  fix b show "Pick intn b [] = (NoInstance, b)"
    by (cases b) (simp_all add: RoundRobin_Pick_def Random_Pick_def LeastPing_Pick_def LeastLoad_Pick_def
      WeightedRoundRobin_Pick_def)
next
  fix k b assume "bal_ok intn (Suc k) b" then show "bal_ok intn k b"
    by (cases b) (auto simp: bal_ok_def wrr_valid_def)
qed (rule Pick_member)

subsection \<open>Properties\<close>

text \<open>
  Balancing is safe for every strategy name: over any sequence of fleets, as many as the counters can count,
  each request is given nil exactly when no instance is offered, and otherwise an instance that
  was offered; no strategy indexes out of range.
\<close>

theorem balancer_serves:
  assumes "\<forall>n > 0. intn n < n" and "int (length xss) < max_i64" and "\<forall>xs \<in> set xss. length xs < 2 ^ 63"
  shows "list_all2 (\<lambda>p xs. if xs = [] then p = NoInstance else \<exists>inst \<in> set xs. p = Picked inst)
    (serve (Pick intn) (New strategy) xss) xss"
proof -
  have "bal_ok intn (length xss) (New strategy)"
    using assms(1,2) by (auto simp: New_def bal_ok_def wrr_valid_def max_i64_def)
  from bal.serve_member [OF this assms(3)] show ?thesis
    by (rule list_all2_mono) (auto split: if_splits)
qed

definition instance_named :: "string \<Rightarrow> int \<Rightarrow> int \<Rightarrow> Instance" where
  "instance_named name ping load =
     (NewInstance 0 \<lparr>ei_Domain = name, ei_Resolver = [], ei_Port = 1, ei_Mode = ''socks'',
        ei_Authoritative = False, ei_Cert = [], ei_SSHPort = 0, ei_SSHUser = [], ei_SSHPassword = [],
        ei_SSHKey = [], ei_OriginalIndex = 0, ei_ReplicaIndex = 0\<rparr> [] 65536)
     \<lparr>inst_lastPingMs := ping, inst_activeConns := load, inst_state := StateHealthy\<rparr>"

theorem balancer_serves_witness:
  "list_all2 (\<lambda>p xs. if xs = [] then p = NoInstance else \<exists>inst \<in> set xs. p = Picked inst)
    (serve (Pick (\<lambda>_. 0)) (New ''random'') [[instance_named ''a'' 10 0], []]) [[instance_named ''a'' 10 0], []]"
  by (rule balancer_serves) (simp_all add: max_i64_def)

text \<open>
  Round robin: as many consecutive picks as there are instances visit every instance once, in
  order, starting where the counter stands.
\<close>

theorem RoundRobin_fair:
  assumes "xs \<noteq> []" "unat c + length xs < 2 ^ 64"
  shows "fst (picks (\<lambda>c. RoundRobin_Pick c xs) (length xs) c) = map Picked (rotate (unat c mod length xs) xs)"
  using assms RoundRobin_picks [of xs c "length xs"] map_mod_rotate [of xs "unat c", symmetric]
  by (simp add: o_def)

theorem RoundRobin_fair_witness:
  "fst (picks (\<lambda>c. RoundRobin_Pick c [instance_named ''a'' 1 0, instance_named ''b'' 1 0]) (Suc (Suc 0)) 1) =
     [Picked (instance_named ''b'' 1 0), Picked (instance_named ''a'' 1 0)]"
proof -
  have r: "unat (1 :: u64) mod length [a, b] = Suc 0" for a b :: Instance by simp
  have "unat (1 :: u64) + length [a, b] < 2 ^ 64" for a b :: Instance by simp
  from RoundRobin_fair [OF _ this, unfolded r] show ?thesis
    by (simp del: picks.simps)
qed

text \<open>
  Least load and least ping: the pick is the first instance whose load (or measured latency, an unmeasured
  one counting as the highest) is minimal.
\<close>

theorem least_picks_minimal:
  assumes "xs \<noteq> []" "\<forall>x \<in> set xs. inst_activeConns x \<le> max_i64 \<and> inst_lastPingMs x \<le> max_i64"
  shows "(\<exists>i. first_min inst_activeConns xs i \<and> LeastLoad_Pick xs = Picked (xs ! i))
    \<and> (\<exists>i. first_min ping_key xs i \<and> LeastPing_Pick xs = Picked (xs ! i))"
proof -
  have "\<forall>x \<in> set xs. ping_key x \<le> max_i64" using assms(2) by (auto simp: ping_key_def)
  with least_pick [OF assms(1), of inst_activeConns] least_pick [OF assms(1), of ping_key] assms
  show ?thesis by (simp add: LeastLoad_Pick_def LeastPing_Pick_def)
qed

theorem least_picks_minimal_witness:
  "\<exists>i. first_min ping_key [instance_named ''a'' 0 1, instance_named ''b'' 30 2] i
     \<and> LeastPing_Pick [instance_named ''a'' 0 1, instance_named ''b'' 30 2] =
         Picked ([instance_named ''a'' 0 1, instance_named ''b'' 30 2] ! i)"
  using least_picks_minimal [of "[instance_named ''a'' 0 1, instance_named ''b'' 30 2]"]
  by (simp add: instance_named_def max_i64_def)

text \<open>
  C40. Weighted round robin: from the initial state, and while the counters do not overflow, the
  picks run through turn after turn in which every instance appears consecutively and exactly as
  often as its weight; the fall-back after the loop is never taken.
\<close>

theorem WeightedRoundRobin_fair:
  assumes "2 \<le> length xs" "int (r * sum (wrr_weight xs) {0..<length xs}) < max_i64"
  shows "fst (picks (\<lambda>w. WeightedRoundRobin_Pick w xs) (r * sum (wrr_weight xs) {0..<length xs})
        \<lparr>wrr_current = 0, wrr_counter = 0\<rparr>)
      = map (\<lambda>i. Picked (xs ! i)) (concat (replicate r (full_turn (length xs) (wrr_weight xs))))"
proof -
  let ?w = "\<lparr>wrr_current = 0, wrr_counter = 0\<rparr>"
  have v: "wrr_valid xs (r * sum (wrr_weight xs) {0..<length xs}) ?w"
    using assms(2) by (simp add: wrr_valid_def max_i64_def)
  moreover have "wrr.ready xs 0 ?w" by (intro wrr.ready_start [OF assms(1)]) (simp add: wrr_abs_def)
  ultimately show ?thesis using wrr.picks_turns [OF assms(1)] wrr_picks_instances [OF assms(1)] by simp
qed

theorem WeightedRoundRobin_fair_witness:
  "fst (picks (\<lambda>w. WeightedRoundRobin_Pick w [instance_named ''a'' 20 0, instance_named ''b'' 60 0]) 4
      \<lparr>wrr_current = 0, wrr_counter = 0\<rparr>)
     = map Picked [instance_named ''a'' 20 0, instance_named ''a'' 20 0, instance_named ''a'' 20 0,
         instance_named ''b'' 60 0]"
proof -
  let ?a = "instance_named ''a'' 20 0" and ?b = "instance_named ''b'' 60 0"
  have w: "wrr_weight [?a, ?b] 0 = 3" "wrr_weight [?a, ?b] (Suc 0) = 1"
    by (simp_all add: wrr_weight_def computeWeights_def instance_named_def sdiv_nonneg)
  have t: "full_turn (length [?a, ?b]) (wrr_weight [?a, ?b]) = [0, 0, 0, 1]"
    and s: "1 * sum (wrr_weight [?a, ?b]) {0..<length [?a, ?b]} = 4"
    using w by (simp_all add: full_turn_def numeral_eq_Suc)
  show ?thesis
    using WeightedRoundRobin_fair [of "[?a, ?b]" 1, unfolded s t] by (simp add: max_i64_def)
qed

end
