(* ===== verification/Users.thy ===== *)
theory Users
  imports Configuration
begin

text \<open>
  \<^verbatim>\<open>internal/users\<close>: a user's quota, IP limit and cooldown (\<^verbatim>\<open>user.go\<close>), the user table
  (\<^verbatim>\<open>manager.go\<close>) and the counting, rate-limited reader and writer (\<^verbatim>\<open>io.go\<close>).  Clock readings are
  arguments.  The token bucket of \<^verbatim>\<open>golang.org/x/time/rate\<close> is its limit and burst; waiting for
  tokens takes time and changes nothing the code reads.  The reason of a denial keeps the values
  of the message.
\<close>

subsection \<open>Users\<close>

record Limiter =
  lim_limit :: int
  lim_burst :: int

record User =
  user_Config :: UserConfig
  user_limiter :: "Limiter option"
  user_usedBytes :: int
  user_dataLimit :: int
  user_activeIPs :: "(string, int) gomap"
  user_cooldownIPs :: "(string, time) gomap"
  user_ipLimit :: int

datatype denial = QuotaExceeded int int | IPCooldown duration | IPLimitReached nat int

definition cooldown :: duration where
  "cooldown = 10 * second"

definition activeCount :: "User \<Rightarrow> string \<Rightarrow> int" where
  "activeCount u ip = (case gm_get (user_activeIPs u) ip of None \<Rightarrow> 0 | Some n \<Rightarrow> n)"

definition CheckConnect :: "time \<Rightarrow> string \<Rightarrow> User \<Rightarrow> denial option \<times> User" where
  "CheckConnect now clientIP u =
     (if user_dataLimit u > 0 \<and> user_usedBytes u \<ge> user_dataLimit u
      then (Some (QuotaExceeded (user_usedBytes u) (user_dataLimit u)), u)
      else if user_ipLimit u \<le> 0 then (None, u)
      else
        let u' = u\<lparr>user_cooldownIPs := gm_filter (\<lambda>ip t. \<not> time_sub now t > cooldown) (user_cooldownIPs u)\<rparr>
        in if activeCount u' clientIP > 0 then (None, u')
           else case gm_get (user_cooldownIPs u') clientIP of
                  Some disconnectTime \<Rightarrow> (Some (IPCooldown (i64 (cooldown - time_sub now disconnectTime))), u')
                | None \<Rightarrow>
                    if int (gm_len (user_activeIPs u')) \<ge> user_ipLimit u'
                    then (Some (IPLimitReached (gm_len (user_activeIPs u')) (user_ipLimit u')), u')
                    else (None, u'))"

definition MarkConnect :: "string \<Rightarrow> User \<Rightarrow> User" where
  "MarkConnect clientIP u =
     u\<lparr>user_activeIPs := gm_put clientIP (i64 (activeCount u clientIP + 1)) (user_activeIPs u),
       user_cooldownIPs := gm_del clientIP (user_cooldownIPs u)\<rparr>"

definition MarkDisconnect :: "time \<Rightarrow> string \<Rightarrow> User \<Rightarrow> User" where
  "MarkDisconnect now clientIP u =
     (let n = i64 (activeCount u clientIP - 1);
          u1 = u\<lparr>user_activeIPs := gm_put clientIP n (user_activeIPs u)\<rparr>
      in if n \<le> 0
         then let u2 = u1\<lparr>user_activeIPs := gm_del clientIP (user_activeIPs u1)\<rparr>
              in if user_ipLimit u2 > 0
                 then u2\<lparr>user_cooldownIPs := gm_put clientIP now (user_cooldownIPs u2)\<rparr> else u2
         else u1)"

definition AddUsedBytes :: "int \<Rightarrow> User \<Rightarrow> User" where
  "AddUsedBytes n u = u\<lparr>user_usedBytes := i64 (user_usedBytes u + n)\<rparr>"

definition ResetUsedBytes :: "User \<Rightarrow> User" where
  "ResetUsedBytes u = u\<lparr>user_usedBytes := 0\<rparr>"

definition NeedsRateLimit :: "User \<Rightarrow> bool" where
  "NeedsRateLimit u \<longleftrightarrow> user_limiter u \<noteq> None"

record UserStatus =
  us_Username :: string
  us_BandwidthLimit :: int
  us_BandwidthUnit :: string
  us_DataLimit :: int
  us_DataUnit :: string
  us_DataUsedBytes :: int
  us_IPLimit :: int
  us_ActiveIPs :: nat

definition User_Status :: "User \<Rightarrow> UserStatus" where
  "User_Status u =
     \<lparr>us_Username = uc_Username (user_Config u), us_BandwidthLimit = uc_BandwidthLimit (user_Config u),
      us_BandwidthUnit = uc_BandwidthUnit (user_Config u), us_DataLimit = uc_DataLimit (user_Config u),
      us_DataUnit = uc_DataUnit (user_Config u), us_DataUsedBytes = user_usedBytes u,
      us_IPLimit = user_ipLimit u, us_ActiveIPs = gm_len (user_activeIPs u)\<rparr>"

subsection \<open>The user table\<close>

record UserManager =
  um_users :: "(string, User) gomap"
  um_ordering :: "string list"

definition new_limiter :: "int \<Rightarrow> Limiter option" where
  "new_limiter bps =
     (if bps > 0
      then let b1 = (if bps > 65536 then 65536 else bps);
               burst = (if b1 < 4096 then 4096 else b1)
           in Some \<lparr>lim_limit = bps, lim_burst = burst\<rparr>
      else None)"

definition new_user :: "UserConfig \<Rightarrow> User" where
  "new_user cu =
     \<lparr>user_Config = cu, user_limiter = new_limiter (BandwidthBytesPerSec cu), user_usedBytes = 0,
      user_dataLimit = DataLimitBytes cu, user_activeIPs = [], user_cooldownIPs = [],
      user_ipLimit = uc_IPLimit cu\<rparr>"

definition NewUserManager :: "UserConfig list \<Rightarrow> UserManager" where
  "NewUserManager cfgUsers =
     foldl (\<lambda>m cu. m\<lparr>um_users := gm_put (uc_Username cu) (new_user cu) (um_users m),
                     um_ordering := um_ordering m @ [uc_Username cu]\<rparr>)
       \<lparr>um_users = [], um_ordering = []\<rparr> cfgUsers"

definition HasUsers :: "UserManager \<Rightarrow> bool" where
  "HasUsers m \<longleftrightarrow> gm_len (um_users m) > 0"

definition Authenticate :: "string \<Rightarrow> string \<Rightarrow> UserManager \<Rightarrow> User option" where
  "Authenticate username password m =
     (case gm_get (um_users m) username of
        None \<Rightarrow> None
      | Some u \<Rightarrow> if uc_Password (user_Config u) \<noteq> password then None else Some u)"

definition AllUsers :: "UserManager \<Rightarrow> User list" where
  "AllUsers m = List.map_filter (gm_get (um_users m)) (um_ordering m)"

definition GetUser :: "string \<Rightarrow> UserManager \<Rightarrow> User option" where
  "GetUser username m = gm_get (um_users m) username"

subsection \<open>Counting and limiting traffic\<close>

text \<open>The host of a remote address, by which the connections of a user are counted.\<close>

definition ExtractIP :: "string \<Rightarrow> string" where
  "ExtractIP addr = (case SplitHostPort addr of None \<Rightarrow> addr | Some (host, port) \<Rightarrow> host)"

text \<open>A wrapped read returns at most as many bytes as asked for, and maybe an error.\<close>

definition trackingWriter_Write :: "write_outcome \<Rightarrow> bytes \<Rightarrow> User \<Rightarrow> (nat \<times> io_error option) \<times> User" where
  "trackingWriter_Write out p u =
     (let (n, err) = inner_write out p in ((n, err), if n > 0 then AddUsedBytes (int n) u else u))"

definition trackingReader_Read ::
  "bytes \<Rightarrow> io_error option \<Rightarrow> nat \<Rightarrow> User \<Rightarrow> (bytes \<times> io_error option) \<times> User" where
  "trackingReader_Read available err len u =
     (let p = take len available in ((p, err), if p \<noteq> [] then AddUsedBytes (int (length p)) u else u))"

definition rateLimitedReader_Read ::
  "Limiter \<Rightarrow> bytes \<Rightarrow> io_error option \<Rightarrow> nat \<Rightarrow> User \<Rightarrow> (bytes \<times> io_error option) \<times> User" where
  "rateLimitedReader_Read lim available err len u =
     (let burst = lim_burst lim;
          len' = (if burst > 0 \<and> int len > burst then nat burst else len);
          p = take len' available
      in ((p, err), if p \<noteq> [] then AddUsedBytes (int (length p)) u else u))"

text \<open>
  The loop of the rate-limited writer: \<open>out i\<close> is the outcome of the \<open>i\<close>-th inner write; the result has
  the pieces that were handed on.
\<close>

definition next_chunk :: "int \<Rightarrow> bytes \<Rightarrow> nat" where
  "next_chunk burst p = (if burst > 0 \<and> int (length p) > burst then nat burst else length p)"

lemma next_chunk_bounds: "p \<noteq> [] \<Longrightarrow> 0 < next_chunk burst p \<and> next_chunk burst p \<le> length p"
  by (auto simp: next_chunk_def)

function rateLimitedWriter_Write ::
  "int \<Rightarrow> (nat \<Rightarrow> write_outcome) \<Rightarrow> nat \<Rightarrow> bytes \<Rightarrow> bytes list \<Rightarrow> nat \<Rightarrow> User
     \<Rightarrow> (nat \<times> io_error option) \<times> bytes list \<times> User" where
  "rateLimitedWriter_Write burst out i p sent tot u =
     (if p = [] then ((tot, None), sent, u)
      else
        let chunk = next_chunk burst p;
            (n, err) = inner_write (out i) (take chunk p);
            u' = (if n > 0 then AddUsedBytes (int n) u else u);
            sent' = sent @ [take n p]
        in case err of
             Some e \<Rightarrow> ((tot + n, Some e), sent', u')
           | None \<Rightarrow> rateLimitedWriter_Write burst out (Suc i) (drop n p) sent' (tot + n) u')"
  by pat_completeness auto
termination
proof (relation "measure (\<lambda>(burst, out, i, p, sent, tot, u). length p)")
  fix burst :: int and i tot n chunk :: nat and out p sent u x err u' sent'
  assume "p \<noteq> []" "chunk = next_chunk burst p" "x = inner_write (out i) (take chunk p)" "(n, err) = x" "err = None"
  then have "n = chunk" "0 < chunk"
    using next_chunk_bounds [of p burst] by (auto simp: inner_write_def split: write_outcome.splits)
  with \<open>p \<noteq> []\<close> show "((burst, out, Suc i, drop n p, sent', tot + n, u'), burst, out, i, p, sent, tot, u)
      \<in> measure (\<lambda>(burst, out, i, p, sent, tot, u). length p)" by simp
qed simp

declare rateLimitedWriter_Write.simps [simp del]

text \<open>The reader and the writer that a connection of the user goes through; a write also gives the pieces that went out.\<close>

definition WrapReader :: "User \<Rightarrow> bytes \<Rightarrow> io_error option \<Rightarrow> nat \<Rightarrow> User \<Rightarrow> (bytes \<times> io_error option) \<times> User" where
  "WrapReader u = (case user_limiter u of None \<Rightarrow> trackingReader_Read | Some lim \<Rightarrow> rateLimitedReader_Read lim)"

definition WrapWriter ::
  "User \<Rightarrow> (nat \<Rightarrow> write_outcome) \<Rightarrow> bytes \<Rightarrow> User \<Rightarrow> (nat \<times> io_error option) \<times> bytes list \<times> User" where
  "WrapWriter u out p v =
     (case user_limiter u of
        None \<Rightarrow> (case trackingWriter_Write (out 0) p v of (r, v') \<Rightarrow> (r, [take (fst r) p], v'))
      | Some lim \<Rightarrow> rateLimitedWriter_Write (lim_burst lim) out 0 p [] 0 v)"

subsection \<open>The contract of access control\<close>

text \<open>
  What the proxy relies on: \<open>active u ip\<close> counts the connections of an address that were marked and
  not unmarked, a successful check of an inactive address means that the limit is not reached.
\<close>

locale access_control =
  fixes check :: "time \<Rightarrow> string \<Rightarrow> 'u \<Rightarrow> 'd option \<times> 'u"
    and mark :: "string \<Rightarrow> 'u \<Rightarrow> 'u"
    and leave :: "time \<Rightarrow> string \<Rightarrow> 'u \<Rightarrow> 'u"
    and active :: "'u \<Rightarrow> string \<Rightarrow> nat"
    and limit :: "'u \<Rightarrow> int"
    and ok :: "'u \<Rightarrow> bool"
  assumes finite_active: "ok u \<Longrightarrow> finite {j. 0 < active u j}"
    and check_keeps: "ok u \<Longrightarrow> check now ip u = (r, u') \<Longrightarrow> ok u' \<and> active u' = active u \<and> limit u' = limit u"
    and check_limit: "ok u \<Longrightarrow> check now ip u = (None, u') \<Longrightarrow> 0 < limit u \<Longrightarrow> active u ip = 0 \<Longrightarrow>
      int (card {j. 0 < active u j}) < limit u"
    and mark_counts: "ok u \<Longrightarrow> int (active u ip) < max_i64 \<Longrightarrow>
      ok (mark ip u) \<and> active (mark ip u) = (active u)(ip := Suc (active u ip)) \<and> limit (mark ip u) = limit u"
    and leave_counts: "ok u \<Longrightarrow> 0 < active u ip \<Longrightarrow> int (active u ip) < 2 ^ 63 \<Longrightarrow>
      ok (leave now ip u) \<and> active (leave now ip u) = (active u)(ip := active u ip - 1)
      \<and> limit (leave now ip u) = limit u"

text \<open>
  The handler of a connection checks, marks and, when it ends, unmarks.  A sequence of such events,
  each completed before the next, with the addresses of the live connections.
\<close>

datatype session_event = Arrive time string | Depart time string

fun sessions ::
  "(time \<Rightarrow> string \<Rightarrow> 'u \<Rightarrow> 'd option \<times> 'u) \<Rightarrow> (string \<Rightarrow> 'u \<Rightarrow> 'u) \<Rightarrow> (time \<Rightarrow> string \<Rightarrow> 'u \<Rightarrow> 'u)
     \<Rightarrow> session_event list \<Rightarrow> 'u \<times> string list \<Rightarrow> 'u \<times> string list" where
  "sessions check mark leave [] s = s"
| "sessions check mark leave (Arrive now ip # evs) (u, live) =
     (case check now ip u of
        (None, u') \<Rightarrow> sessions check mark leave evs (mark ip u', ip # live)
      | (Some d, u') \<Rightarrow> sessions check mark leave evs (u', live))"
| "sessions check mark leave (Depart now ip # evs) (u, live) =
     (if ip \<in> set live then sessions check mark leave evs (leave now ip u, remove1 ip live)
      else sessions check mark leave evs (u, live))"

context access_control
begin

definition counted :: "int \<Rightarrow> 'u \<times> string list \<Rightarrow> bool" where
  "counted l s \<longleftrightarrow> ok (fst s) \<and> active (fst s) = count_list (snd s) \<and> limit (fst s) = l
     \<and> (0 < l \<longrightarrow> int (card (set (snd s))) \<le> l)"

lemma active_set: "active u = count_list live \<Longrightarrow> {j. 0 < active u j} = set live"
  by (metis (mono_tags) Collect_cong Collect_mem_eq count_list_0_iff gr0I less_numeral_extra(3))

lemma counted_arrive:
  assumes "counted l (u, live)" "check now ip u = (None, u')" "int (length live) < max_i64"
  shows "counted l (mark ip u', ip # live)"
proof -
  have u: "ok u" "active u = count_list live" "limit u = l" using assms(1) by (auto simp: counted_def)
  have u': "ok u'" "active u' = active u" "limit u' = limit u"
    using check_keeps [OF u(1) assms(2)] by auto
  have "int (active u' ip) < max_i64"
    using assms(3) u u' count_le_length [of live ip] by simp
  with mark_counts [OF u'(1)] have m: "ok (mark ip u')"
      "active (mark ip u') = (active u)(ip := Suc (active u ip))" "limit (mark ip u') = limit u"
    using u' by auto
  moreover have "active (mark ip u') = count_list (ip # live)" using m(2) u(2) by auto
  moreover have "int (card (set (ip # live))) \<le> l" if pos: "0 < l"
  proof (cases "ip \<in> set live")
    case True with assms(1) pos show ?thesis by (simp add: counted_def insert_absorb)
  next
    case False
    then have "active u ip = 0" using u(2) by (simp add: count_list_0_iff)
    with check_limit [OF u(1) assms(2)] active_set [OF u(2)] False pos u(3) show ?thesis by simp
  qed
  ultimately show ?thesis using u(3) by (simp add: counted_def)
qed

lemma count_list_remove1: "count_list (remove1 x xs) y = (if y = x then count_list xs y - 1 else count_list xs y)"
  by (induction xs) (auto simp: Suc_diff_le count_list_0_iff gr0_conv_Suc)

lemma counted_depart:
  assumes "counted l (u, live)" "ip \<in> set live" "int (length live) < 2 ^ 63"
  shows "counted l (leave now ip u, remove1 ip live)"
proof -
  have u: "ok u" "active u = count_list live" "limit u = l" using assms(1) by (auto simp: counted_def)
  have "0 < active u ip" using u(2) assms(2) count_list_0_iff [of live ip] by simp
  moreover have "int (active u ip) < 2 ^ 63" using assms(3) u count_le_length [of live ip] by simp
  ultimately have l: "ok (leave now ip u)" "active (leave now ip u) = (active u)(ip := active u ip - 1)"
      "limit (leave now ip u) = limit u"
    using leave_counts [OF u(1)] by auto
  moreover have "card (set (remove1 ip live)) \<le> card (set live)"
    by (intro card_mono) (simp_all add: set_remove1_subset)
  ultimately show ?thesis
    using assms(1) u by (auto simp: counted_def count_list_remove1)
qed

lemma sessions_counted:
  "counted l (u, live) \<Longrightarrow> int (length live + length evs) < max_i64 \<Longrightarrow>
     counted l (sessions check mark leave evs (u, live))"
proof (induction evs arbitrary: u live)
  case (Cons e evs)
  show ?case
  proof (cases e)
    case (Arrive now ip)
    obtain r u' where c: "check now ip u = (r, u')" by fastforce
    show ?thesis
    proof (cases r)
      case None
      with c Arrive Cons.IH [of "mark ip u'" "ip # live"] Cons.prems counted_arrive show ?thesis by simp
    next
      case (Some d)
      have "counted l (u', live)"
        using check_keeps [OF _ c] Cons.prems(1) by (auto simp: counted_def)
      with c Some Arrive Cons show ?thesis by simp
    qed
  next
    case (Depart now ip)
    show ?thesis
    proof (cases "ip \<in> set live")
      case True
      with Depart Cons.IH [of "leave now ip u" "remove1 ip live"] Cons.prems counted_depart [of l u live ip]
      show ?thesis by (simp add: length_remove1 max_i64_def)
    qed (use Depart Cons in simp)
  qed
qed simp

end

subsection \<open>Users keep the contract\<close>

definition user_ok :: "User \<Rightarrow> bool" where
  "user_ok u \<longleftrightarrow> gm_ok (user_activeIPs u) \<and> gm_ok (user_cooldownIPs u)
     \<and> (\<forall>ip n. gm_get (user_activeIPs u) ip = Some n \<longrightarrow> 0 < n)"

definition user_active :: "User \<Rightarrow> string \<Rightarrow> nat" where
  "user_active u ip = nat (activeCount u ip)"

lemma user_active_pos: "user_ok u \<Longrightarrow> 0 < user_active u ip \<longleftrightarrow> ip \<in> dom (gm_get (user_activeIPs u))"
  by (auto simp: user_active_def activeCount_def user_ok_def split: option.splits)

lemma user_active_set: "user_ok u \<Longrightarrow> {j. 0 < user_active u j} = dom (gm_get (user_activeIPs u))"
  using user_active_pos by auto

lemma activeCount_pos: "user_ok u \<Longrightarrow> 0 \<le> activeCount u ip"
  by (auto simp: activeCount_def user_ok_def split: option.splits dest: order_less_imp_le)

lemma MarkConnect_counts:
  assumes "user_ok u" "int (user_active u ip) < max_i64"
  shows "user_ok (MarkConnect ip u)" "user_active (MarkConnect ip u) = (user_active u)(ip := Suc (user_active u ip))"
proof -
  have i: "i64 (activeCount u ip + 1) = activeCount u ip + 1"
    using assms activeCount_pos [OF assms(1), of ip] by (intro i64_id) (simp_all add: user_active_def max_i64_def)
  then show "user_ok (MarkConnect ip u)"
    using assms activeCount_pos [OF assms(1), of ip] by (auto simp: user_ok_def MarkConnect_def)
  show "user_active (MarkConnect ip u) = (user_active u)(ip := Suc (user_active u ip))"
    using i activeCount_pos [OF assms(1)]
    by (auto simp: user_active_def activeCount_def [of "MarkConnect ip u"] MarkConnect_def fun_eq_iff
        Suc_nat_eq_nat_zadd1 add.commute activeCount_def)
qed

lemma MarkDisconnect_counts:
  assumes "user_ok u" "0 < user_active u ip" "int (user_active u ip) < 2 ^ 63"
  shows "user_ok (MarkDisconnect now ip u)"
    "user_active (MarkDisconnect now ip u) = (user_active u)(ip := user_active u ip - 1)"
proof -
  have i: "i64 (activeCount u ip - 1) = activeCount u ip - 1"
    using assms by (intro i64_id) (simp_all add: user_active_def)
  then show "user_ok (MarkDisconnect now ip u)"
    using assms by (auto simp: user_ok_def MarkDisconnect_def Let_def)
  show "user_active (MarkDisconnect now ip u) = (user_active u)(ip := user_active u ip - 1)"
    using i assms(2)
    by (auto simp: user_active_def activeCount_def [of "MarkDisconnect now ip u"] MarkDisconnect_def Let_def fun_eq_iff
        activeCount_def)
qed

lemma CheckConnect_keeps:
  assumes "user_ok u" "CheckConnect now ip u = (r, u')"
  shows "user_ok u' \<and> user_activeIPs u' = user_activeIPs u \<and> user_ipLimit u' = user_ipLimit u"
  using assms by (auto simp: CheckConnect_def Let_def user_ok_def split: if_splits option.splits)

lemma CheckConnect_limit:
  assumes "user_ok u" "CheckConnect now ip u = (None, u')" "0 < user_ipLimit u" "user_active u ip = 0"
  shows "int (gm_len (user_activeIPs u)) < user_ipLimit u"
  using assms by (auto simp: CheckConnect_def Let_def user_active_def activeCount_def split: if_splits option.splits)

interpretation users: access_control CheckConnect MarkConnect MarkDisconnect user_active user_ipLimit user_ok
proof unfold_locales
  fix u :: User and now ip r u'
  assume u: "user_ok u"
  show "finite {j. 0 < user_active u j}" by (simp add: user_active_set [OF u] gm.finite_dom)
  show "user_ok u' \<and> user_active u' = user_active u \<and> user_ipLimit u' = user_ipLimit u"
    if "CheckConnect now ip u = (r, u')"
    using CheckConnect_keeps [OF u that] by (auto simp: user_active_def activeCount_def)
  show "int (card {j. 0 < user_active u j}) < user_ipLimit u"
    if "CheckConnect now ip u = (None, u')" "0 < user_ipLimit u" "user_active u ip = 0"
    using CheckConnect_limit [OF u that] u by (simp add: user_active_set gm.len_dom user_ok_def)
qed (use MarkConnect_counts MarkDisconnect_counts in
    \<open>auto simp: MarkConnect_def MarkDisconnect_def Let_def\<close>)

subsection \<open>The writer and the table\<close>

lemma AddUsedBytes_add:
  "user_usedBytes u = i64 (user_usedBytes u) \<Longrightarrow>
     user_usedBytes (if n > 0 then AddUsedBytes (int n) u else u) = i64 (user_usedBytes u + int n)"
  by (simp add: AddUsedBytes_def)

lemma rateLimitedWriter_Write_spec:
  assumes "rateLimitedWriter_Write burst out i p sent tot u = ((tot', err), sent', u')"
    and "user_usedBytes u = i64 (user_usedBytes u)"
  shows "\<exists>k cs. tot' = tot + k \<and> sent' = sent @ cs \<and> concat cs = take k p \<and> k \<le> length p
    \<and> (err = None \<longrightarrow> k = length p) \<and> (0 < burst \<longrightarrow> (\<forall>c \<in> set cs. int (length c) \<le> burst))
    \<and> user_usedBytes u' = i64 (user_usedBytes u + int k)"
  using assms
proof (induction burst out i p sent tot u rule: rateLimitedWriter_Write.induct)
  case (1 burst out i p sent tot u)
  show ?case
  proof (cases "p = []")
    case True
    with "1.prems" show ?thesis
      by (intro exI [of _ 0] exI [of _ "[]"]) (auto simp: rateLimitedWriter_Write.simps [of _ _ _ "[]"])
  next
    case False
    define chunk where "chunk = next_chunk burst p"
    obtain n e where w: "inner_write (out i) (take chunk p) = (n, e)" by fastforce
    have ch: "0 < chunk" "chunk \<le> length p" "0 < burst \<longrightarrow> int chunk \<le> burst"
      using False by (auto simp: chunk_def next_chunk_def)
    have n: "n \<le> chunk" "e = None \<longrightarrow> n = chunk"
      using w ch(2) by (auto simp: inner_write_def split: write_outcome.splits)
    let ?u = "if n > 0 then AddUsedBytes (int n) u else u"
    have used: "user_usedBytes ?u = i64 (user_usedBytes u + int n)"
      using AddUsedBytes_add [OF "1.prems"(2)] .
    have step: "rateLimitedWriter_Write burst out i p sent tot u =
        (case e of Some e \<Rightarrow> ((tot + n, Some e), sent @ [take n p], ?u)
         | None \<Rightarrow> rateLimitedWriter_Write burst out (Suc i) (drop n p) (sent @ [take n p]) (tot + n) ?u)"
      using False w by (simp add: rateLimitedWriter_Write.simps [of burst out i p] Let_def flip: chunk_def)
    have piece: "0 < burst \<longrightarrow> int (length (take n p)) \<le> burst" using n(1) ch by auto
    show ?thesis
    proof (cases e)
      case (Some x)
      with step "1.prems"(1) used n ch piece show ?thesis
        by (intro exI [of _ n] exI [of _ "[take n p]"]) auto
    next
      case None
      with step "1.prems"(1) have r: "rateLimitedWriter_Write burst out (Suc i) (drop n p)
          (sent @ [take n p]) (tot + n) ?u = ((tot', err), sent', u')" by simp
      have "user_usedBytes ?u = i64 (user_usedBytes ?u)"
        unfolding used using i64_add_left [of "user_usedBytes u + int n" 0] by simp
      from "1.IH" [OF False chunk_def w [symmetric] refl refl refl None r this]
      obtain k cs where k: "tot' = tot + n + k" "sent' = (sent @ [take n p]) @ cs" "concat cs = take k (drop n p)"
          "k \<le> length (drop n p)" "err = None \<longrightarrow> k = length (drop n p)"
          "0 < burst \<longrightarrow> (\<forall>c \<in> set cs. int (length c) \<le> burst)"
          "user_usedBytes u' = i64 (user_usedBytes ?u + int k)"
        by (elim exE conjE)
      have "user_usedBytes u' = i64 (user_usedBytes u + int (n + k))"
        using k(7) unfolding used by (simp add: i64_add_left add.assoc)
      moreover have "concat (take n p # cs) = take (n + k) p" using k(3) by (simp add: take_add)
      ultimately show ?thesis
        using k piece ch n by (intro exI [of _ "n + k"] exI [of _ "take n p # cs"]) auto
    qed
  qed
qed

lemma NewUserManager_snoc:
  "NewUserManager (cfgs @ [cu]) =
     \<lparr>um_users = gm_put (uc_Username cu) (new_user cu) (um_users (NewUserManager cfgs)),
      um_ordering = um_ordering (NewUserManager cfgs) @ [uc_Username cu]\<rparr>"
  by (simp add: NewUserManager_def)

text \<open>A later entry of the same name replaces an earlier one.\<close>

lemma NewUserManager_get:
  "gm_get (um_users (NewUserManager cfgs)) name =
     map_option new_user (find (\<lambda>cu. uc_Username cu = name) (rev cfgs))"
proof (induction cfgs rule: rev_induct)
  case Nil
  show ?case by (simp add: NewUserManager_def)
qed (simp add: NewUserManager_snoc)

lemma NewUserManager_ordering: "um_ordering (NewUserManager cfgs) = map uc_Username cfgs"
proof (induction cfgs rule: rev_induct)
  case Nil
  show ?case by (simp add: NewUserManager_def)
qed (simp add: NewUserManager_snoc)

lemma new_user_ok: "user_ok (new_user cu)" "user_active (new_user cu) ip = 0" "user_ipLimit (new_user cu) = uc_IPLimit cu"
  by (simp_all add: user_ok_def new_user_def user_active_def activeCount_def)

definition sample_user :: "int \<Rightarrow> UserConfig" where
  "sample_user limit = \<lparr>uc_Username = ''ann'', uc_Password = ''pw'', uc_BandwidthLimit = 80, uc_BandwidthUnit = ''kbit'',
     uc_DataLimit = 0, uc_DataUnit = [], uc_IPLimit = limit\<rparr>"

subsection \<open>Properties\<close>

text \<open>
  Connections of a user are counted by host: the port of the remote address does not matter, for an IPv4 address or
  a name as for an IPv6 address in brackets.
\<close>

theorem ExtractIP_host:
  assumes "0 \<le> port"
  shows "(set host \<inter> set '':[]'' = {} \<longrightarrow> ExtractIP (host @ '':'' @ Itoa port) = host)
    \<and> (set host \<inter> set ''[]'' = {} \<longrightarrow> ExtractIP (''['' @ host @ '']:'' @ Itoa port) = host)"
proof -
  have p: "CHR '':'' \<notin> set (Itoa port)" "CHR ''['' \<notin> set (Itoa port)" "CHR '']'' \<notin> set (Itoa port)"
    using Itoa_no_char [OF assms] by (simp_all add: is_digit_def)
  show ?thesis
    using SplitHostPort_colon [OF p(1), of host] SplitHostPort_brackets [OF p(1) _ _ p(2,3), of host] p
    by (simp add: ExtractIP_def)
qed

theorem ExtractIP_host_witness:
  "ExtractIP (''192.0.2.7'' @ '':'' @ Itoa 50000) = ''192.0.2.7'' \<and> ExtractIP (''['' @ ''2001:db8::1'' @ '']:'' @ Itoa 443) = ''2001:db8::1''"
  using ExtractIP_host [of 50000 "''192.0.2.7''"] ExtractIP_host [of 443 "''2001:db8::1''"] by simp

text \<open>
  C31. IP limit: for a fresh user and any sequence of admissions and departures, each completed before the next,
  the active count of every address is the number of its live connections, the reported number of
  active IPs is the number of distinct live addresses, and it never exceeds a positive limit.
\<close>

theorem ip_limit_holds:
  assumes "int (length evs) < max_i64"
    and "sessions CheckConnect MarkConnect MarkDisconnect evs (new_user cu, []) = (u, live)"
  shows "(\<forall>ip. activeCount u ip = int (count_list live ip))
    \<and> us_ActiveIPs (User_Status u) = card (set live)
    \<and> (0 < uc_IPLimit cu \<longrightarrow> int (card (set live)) \<le> uc_IPLimit cu)"
proof -
  have "users.counted (uc_IPLimit cu) (new_user cu, [])"
    using new_user_ok [of cu] by (auto simp: users.counted_def fun_eq_iff)
  from users.sessions_counted [OF this, of evs] assms have c: "users.counted (uc_IPLimit cu) (u, live)" by simp
  then have ok: "user_ok u" "user_active u = count_list live" by (auto simp: users.counted_def)
  have "activeCount u ip = int (count_list live ip)" for ip
    using fun_cong [OF ok(2), of ip] activeCount_pos [OF ok(1), of ip] by (simp add: user_active_def)
  moreover have "gm_len (user_activeIPs u) = card (set live)"
    using user_active_set [OF ok(1)] users.active_set [OF ok(2)] ok(1) by (simp add: gm.len_dom user_ok_def)
  ultimately show ?thesis using c by (simp add: users.counted_def User_Status_def)
qed

theorem ip_limit_holds_witness:
  "\<exists>u live. sessions CheckConnect MarkConnect MarkDisconnect [Arrive 5 ''a'', Arrive 6 ''b''] (new_user (sample_user 1), [])
      = (u, live) \<and> activeCount u ''a'' = int (count_list live ''a'')"
proof -
  obtain u live where s: "sessions CheckConnect MarkConnect MarkDisconnect [Arrive 5 ''a'', Arrive 6 ''b'']
      (new_user (sample_user 1), []) = (u, live)" by fastforce
  from ip_limit_holds [OF _ s] show ?thesis
    by (intro exI conjI) (rule s, simp add: max_i64_def)
qed

text \<open>
  The check and the mark are two critical sections: two handlers that both check before
  either marks are both admitted, and a user with a limit of one address has two active.
\<close>

theorem ip_limit_race:
  assumes "user_ipLimit u = 1" "user_activeIPs u = []" "user_cooldownIPs u = []" "user_dataLimit u = 0" "a \<noteq> b"
  shows "\<exists>u1 u2. CheckConnect t a u = (None, u1) \<and> CheckConnect t' b u1 = (None, u2)
    \<and> us_ActiveIPs (User_Status (MarkConnect b (MarkConnect a u2))) = 2"
proof -
  have "u\<lparr>user_cooldownIPs := []\<rparr> = u" using assms(3) by (cases u) simp
  then have "CheckConnect t a u = (None, u)" "CheckConnect t' b u = (None, u)"
    using assms(1-4) by (simp_all add: CheckConnect_def Let_def activeCount_def gm_filter_def gm_len_def)
  moreover have "user_activeIPs (MarkConnect b (MarkConnect a u)) = [(a, 1), (b, 1)]"
    using assms(2,5) by (simp add: MarkConnect_def activeCount_def gm_put_def gm_get_def i64_id)
  ultimately show ?thesis by (simp add: User_Status_def gm_len_def)
qed

theorem ip_limit_race_witness:
  "\<exists>u1 u2. CheckConnect 1 ''a'' (new_user (sample_user 1)) = (None, u1) \<and> CheckConnect 2 ''b'' u1 = (None, u2)
    \<and> us_ActiveIPs (User_Status (MarkConnect ''b'' (MarkConnect ''a'' u2))) = 2"
  by (rule ip_limit_race) (simp_all add: new_user_def sample_user_def DataLimitBytes_def)

text \<open>
  Admission: a connection is admitted exactly when the quota is not used up and either no IP limit is set, or
  the address is active, or it did not disconnect within the last ten seconds and fewer addresses
  than the limit are active.
\<close>

theorem CheckConnect_admits_iff:
  assumes "user_ok u"
  shows "fst (CheckConnect now ip u) = None \<longleftrightarrow>
    (user_dataLimit u \<le> 0 \<or> user_usedBytes u < user_dataLimit u)
    \<and> (user_ipLimit u \<le> 0 \<or> 0 < activeCount u ip
       \<or> (\<forall>t. gm_get (user_cooldownIPs u) ip = Some t \<longrightarrow> 10 * second < now - t)
         \<and> int (gm_len (user_activeIPs u)) < user_ipLimit u)"
proof -
  have "gm_get (gm_filter (\<lambda>ip t. \<not> time_sub now t > cooldown) (user_cooldownIPs u)) ip = None \<longleftrightarrow>
      (\<forall>t. gm_get (user_cooldownIPs u) ip = Some t \<longrightarrow> 10 * second < now - t)"
    using assms by (auto simp: gm_get_filter user_ok_def cooldown_def second_def time_sub_def split: option.splits if_splits)
  then show ?thesis
    by (auto simp: CheckConnect_def Let_def activeCount_def split: option.splits)
qed

theorem CheckConnect_admits_iff_witness:
  "fst (CheckConnect 7 ''a'' (MarkDisconnect 5 ''a'' (MarkConnect ''a'' (new_user (sample_user 1))))) \<noteq> None"
proof -
  let ?u = "MarkDisconnect 5 ''a'' (MarkConnect ''a'' (new_user (sample_user 1)))"
  have m: "user_ok (MarkConnect ''a'' (new_user (sample_user 1)))"
      "user_active (MarkConnect ''a'' (new_user (sample_user 1))) ''a'' = 1"
    using MarkConnect_counts [OF new_user_ok(1) [of "sample_user 1"], of "''a''"]
    by (simp_all add: new_user_ok max_i64_def)
  then have "user_ok ?u" by (intro MarkDisconnect_counts) simp_all
  from CheckConnect_admits_iff [OF this] show ?thesis
    by (simp add: MarkDisconnect_def MarkConnect_def new_user_def sample_user_def DataLimitBytes_def activeCount_def
      i64_id second_def)
qed

text \<open>
  Authentication: a login succeeds exactly when the last entry of the configuration with that
  name has that password, and yields that entry's user, with a burst between 4096 and 65536 bytes
  if its bandwidth is limited.
\<close>

theorem Authenticate_spec:
  "Authenticate name pw (NewUserManager cfgs) =
     (case find (\<lambda>cu. uc_Username cu = name) (rev cfgs) of
        Some cu \<Rightarrow> if uc_Password cu = pw then Some (new_user cu) else None
      | None \<Rightarrow> None)
   \<and> (case user_limiter (new_user cu) of
        None \<Rightarrow> BandwidthBytesPerSec cu \<le> 0
      | Some lim \<Rightarrow> lim_limit lim = BandwidthBytesPerSec cu \<and> 4096 \<le> lim_burst lim \<and> lim_burst lim \<le> 65536)"
  by (auto simp: Authenticate_def NewUserManager_get new_user_def new_limiter_def Let_def split: option.splits)

text \<open>
  The rate-limited writer: it passes on a prefix of its input, all of it unless the wrapped writer
  fails, in pieces no larger than the burst (so that waiting for tokens succeeds), and counts
  exactly the bytes it passed on.
\<close>

theorem rateLimitedWriter_exact:
  assumes "rateLimitedWriter_Write burst out 0 p [] 0 u = ((n, err), sent, u')"
    and "- (2 ^ 63) \<le> user_usedBytes u" "user_usedBytes u < 2 ^ 63"
  shows "concat sent = take n p \<and> n \<le> length p \<and> (err = None \<longrightarrow> n = length p)
    \<and> (0 < burst \<longrightarrow> (\<forall>c \<in> set sent. int (length c) \<le> burst))
    \<and> user_usedBytes u' = i64 (user_usedBytes u + int n)"
proof -
  have "user_usedBytes u = i64 (user_usedBytes u)" using assms(2,3) by (simp add: i64_id)
  from rateLimitedWriter_Write_spec [OF assms(1) this] show ?thesis by (elim exE conjE) simp
qed

theorem rateLimitedWriter_exact_witness:
  "\<exists>n err sent u'. rateLimitedWriter_Write 2 (\<lambda>_. WroteAll) 0 [1, 2, 3] [] 0 (new_user (sample_user 1)) = ((n, err), sent, u')
    \<and> concat sent = take n [1, 2, 3]"
proof -
  obtain n err sent u' where r: "rateLimitedWriter_Write 2 (\<lambda>_. WroteAll) 0 [1, 2, 3] [] 0 (new_user (sample_user 1))
      = ((n, err), sent, u')" by (metis prod.exhaust)
  from rateLimitedWriter_exact [OF r] have "concat sent = take n [1, 2, 3]" by (simp add: new_user_def)
  with r show ?thesis by (intro exI conjI)
qed

end
