(* ===== verification/Pool.thy ===== *)
theory Pool
  imports Engine Protocol
begin

text \<open>
  \<^verbatim>\<open>internal/tunnel/tunnelconn.go\<close> and \<^verbatim>\<open>pool.go\<close>: the persistent connections to each healthy
  instance, the choice of a connection for a frame, the replacement of dead and stale connections
  and the dispatch of received frames to the handlers of the client connections.

  Connections and channels are shared objects, so the pool holds a store of each and refers to them by
  address.  A connection records the bytes it was given to send.  Clock readings (in
  milliseconds), the outcome of every write and whether a dial succeeds are arguments.
\<close>

subsection \<open>Tunnel connections\<close>

record TunnelConn =
  tc_inst :: nat
  tc_closed :: bool
  tc_lastRead :: int
  tc_lastWrite :: int
  tc_out :: bytes

datatype tunnel_error = TunnelClosed | WriteFailed frame_error

definition staleThreshold :: duration where
  "staleThreshold = 15 * second"

definition TunnelConn_close :: "TunnelConn \<Rightarrow> TunnelConn" where
  "TunnelConn_close tc = (if \<not> tc_closed tc then tc\<lparr>tc_closed := True\<rparr> else tc)"

text \<open>The bytes that reach the connection when a frame is written with the given outcome.\<close>

definition written :: "write_outcome \<Rightarrow> Frame \<Rightarrow> bytes" where
  "written out f =
     (if payload_len f > MaxPayloadSize then []
      else take (fst (inner_write out (encode_frame f))) (encode_frame f))"

definition writeFrame ::
  "write_outcome \<Rightarrow> int \<Rightarrow> Frame \<Rightarrow> TunnelConn \<Rightarrow> tunnel_error option \<times> TunnelConn" where
  "writeFrame out nowMs f tc =
     (if tc_closed tc then (Some TunnelClosed, tc)
      else
        let tc' = tc\<lparr>tc_out := tc_out tc @ written out f\<rparr>
        in case WriteFrame (\<lambda>b. snd (inner_write out b)) f of
             Inl e \<Rightarrow> (Some (WriteFailed e), tc')
           | Inr b \<Rightarrow> (None, tc'\<lparr>tc_lastWrite := nowMs\<rparr>))"

subsection \<open>The pool\<close>

definition ConnsPerInstance :: nat where
  "ConnsPerInstance = 8"

record handler_chan =
  hc_queue :: "Frame list"
  hc_open :: bool

record TunnelPool =
  tp_heap :: "TunnelConn list"
  tp_conns :: "(nat, nat list) gomap"
  tp_chans :: "handler_chan list"
  tp_handlers :: "(u32, nat) gomap"
  tp_stopped :: bool
  tp_ready :: bool
  tp_roundRobin :: u64

definition NewTunnelPool :: TunnelPool where
  "NewTunnelPool =
     \<lparr>tp_heap = [], tp_conns = [], tp_chans = [], tp_handlers = [], tp_stopped = False,
      tp_ready = False, tp_roundRobin = 0\<rparr>"

definition conns_of :: "TunnelPool \<Rightarrow> nat \<Rightarrow> nat list" where
  "conns_of p i = (case gm_get (tp_conns p) i of None \<Rightarrow> [] | Some as \<Rightarrow> as)"

definition HasTunnels :: "TunnelPool \<Rightarrow> bool" where
  "HasTunnels p \<longleftrightarrow> list_ex (\<lambda>(i, as). list_ex (\<lambda>a. \<not> tc_closed (tp_heap p ! a)) as) (tp_conns p)"

definition HasActiveTunnel :: "nat \<Rightarrow> TunnelPool \<Rightarrow> bool" where
  "HasActiveTunnel i p \<longleftrightarrow> list_ex (\<lambda>a. \<not> tc_closed (tp_heap p ! a)) (conns_of p i)"

definition close_at :: "nat \<Rightarrow> TunnelConn list \<Rightarrow> TunnelConn list" where
  "close_at a heap = heap[a := TunnelConn_close (heap ! a)]"

subsection \<open>Sending\<close>

datatype send_result = Sent | NoTunnel | AllTunnelsFailed | SendPanic

text \<open>The loop that tries every connection once; \<open>out i\<close> is the outcome of the write in round \<open>i\<close>.\<close>

fun send_loop ::
  "(nat \<Rightarrow> write_outcome) \<Rightarrow> int \<Rightarrow> Frame \<Rightarrow> nat list \<Rightarrow> int \<Rightarrow> nat \<Rightarrow> nat \<Rightarrow> TunnelConn list
     \<Rightarrow> send_result \<times> TunnelConn list" where
  "send_loop out nowMs f conns start i 0 heap = (AllTunnelsFailed, heap)"
| "send_loop out nowMs f conns start i (Suc left) heap =
     (case go_index conns (i64 (start + int i) smod int (length conns)) of
        None \<Rightarrow> (SendPanic, heap)
      | Some a \<Rightarrow>
          if tc_closed (heap ! a) then send_loop out nowMs f conns start (Suc i) left heap
          else
            case writeFrame (out i) nowMs f (heap ! a) of
              (None, tc) \<Rightarrow> (Sent, heap[a := tc])
            | (Some e, tc) \<Rightarrow>
                send_loop out nowMs f conns start (Suc i) left (close_at a (heap[a := tc])))"

definition SendFrame ::
  "(nat \<Rightarrow> write_outcome) \<Rightarrow> int \<Rightarrow> nat \<Rightarrow> Frame \<Rightarrow> TunnelPool \<Rightarrow> send_result \<times> TunnelPool" where
  "SendFrame out nowMs instID f p =
     (let conns = conns_of p instID; n = length conns
      in if n = 0 then (NoTunnel, p)
         else
           let rr = tp_roundRobin p + 1;
               start = sint rr smod int n;
               (res, heap) = send_loop out nowMs f conns start 0 n (tp_heap p)
           in (res, p\<lparr>tp_roundRobin := rr, tp_heap := heap\<rparr>))"

subsection \<open>Refreshing\<close>

definition keep_conn :: "int \<Rightarrow> TunnelConn \<Rightarrow> bool" where
  "keep_conn nowMs tc \<longleftrightarrow>
     \<not> tc_closed tc
     \<and> \<not> (tc_lastWrite tc > 0 \<and> i64 (nowMs - tc_lastRead tc) > staleThreshold div 1000000)"

text \<open>Phase 1: the connections of unhealthy instances go, and the closed and stale ones of the others.\<close>

fun prune ::
  "nat list \<Rightarrow> int \<Rightarrow> (nat, nat list) gomap \<Rightarrow> TunnelConn list \<Rightarrow> (nat, nat list) gomap \<times> TunnelConn list" where
  "prune activeIDs nowMs [] heap = ([], heap)"
| "prune activeIDs nowMs ((i, as) # rest) heap =
     (let alive = (if i \<in> set activeIDs then filter (\<lambda>a. keep_conn nowMs (heap ! a)) as else []);
          heap' = fold close_at (filter (\<lambda>a. a \<notin> set alive) as) heap;
          (m, heap'') = prune activeIDs nowMs rest heap'
      in (if alive = [] then m else (i, alive) # m, heap''))"

text \<open>Phase 2: dial until the instance has its number of connections or a dial fails.\<close>

definition connectInstance :: "nat \<Rightarrow> int \<Rightarrow> TunnelConn" where
  "connectInstance i nowMs =
     \<lparr>tc_inst = i, tc_closed = False, tc_lastRead = nowMs, tc_lastWrite = 0, tc_out = []\<rparr>"

fun connect_more ::
  "(nat \<Rightarrow> bool) \<Rightarrow> int \<Rightarrow> nat \<Rightarrow> nat \<Rightarrow> nat \<Rightarrow> TunnelPool \<Rightarrow> TunnelPool" where
  "connect_more dial nowMs i k 0 p = p"
| "connect_more dial nowMs i k (Suc need) p =
     (if dial k
      then connect_more dial nowMs i (Suc k) need
             (p\<lparr>tp_heap := tp_heap p @ [connectInstance i nowMs],
                tp_conns := gm_put i (conns_of p i @ [length (tp_heap p)]) (tp_conns p)\<rparr>)
      else p)"

fun replenish :: "(nat \<Rightarrow> nat \<Rightarrow> bool) \<Rightarrow> int \<Rightarrow> Instance list \<Rightarrow> TunnelPool \<Rightarrow> TunnelPool" where
  "replenish dial nowMs [] p = p"
| "replenish dial nowMs (inst # rest) p =
     replenish dial nowMs rest
       (if ei_Mode (inst_Config inst) = ''ssh'' then p
        else connect_more (dial (inst_id inst)) nowMs (inst_id inst) 0
               (ConnsPerInstance - length (conns_of p (inst_id inst))) p)"

definition refreshConnections ::
  "(nat \<Rightarrow> nat \<Rightarrow> bool) \<Rightarrow> int \<Rightarrow> Instance list \<Rightarrow> TunnelPool \<Rightarrow> TunnelPool" where
  "refreshConnections dial nowMs healthy p =
     (let (m, heap) = prune (map inst_id healthy) nowMs (tp_conns p) (tp_heap p);
          p' = replenish dial nowMs healthy (p\<lparr>tp_conns := m, tp_heap := heap\<rparr>);
          total = sum_list (map (\<lambda>(i, as). length as) (tp_conns p'))
      in if total > 0 then p'\<lparr>tp_ready := True\<rparr> else p')"

definition TunnelPool_Stop :: "TunnelPool \<Rightarrow> TunnelPool" where
  "TunnelPool_Stop p =
     p\<lparr>tp_stopped := True, tp_heap := fold close_at (concat (map snd (tp_conns p))) (tp_heap p),
       tp_conns := []\<rparr>"

subsection \<open>Handlers\<close>

definition handler_cap :: nat where
  "handler_cap = 256"

definition RegisterConn :: "u32 \<Rightarrow> TunnelPool \<Rightarrow> nat \<times> TunnelPool" where
  "RegisterConn connID p =
     (let ch = length (tp_chans p)
      in (ch, p\<lparr>tp_chans := tp_chans p @ [\<lparr>hc_queue = [], hc_open = True\<rparr>],
                tp_handlers := gm_put connID ch (tp_handlers p)\<rparr>))"

definition UnregisterConn :: "u32 \<Rightarrow> TunnelPool \<Rightarrow> TunnelPool" where
  "UnregisterConn connID p =
     (case gm_get (tp_handlers p) connID of
        None \<Rightarrow> p
      | Some ch \<Rightarrow>
          p\<lparr>tp_handlers := gm_del connID (tp_handlers p),
            tp_chans := (tp_chans p)[ch := (tp_chans p ! ch)\<lparr>hc_open := False\<rparr>]\<rparr>)"

text \<open>
  \<^verbatim>\<open>select { case ch <- frame: default: }\<close>: a full queue drops the frame, a closed channel panics
  (\<open>None\<close>).
\<close>

definition chan_send :: "nat \<Rightarrow> Frame \<Rightarrow> TunnelPool \<Rightarrow> TunnelPool option" where
  "chan_send ch f p =
     (if hc_open (tp_chans p ! ch)
      then Some (p\<lparr>tp_chans := (tp_chans p)[ch := (tp_chans p ! ch)
             \<lparr>hc_queue := fst (chan_trysend handler_cap f (hc_queue (tp_chans p ! ch)))\<rparr>]\<rparr>)
      else None)"

definition dispatch_frame :: "Frame \<Rightarrow> TunnelPool \<Rightarrow> TunnelPool option" where
  "dispatch_frame f p =
     (if ConnID f = 0 then Some p
      else case gm_get (tp_handlers p) (ConnID f) of
             None \<Rightarrow> Some p
           | Some ch \<Rightarrow> chan_send ch f p)"

text \<open>
  The read loop of the connection at address \<open>a\<close> over everything its peer sends.  \<open>clk\<close> gives the
  reading of the clock after each frame.
\<close>

function readLoop :: "(nat \<Rightarrow> int) \<Rightarrow> nat \<Rightarrow> reader \<Rightarrow> TunnelPool \<Rightarrow> TunnelPool option" where
  "readLoop clk a r p =
     (if tp_stopped p then Some p
      else case ReadFrame r of
             (Inl e, r') \<Rightarrow> Some (p\<lparr>tp_heap := close_at a (tp_heap p)\<rparr>)
           | (Inr f, r') \<Rightarrow>
               (let p1 = p\<lparr>tp_heap := (tp_heap p)[a := (tp_heap p ! a)\<lparr>tc_lastRead := clk 0\<rparr>]\<rparr>
                in case dispatch_frame f p1 of
                     None \<Rightarrow> None
                   | Some p2 \<Rightarrow> readLoop (\<lambda>k. clk (Suc k)) a r' p2))"
  by pat_completeness auto
termination
  by (relation "measure (\<lambda>(clk, a, r, p). length (rd_data r))") (auto intro: ReadFrame_shrinks [OF sym])

declare readLoop.simps [simp del]

subsection \<open>Streams stay aligned\<close>

text \<open>
  What the peer of a connection will decode, and the invariant of its byte stream: whole frames, and
  a torn frame at the end only if the connection has been given up.
\<close>

definition wf_frame :: "Frame \<Rightarrow> bool" where
  "wf_frame f \<longleftrightarrow> payload_len f \<le> MaxPayloadSize"

definition frames_on :: "TunnelConn \<Rightarrow> Frame list" where
  "frames_on tc = fst (ReadFrames \<lparr>rd_data = tc_out tc, rd_end = EOF\<rparr>)"

definition torn :: "bytes \<Rightarrow> bool" where
  "torn part \<longleftrightarrow> (\<exists>f k. wf_frame f \<and> part = take k (encode_frame f) \<and> k < length (encode_frame f))"

definition aligned :: "TunnelConn \<Rightarrow> bool" where
  "aligned tc \<longleftrightarrow> (\<exists>fs part. list_all wf_frame fs \<and> tc_out tc = concat (map encode_frame fs) @ part
     \<and> (part = [] \<or> tc_closed tc \<and> torn part))"

lemma torn_no_frame: "torn part \<Longrightarrow> fst (ReadFrames \<lparr>rd_data = part, rd_end = EOF\<rparr>) = []"
  using ReadFrame_truncated
  by (fastforce simp: torn_def wf_frame_def ReadFrames.simps [of "\<lparr>rd_data = part, rd_end = EOF\<rparr>"]
      split: prod.splits sum.splits)

lemma frames_on_append:
  assumes "list_all wf_frame fs" "tc_out tc = concat (map encode_frame fs) @ part" "part = [] \<or> torn part"
  shows "frames_on tc = map norm_frame fs"
proof -
  have "fst (ReadFrames \<lparr>rd_data = part, rd_end = EOF\<rparr>) = []"
    using assms(3) torn_no_frame frames.dec_all_end by auto
  with frames.dec_all_append [of fs part EOF] assms(1,2) show ?thesis
    by (simp add: frames_on_def wf_frame_def [abs_def] split_beta Let_def)
qed

lemma writeFrame_Sent:
  assumes "aligned tc" "writeFrame out now f tc = (None, tc')"
  shows "aligned tc' \<and> wf_frame f \<and> frames_on tc' = frames_on tc @ [norm_frame f]
    \<and> tc_closed tc' = tc_closed tc \<and> tc_inst tc' = tc_inst tc"
proof -
  have f: "wf_frame f" "\<not> tc_closed tc" and out: "tc_out tc' = tc_out tc @ encode_frame f"
    and same: "tc_closed tc' = tc_closed tc" "tc_inst tc' = tc_inst tc"
    using assms(2)
    by (auto simp: writeFrame_def Let_def WriteFrame_def written_def inner_write_def wf_frame_def
        split: if_splits sum.splits option.splits write_outcome.splits)
  obtain fs where fs: "list_all wf_frame fs" "tc_out tc = concat (map encode_frame fs)"
    using assms(1) f(2) by (auto simp: aligned_def)
  then have fs': "list_all wf_frame (fs @ [f])" "tc_out tc' = concat (map encode_frame (fs @ [f])) @ []"
    using f out by simp_all
  then have "aligned tc'" unfolding aligned_def by blast
  with frames_on_append [OF fs'] frames_on_append [OF fs(1), of tc "[]"] fs(2) f same show ?thesis by simp
qed

lemma close_simps [simp]:
  "tc_out (TunnelConn_close tc) = tc_out tc" "tc_closed (TunnelConn_close tc)"
  "tc_inst (TunnelConn_close tc) = tc_inst tc" "frames_on (TunnelConn_close tc) = frames_on tc"
  by (simp_all add: TunnelConn_close_def frames_on_def)

lemma aligned_close: "aligned tc \<Longrightarrow> aligned (TunnelConn_close tc)"
  by (auto simp: aligned_def)

lemma aligned_closeI:
  assumes "list_all wf_frame fs" "tc_out tc = concat (map encode_frame fs) @ part" "part = [] \<or> torn part"
  shows "aligned (TunnelConn_close tc)"
  unfolding aligned_def using assms by (intro exI [of _ fs] exI [of _ part]) simp

text \<open>A failed write followed by \<^verbatim>\<open>close\<close>: at most the whole frame got through.\<close>

lemma writeFrame_fail:
  assumes "aligned tc" "\<not> tc_closed tc" "writeFrame out now f tc = (Some e, tc')"
  shows "aligned (TunnelConn_close tc') \<and> (frames_on tc' = frames_on tc \<or> frames_on tc' = frames_on tc @ [norm_frame f])
    \<and> tc_inst tc' = tc_inst tc"
proof -
  have out: "tc_out tc' = tc_out tc @ written out f" "tc_inst tc' = tc_inst tc"
    using assms(2,3) by (auto simp: writeFrame_def Let_def split: sum.splits)
  obtain fs where fs: "list_all wf_frame fs" "tc_out tc = concat (map encode_frame fs) @ []"
    using assms(1,2) by (auto simp: aligned_def)
  have same: "frames_on tc = map norm_frame fs" using frames_on_append [OF fs] by simp
  consider "written out f = []" | "wf_frame f" "written out f = encode_frame f" | "torn (written out f)"
    by (cases "wf_frame f"; cases "fst (inner_write out (encode_frame f)) < length (encode_frame f)")
      (auto simp: written_def wf_frame_def torn_def not_less)
  then show ?thesis
  proof cases
    case 1
    with fs out have o: "tc_out tc' = concat (map encode_frame fs) @ []" by simp
    show ?thesis using aligned_closeI [OF fs(1) o] frames_on_append [OF fs(1) o] same out(2) by simp
  next
    case 2
    then have fs': "list_all wf_frame (fs @ [f])" "tc_out tc' = concat (map encode_frame (fs @ [f])) @ []"
      using fs out by simp_all
    show ?thesis using aligned_closeI [OF fs'] frames_on_append [OF fs'] same out(2) by simp
  next
    case 3
    with fs out have o: "tc_out tc' = concat (map encode_frame fs) @ written out f" by simp
    show ?thesis
      using aligned_closeI [OF fs(1) o] frames_on_append [OF fs(1) o] 3 same out(2) by simp
  qed
qed

text \<open>All frames on all connections.\<close>

definition heap_wire :: "TunnelConn list \<Rightarrow> Frame set" where
  "heap_wire heap = (\<Union>tc \<in> set heap. set (frames_on tc))"

lemma heap_wire_update:
  assumes "a < length heap" "set (frames_on (heap ! a)) \<subseteq> set (frames_on tc)"
  shows "heap_wire (heap[a := tc]) = heap_wire heap \<union> set (frames_on tc)"
proof -
  have "set (heap[a := tc]) \<union> {heap ! a} = insert tc (set heap)"
    using assms(1) by (auto simp: set_conv_nth nth_list_update)
  then have "(\<Union>t \<in> set (heap[a := tc]) \<union> {heap ! a}. set (frames_on t)) = (\<Union>t \<in> insert tc (set heap). set (frames_on t))"
    by (simp only:)
  then have "heap_wire (heap[a := tc]) \<union> set (frames_on (heap ! a)) = heap_wire heap \<union> set (frames_on tc)"
    by (simp add: heap_wire_def Un_commute)
  moreover have "set (frames_on tc) \<subseteq> heap_wire (heap[a := tc])"
    using set_update_memI [OF assms(1), of tc] by (auto simp: heap_wire_def)
  ultimately show ?thesis using assms(2) by blast
qed

text \<open>How the store may change: no connection disappears, reopens or changes owner.\<close>

definition heap_le :: "TunnelConn list \<Rightarrow> TunnelConn list \<Rightarrow> bool" where
  "heap_le h h' \<longleftrightarrow> length h \<le> length h'
     \<and> (\<forall>a < length h. tc_inst (h' ! a) = tc_inst (h ! a) \<and> (tc_closed (h ! a) \<longrightarrow> tc_closed (h' ! a)))"

lemma heap_le_refl [simp]: "heap_le h h"
  by (simp add: heap_le_def)

lemma heap_le_trans: "heap_le a b \<Longrightarrow> heap_le b c \<Longrightarrow> heap_le a c"
  by (auto simp: heap_le_def)

lemma heap_le_update:
  "tc_inst tc = tc_inst (h ! a) \<Longrightarrow> (tc_closed (h ! a) \<Longrightarrow> tc_closed tc) \<Longrightarrow> heap_le h (h[a := tc])"
  by (auto simp: heap_le_def nth_update_if)

lemma length_close_at [simp]: "length (close_at a h) = length h"
  by (simp add: close_at_def)

lemma close_at_fold [simp]: "length (fold close_at as h) = length h"
  by (induction as arbitrary: h) auto

lemma heap_le_close_at: "heap_le h (close_at a h)"
  unfolding close_at_def by (rule heap_le_update) simp_all

lemma heap_le_fold_close: "heap_le h (fold close_at as h)"
  by (induction as arbitrary: h) (auto intro: heap_le_trans heap_le_close_at)

lemma close_at_wire [simp]: "heap_wire (close_at a h) = heap_wire h"
proof (cases "a < length h")
  case True
  then show ?thesis
    unfolding close_at_def using nth_mem [OF True] by (simp add: heap_wire_update) (fastforce simp: heap_wire_def)
qed (simp add: close_at_def list_update_beyond)

lemma close_at_aligned: "list_all aligned h \<Longrightarrow> list_all aligned (close_at a h)"
  by (cases "a < length h")
    (auto simp: close_at_def list_all_length nth_list_update aligned_close)

lemma fold_close_wire [simp]: "heap_wire (fold close_at as h) = heap_wire h"
  by (induction as arbitrary: h) auto

lemma fold_close_aligned: "list_all aligned h \<Longrightarrow> list_all aligned (fold close_at as h)"
  by (induction as arbitrary: h) (auto intro: close_at_aligned)

lemma fold_close_nth:
  "b < length h \<Longrightarrow> fold close_at as h ! b = (if b \<in> set as then TunnelConn_close (h ! b) else h ! b)"
  by (induction as arbitrary: h) (auto simp: close_at_def nth_update_if TunnelConn_close_def)

subsection \<open>Sending a frame\<close>

text \<open>One attempt: the frame is on the connection, or the connection is closed behind what was written of it.\<close>

definition heap_sent :: "Frame \<Rightarrow> TunnelConn list \<Rightarrow> TunnelConn list \<Rightarrow> bool" where
  "heap_sent f heap heap' \<longleftrightarrow> length heap' = length heap \<and> list_all aligned heap' \<and> heap_le heap heap'
     \<and> heap_wire heap \<subseteq> heap_wire heap' \<and> heap_wire heap' \<subseteq> insert (norm_frame f) (heap_wire heap)"

lemma heap_sent_refl: "list_all aligned heap \<Longrightarrow> heap_sent f heap heap"
  by (auto simp: heap_sent_def)

lemma heap_sent_trans: "heap_sent f h1 h2 \<Longrightarrow> heap_sent f h2 h3 \<Longrightarrow> heap_sent f h1 h3"
  unfolding heap_sent_def using heap_le_trans by auto

lemma attempt_sent:
  assumes "a < length heap" "list_all aligned heap" "writeFrame out now f (heap ! a) = (None, tc)"
  shows "heap_sent f heap (heap[a := tc]) \<and> norm_frame f \<in> heap_wire (heap[a := tc]) \<and> wf_frame f"
proof -
  have al: "aligned (heap ! a)" using assms(1,2) by (simp add: list_all_length)
  note sent = writeFrame_Sent [OF al, of out now f tc]
  have "heap_wire (heap[a := tc]) = insert (norm_frame f) (heap_wire heap \<union> set (frames_on (heap ! a)))"
    using sent assms(3) heap_wire_update [OF assms(1), of tc] by auto
  moreover have "set (frames_on (heap ! a)) \<subseteq> heap_wire heap" using nth_mem [OF assms(1)] by (auto simp: heap_wire_def)
  moreover have "heap_le heap (heap[a := tc])" using sent assms(3) by (intro heap_le_update) auto
  moreover have "list_all aligned (heap[a := tc])" using assms(2,3) sent by (simp add: list_all_length nth_update_if)
  ultimately show ?thesis using sent assms(3) by (auto simp: heap_sent_def)
qed

lemma attempt_failed:
  assumes "a < length heap" "list_all aligned heap" "\<not> tc_closed (heap ! a)" "writeFrame out now f (heap ! a) = (Some err, tc)"
  shows "heap_sent f heap (close_at a (heap[a := tc]))"
proof -
  have al: "aligned (heap ! a)" using assms(1,2) by (simp add: list_all_length)
  note fail = writeFrame_fail [OF al assms(3), of out now f err tc]
  let ?h = "close_at a (heap[a := tc])"
  have h: "?h = heap[a := TunnelConn_close tc]" using assms(1) by (simp add: close_at_def)
  have al': "list_all aligned ?h" using assms(2,4) fail unfolding h by (simp add: list_all_length nth_update_if)
  have le: "heap_le heap ?h" using fail assms(4) unfolding h by (intro heap_le_update) auto
  have fr: "set (frames_on (heap ! a)) \<subseteq> heap_wire heap" using nth_mem [OF assms(1)] by (auto simp: heap_wire_def)
  have "set (frames_on (heap ! a)) \<subseteq> set (frames_on tc)" using fail assms(4) by auto
  then have wi: "heap_wire ?h = heap_wire heap \<union> set (frames_on tc)" using assms(1) unfolding h by (simp add: heap_wire_update)
  have "heap_wire heap \<subseteq> heap_wire ?h" "heap_wire ?h \<subseteq> insert (norm_frame f) (heap_wire heap)"
    using fail assms(4) fr unfolding wi by auto
  with al' le show ?thesis by (simp add: heap_sent_def)
qed

lemma send_loop_spec:
  assumes "send_loop out now f conns start i left heap = (res, heap')"
    and "list_all aligned heap" "\<forall>a \<in> set conns. a < length heap"
  shows "heap_sent f heap heap' \<and> (res = Sent \<longrightarrow> norm_frame f \<in> heap_wire heap' \<and> wf_frame f)"
  using assms
proof (induction left arbitrary: i heap)
  case (Suc left)
  show ?case
  proof (cases "go_index conns (i64 (start + int i) smod int (length conns))")
    case None
    with Suc.prems show ?thesis by (auto intro: heap_sent_refl)
  next
    case (Some a)
    then have a: "a < length heap" using Suc.prems(3) go_index_mem by metis
    show ?thesis
    proof (cases "tc_closed (heap ! a)")
      case True
      with Some Suc.prems(1) have "send_loop out now f conns start (Suc i) left heap = (res, heap')" by simp
      then show ?thesis by (rule Suc.IH [OF _ Suc.prems(2,3)])
    next
      case False
      obtain e tc where w: "writeFrame (out i) now f (heap ! a) = (e, tc)" by fastforce
      show ?thesis
      proof (cases e)
        case None
        with attempt_sent [OF a Suc.prems(2), of "out i" now f tc] Suc.prems(1) Some False w show ?thesis by auto
      next
        case e: (Some err)
        let ?h = "close_at a (heap[a := tc])"
        have h: "heap_sent f heap ?h" by (rule attempt_failed [OF a Suc.prems(2) False w [unfolded e]])
        have "send_loop out now f conns start (Suc i) left ?h = (res, heap')" using Suc.prems(1) Some False w e by simp
        from Suc.IH [OF this] h Suc.prems(3) show ?thesis
          using heap_sent_trans [OF h, of heap'] by (auto simp: heap_sent_def)
      qed
    qed
  qed
qed (auto intro: heap_sent_refl)

text \<open>What the loop does to each connection: one gets the whole frame, the others are left alone or closed behind a part of it.\<close>

definition cut_off :: "Frame \<Rightarrow> TunnelConn \<Rightarrow> TunnelConn \<Rightarrow> bool" where
  "cut_off f tc tc' \<longleftrightarrow> tc' = tc \<or>
     \<not> tc_closed tc \<and> tc_closed tc' \<and> (\<exists>k. tc_out tc' = tc_out tc @ take k (encode_frame f))"

definition only_cut :: "Frame \<Rightarrow> nat list \<Rightarrow> TunnelConn list \<Rightarrow> TunnelConn list \<Rightarrow> bool" where
  "only_cut f conns heap heap' \<longleftrightarrow> length heap' = length heap
     \<and> (\<forall>b. cut_off f (heap ! b) (heap' ! b)) \<and> (\<forall>b. b \<notin> set conns \<longrightarrow> heap' ! b = heap ! b)"

definition sent_once :: "Frame \<Rightarrow> nat list \<Rightarrow> TunnelConn list \<Rightarrow> TunnelConn list \<Rightarrow> bool" where
  "sent_once f conns heap heap' \<longleftrightarrow> length heap' = length heap
     \<and> (\<exists>a \<in> set conns. \<not> tc_closed (heap ! a) \<and> \<not> tc_closed (heap' ! a)
          \<and> tc_out (heap' ! a) = tc_out (heap ! a) @ encode_frame f
          \<and> (\<forall>b. b \<noteq> a \<longrightarrow> cut_off f (heap ! b) (heap' ! b)))
     \<and> (\<forall>b. b \<notin> set conns \<longrightarrow> heap' ! b = heap ! b)"

lemma cut_off_trans: "cut_off f tc tc' \<Longrightarrow> cut_off f tc' tc'' \<Longrightarrow> cut_off f tc tc''"
  by (auto simp: cut_off_def)

lemma cut_off_open: "cut_off f tc tc' \<Longrightarrow> \<not> tc_closed tc' \<Longrightarrow> tc' = tc"
  by (auto simp: cut_off_def)

lemma only_cut_refl: "only_cut f conns heap heap"
  by (simp add: only_cut_def cut_off_def)

lemma only_cut_trans:
  assumes "only_cut f conns h1 h2"
  shows "only_cut f conns h2 h3 \<Longrightarrow> only_cut f conns h1 h3" "sent_once f conns h2 h3 \<Longrightarrow> sent_once f conns h1 h3"
proof -
  show "only_cut f conns h2 h3 \<Longrightarrow> only_cut f conns h1 h3" using assms cut_off_trans by (simp add: only_cut_def) blast
  assume s: "sent_once f conns h2 h3"
  then obtain a where a: "a \<in> set conns" "\<not> tc_closed (h2 ! a)" "\<not> tc_closed (h3 ! a)"
      "tc_out (h3 ! a) = tc_out (h2 ! a) @ encode_frame f" "\<forall>b. b \<noteq> a \<longrightarrow> cut_off f (h2 ! b) (h3 ! b)"
    by (auto simp: sent_once_def)
  have "h2 ! a = h1 ! a" by (rule cut_off_open) (use assms a(2) in \<open>auto simp: only_cut_def\<close>)
  moreover have "\<forall>b. b \<noteq> a \<longrightarrow> cut_off f (h1 ! b) (h3 ! b)" using assms a(5) cut_off_trans by (simp add: only_cut_def) blast
  ultimately show "sent_once f conns h1 h3"
    unfolding sent_once_def using assms s a by (intro conjI bexI [of _ a]) (simp_all add: only_cut_def sent_once_def)
qed

lemma only_cut_update:
  assumes "a \<in> set conns" "cut_off f (heap ! a) tc"
  shows "only_cut f conns heap (heap[a := tc])"
proof -
  have "heap[a := tc] ! b = heap ! b \<or> b = a \<and> heap[a := tc] ! b = tc" for b
    by (cases "b = a"; cases "a < length heap") (simp_all add: list_update_beyond)
  with assms show ?thesis unfolding only_cut_def by (metis cut_off_def length_list_update)
qed

lemma writeFrame_cases:
  assumes "\<not> tc_closed tc" "writeFrame out now f tc = (e, tc')"
  shows "\<not> tc_closed tc'" "e = None \<Longrightarrow> tc_out tc' = tc_out tc @ encode_frame f"
    "\<exists>k. tc_out tc' = tc_out tc @ take k (encode_frame f)"
proof -
  have "\<exists>k. written out f = take k (encode_frame f)" by (auto simp: written_def intro: exI [of _ 0])
  then have "\<not> tc_closed tc' \<and> (e = None \<longrightarrow> tc_out tc' = tc_out tc @ encode_frame f)
      \<and> (\<exists>k. tc_out tc' = tc_out tc @ take k (encode_frame f))"
    using assms by (auto simp: writeFrame_def WriteFrame_def Let_def written_def inner_write_def
      split: if_splits write_outcome.splits)
  then show "\<not> tc_closed tc'" "e = None \<Longrightarrow> tc_out tc' = tc_out tc @ encode_frame f"
    "\<exists>k. tc_out tc' = tc_out tc @ take k (encode_frame f)" by blast+
qed

lemma send_loop_once:
  assumes "send_loop out now f conns start i left heap = (res, heap')" "\<forall>a \<in> set conns. a < length heap"
  shows "if res = Sent then sent_once f conns heap heap' else only_cut f conns heap heap'"
  using assms
proof (induction left arbitrary: i heap)
  case 0
  then show ?case by (auto intro: only_cut_refl)
next
  case (Suc left)
  show ?case
  proof (cases "go_index conns (i64 (start + int i) smod int (length conns))")
    case None
    with Suc.prems show ?thesis by (auto intro: only_cut_refl)
  next
    case (Some a)
    then have a: "a \<in> set conns" "a < length heap" using Suc.prems(2) go_index_mem by metis+
    show ?thesis
    proof (cases "tc_closed (heap ! a)")
      case True
      with Some Suc.prems(1) have "send_loop out now f conns start (Suc i) left heap = (res, heap')" by simp
      then show ?thesis by (rule Suc.IH [OF _ Suc.prems(2)])
    next
      case False
      obtain e tc where w: "writeFrame (out i) now f (heap ! a) = (e, tc)" by fastforce
      note wf = writeFrame_cases [OF False w]
      show ?thesis
      proof (cases e)
        case None
        with Some False w Suc.prems(1) have r: "res = Sent" "heap' = heap[a := tc]" by simp_all
        have "heap[a := tc] ! b = heap ! b" if "b \<noteq> a" for b using that by simp
        moreover have "heap[a := tc] ! b = heap ! b" if "b \<notin> set conns" for b using that a(1) by (cases "b = a") auto
        ultimately show ?thesis unfolding r sent_once_def
          using a wf(1) wf(2) [OF None] False by (auto simp: cut_off_def intro!: bexI [of _ a])
      next
        case e: (Some err)
        let ?h = "close_at a (heap[a := tc])"
        have "cut_off f (heap ! a) (TunnelConn_close tc)" using wf(1,3) False by (simp add: cut_off_def TunnelConn_close_def)
        from only_cut_update [OF a(1) this] have "only_cut f conns heap ?h" using a(2) by (simp add: close_at_def)
        moreover have "if res = Sent then sent_once f conns ?h heap' else only_cut f conns ?h heap'"
          by (rule Suc.IH) (use Suc.prems Some False w e in \<open>simp_all add: close_at_def\<close>)
        ultimately show ?thesis using only_cut_trans by (auto split: if_splits)
      qed
    qed
  qed
qed

text \<open>Every connection is tried, and nothing panics while the counter is below \<open>2\<^sup>63\<close>.\<close>

lemma all_rounds_Suc:
  "(\<forall>j. i \<le> j \<longrightarrow> j < i + Suc left \<longrightarrow> P j) \<longleftrightarrow> P i \<and> (\<forall>j. Suc i \<le> j \<longrightarrow> j < Suc i + left \<longrightarrow> P j)"
proof -
  have "i \<le> j \<longleftrightarrow> j = i \<or> Suc i \<le> j" for j by auto
  then show ?thesis by auto
qed

lemma send_loop_visits:
  assumes "send_loop out now f conns start i left heap = (res, heap')"
    and "list_all aligned heap" "\<forall>a \<in> set conns. a < length heap" "conns \<noteq> []"
    and "0 \<le> start" "start + int (i + left) < 2 ^ 63"
  shows "res \<in> {Sent, AllTunnelsFailed} \<and> (res = AllTunnelsFailed \<longrightarrow>
    (\<forall>j. i \<le> j \<longrightarrow> j < i + left \<longrightarrow> tc_closed (heap' ! (conns ! nat ((start + int j) mod int (length conns))))))"
  using assms(1-3,6)
proof (induction left arbitrary: i heap)
  case (Suc left)
  define k where "k = nat ((start + int i) mod int (length conns))"
  have k: "k < length conns" using assms(4) by (simp add: k_def nat_less_iff)
  have idx: "go_index conns (i64 (start + int i) smod int (length conns)) = Some (conns ! k)"
    using assms(4,5) Suc.prems(4) by (simp add: i64_id smod_nonneg go_index_def k_def)
  have a: "conns ! k < length heap" using Suc.prems(3) k by simp
  have rest: ?case if nxt: "send_loop out now f conns start (Suc i) left h = (res, heap')"
    and al: "list_all aligned h" and len: "length h = length heap" and cl: "tc_closed (h ! (conns ! k))" for h
  proof -
    have "\<forall>a \<in> set conns. a < length h" using Suc.prems(3) len by simp
    moreover have "start + int (Suc i + left) < 2 ^ 63" using Suc.prems(4) by simp
    ultimately have ih: "res \<in> {Sent, AllTunnelsFailed} \<and> (res = AllTunnelsFailed \<longrightarrow>
        (\<forall>j. Suc i \<le> j \<longrightarrow> j < Suc i + left \<longrightarrow> tc_closed (heap' ! (conns ! nat ((start + int j) mod int (length conns))))))"
      using Suc.IH [OF nxt al] by blast
    have "heap_le h heap'" using send_loop_spec [OF nxt al] Suc.prems(3) len by (simp add: heap_sent_def)
    then have "tc_closed (heap' ! (conns ! k))" using cl a len by (simp add: heap_le_def)
    with ih show ?thesis unfolding all_rounds_Suc by (simp add: k_def)
  qed
  show ?case
  proof (cases "tc_closed (heap ! (conns ! k))")
    case True
    with Suc.prems(1,2) idx show ?thesis by (intro rest [of heap]) simp_all
  next
    case False
    obtain e tc where w: "writeFrame (out i) now f (heap ! (conns ! k)) = (e, tc)" by fastforce
    have al: "aligned (heap ! (conns ! k))" using Suc.prems(2) a by (simp add: list_all_length)
    show ?thesis
    proof (cases e)
      case None
      with Suc.prems(1) idx False w show ?thesis by simp
    next
      case (Some err)
      have "aligned (TunnelConn_close tc)" using writeFrame_fail [OF al False] w Some by simp
      with Suc.prems(1,2) idx False w Some a show ?thesis
        by (intro rest [of "close_at (conns ! k) (heap[conns ! k := tc])"])
          (simp_all add: close_at_def list_all_length nth_update_if)
    qed
  qed
qed (use assms(4) in auto)

subsection \<open>The pool invariant\<close>

definition entry_ok :: "TunnelConn list \<Rightarrow> nat \<Rightarrow> nat list \<Rightarrow> bool" where
  "entry_ok heap i as \<longleftrightarrow> as \<noteq> [] \<and> length as \<le> ConnsPerInstance \<and> distinct as
     \<and> (\<forall>a \<in> set as. a < length heap \<and> tc_inst (heap ! a) = i)"

definition conns_ok :: "(nat, nat list) gomap \<Rightarrow> TunnelConn list \<Rightarrow> bool" where
  "conns_ok m heap \<longleftrightarrow> gm_ok m \<and> (\<forall>i as. gm_get m i = Some as \<longrightarrow> entry_ok heap i as)"

definition handlers_ok :: "(u32, nat) gomap \<Rightarrow> handler_chan list \<Rightarrow> bool" where
  "handlers_ok hs chans \<longleftrightarrow> gm_ok hs
     \<and> (\<forall>c ch. gm_get hs c = Some ch \<longrightarrow> ch < length chans \<and> hc_open (chans ! ch))
     \<and> (\<forall>c c' ch. gm_get hs c = Some ch \<longrightarrow> gm_get hs c' = Some ch \<longrightarrow> c = c')
     \<and> (\<forall>ch < length chans. length (hc_queue (chans ! ch)) \<le> handler_cap)"

definition pool_inv :: "TunnelPool \<Rightarrow> bool" where
  "pool_inv p \<longleftrightarrow> conns_ok (tp_conns p) (tp_heap p) \<and> list_all aligned (tp_heap p)
     \<and> handlers_ok (tp_handlers p) (tp_chans p)"

lemma entry_ok_mono: "entry_ok h i as \<Longrightarrow> heap_le h h' \<Longrightarrow> entry_ok h' i as"
  by (auto simp: entry_ok_def heap_le_def intro: order_less_le_trans)

lemma conns_ok_get: "conns_ok m h \<Longrightarrow> gm_get m i = Some as \<Longrightarrow> entry_ok h i as"
  by (simp add: conns_ok_def)

lemma conns_ok_mono: "conns_ok m h \<Longrightarrow> heap_le h h' \<Longrightarrow> conns_ok m h'"
  by (auto simp: conns_ok_def intro: entry_ok_mono)

lemma entry_ok_addr: "entry_ok h i as \<Longrightarrow> a \<in> set as \<Longrightarrow> a < length h \<and> tc_inst (h ! a) = i"
  by (simp add: entry_ok_def)

lemma pool_inv_new: "pool_inv NewTunnelPool"
  by (simp add: pool_inv_def NewTunnelPool_def conns_ok_def handlers_ok_def)

lemma conns_of_entry: "pool_inv p \<Longrightarrow> conns_of p i \<noteq> [] \<Longrightarrow> entry_ok (tp_heap p) i (conns_of p i)"
  by (cases "gm_get (tp_conns p) i") (auto simp: conns_of_def pool_inv_def dest: conns_ok_get)

lemma conns_of_addr: "pool_inv p \<Longrightarrow> a \<in> set (conns_of p i) \<Longrightarrow> a < length (tp_heap p) \<and> tc_inst (tp_heap p ! a) = i"
  using conns_of_entry [of p i] entry_ok_addr by fastforce

lemma conns_of_bound: "pool_inv p \<Longrightarrow> distinct (conns_of p i) \<and> length (conns_of p i) \<le> ConnsPerInstance"
  using conns_of_entry [of p i] by (cases "conns_of p i = []") (auto simp: entry_ok_def)

lemma pool_inv_SendFrame [inv_intros]:
  assumes "pool_inv p" "SendFrame out now i f p = (res, p')"
  shows "pool_inv p' \<and> heap_wire (tp_heap p) \<subseteq> heap_wire (tp_heap p')
    \<and> heap_wire (tp_heap p') \<subseteq> insert (norm_frame f) (heap_wire (tp_heap p))
    \<and> (res = Sent \<longrightarrow> norm_frame f \<in> heap_wire (tp_heap p') \<and> wf_frame f)
    \<and> tp_conns p' = tp_conns p \<and> tp_handlers p' = tp_handlers p \<and> tp_chans p' = tp_chans p"
proof (cases "conns_of p i = []")
  case True
  with assms show ?thesis by (auto simp: SendFrame_def)
next
  case False
  let ?start = "sint (tp_roundRobin p + 1) smod int (length (conns_of p i))"
  obtain heap where l: "send_loop out now f (conns_of p i) ?start 0 (length (conns_of p i)) (tp_heap p) = (res, heap)"
      "p' = p\<lparr>tp_roundRobin := tp_roundRobin p + 1, tp_heap := heap\<rparr>"
    using assms(2) False by (auto simp: SendFrame_def Let_def split: prod.splits)
  have al: "list_all aligned (tp_heap p)" using assms(1) by (simp add: pool_inv_def)
  have "\<forall>a \<in> set (conns_of p i). a < length (tp_heap p)" using conns_of_addr [OF assms(1)] by blast
  from send_loop_spec [OF l(1) al this, unfolded heap_sent_def] l(2) assms(1) show ?thesis
    by (auto simp: pool_inv_def intro: conns_ok_mono)
qed

subsection \<open>Refreshing keeps the invariant\<close>

text \<open>The map as the list of its entries.\<close>

lemma conns_ok_Cons:
  "conns_ok ((i, as) # m) h \<longleftrightarrow> i \<notin> fst ` set m \<and> entry_ok h i as \<and> conns_ok m h"
proof -
  have "gm_get m i = None" if "i \<notin> fst ` set m" using that by (simp add: gm_get_def map_of_eq_None_iff)
  then show ?thesis by (auto simp: conns_ok_def gm_ok_def gm_get_def split: if_splits)
qed

text \<open>Pruning does not touch the connections of instances that are not in the map.\<close>

lemma prune_other:
  assumes "prune ids now m h = (m', h')" "conns_ok m h"
    and "a < length h" "tc_inst (h ! a) \<notin> fst ` set m"
  shows "h' ! a = h ! a"
  using assms
proof (induction m arbitrary: h m' h')
  case (Cons e rest)
  obtain i as where e: "e = (i, as)" by fastforce
  define alive where "alive = (if i \<in> set ids then filter (\<lambda>a. keep_conn now (h ! a)) as else [])"
  define h1 where "h1 = fold close_at (filter (\<lambda>a. a \<notin> set alive) as) h"
  obtain m2 where r: "prune ids now rest h1 = (m2, h')"
    using Cons.prems(1) e by (auto simp: Let_def alive_def h1_def split: prod.splits)
  have ok: "entry_ok h i as" "conns_ok rest h" using Cons.prems(2) e conns_ok_Cons by auto
  have "a \<notin> set as" using Cons.prems(4) e entry_ok_addr [OF ok(1)] by auto
  then have h1: "h1 ! a = h ! a" "length h1 = length h" "heap_le h h1"
    using Cons.prems(3) by (simp_all add: h1_def fold_close_nth heap_le_fold_close)
  with Cons.IH [OF r conns_ok_mono [OF ok(2) h1(3)]] Cons.prems(3,4) show ?case by simp
qed simp

lemma prune_spec:
  assumes "prune ids now m h = (m', h')" "conns_ok m h" "list_all aligned h"
  shows "conns_ok m' h' \<and> list_all aligned h' \<and> heap_le h h' \<and> heap_wire h' = heap_wire h
    \<and> fst ` set m' \<subseteq> fst ` set m \<inter> set ids
    \<and> (\<forall>(i, as) \<in> set m'. \<forall>a \<in> set as. keep_conn now (h' ! a))"
  using assms
proof (induction m arbitrary: h m' h')
  case (Cons e rest)
  obtain i as where e: "e = (i, as)" by fastforce
  define alive where "alive = (if i \<in> set ids then filter (\<lambda>a. keep_conn now (h ! a)) as else [])"
  define h1 where "h1 = fold close_at (filter (\<lambda>a. a \<notin> set alive) as) h"
  obtain m2 where r: "prune ids now rest h1 = (m2, h')" "m' = (if alive = [] then m2 else (i, alive) # m2)"
    using Cons.prems(1) e by (auto simp: Let_def alive_def h1_def split: prod.splits)
  have ok: "i \<notin> fst ` set rest" "entry_ok h i as" "conns_ok rest h"
    using Cons.prems(2) e conns_ok_Cons by auto
  have h1: "heap_le h h1" "list_all aligned h1" "heap_wire h1 = heap_wire h" "length h1 = length h"
    unfolding h1_def using heap_le_fold_close fold_close_aligned [OF Cons.prems(3)] by auto
  have rest: "conns_ok rest h1" using conns_ok_mono [OF ok(3) h1(1)] .
  note ih = Cons.IH [OF r(1) rest h1(2)]
  have le: "heap_le h h'" using ih h1(1) heap_le_trans by blast
  have sub: "set alive \<subseteq> set as" "alive \<noteq> [] \<Longrightarrow> i \<in> set ids" "\<forall>a \<in> set alive. keep_conn now (h ! a)"
    by (auto simp: alive_def split: if_splits)
  have kept: "h' ! a = h ! a" if "a \<in> set alive" for a
  proof -
    have a: "a < length h" "tc_inst (h ! a) = i" using that sub(1) entry_ok_addr [OF ok(2)] by auto
    then have "h1 ! a = h ! a" using that by (simp add: h1_def fold_close_nth)
    with prune_other [OF r(1) rest, of a] a ok(1) h1(4) show ?thesis by simp
  qed
  have "entry_ok h i alive" if "alive \<noteq> []"
    using that ok(2) sub(1) order_trans [OF length_filter_le]
    by (auto simp: entry_ok_def alive_def split: if_splits)
  then have "conns_ok m' h'"
    using ih r(2) ok(1) entry_ok_mono [OF _ le] by (auto simp: conns_ok_Cons)
  then show ?case
    using ih le h1 r(2) sub kept e by (auto split: if_splits)
qed auto

text \<open>Dialling.\<close>

lemma conns_of_put [simp]:
  "conns_of (p\<lparr>tp_heap := h, tp_conns := gm_put i as m\<rparr>) j =
     (if j = i then as else conns_of (p\<lparr>tp_heap := h, tp_conns := m\<rparr>) j)"
  by (simp add: conns_of_def)

definition fresh_pool :: "int \<Rightarrow> TunnelPool \<Rightarrow> bool" where
  "fresh_pool now p \<longleftrightarrow> (\<forall>i. \<forall>a \<in> set (conns_of p i). keep_conn now (tp_heap p ! a))"

lemma connect_one:
  assumes "pool_inv p" "fresh_pool now p" "length (conns_of p i) < ConnsPerInstance"
  defines "p' \<equiv> p\<lparr>tp_heap := tp_heap p @ [connectInstance i now],
                  tp_conns := gm_put i (conns_of p i @ [length (tp_heap p)]) (tp_conns p)\<rparr>"
  shows "pool_inv p'" "fresh_pool now p'" "conns_of p' = (conns_of p)(i := conns_of p i @ [length (tp_heap p)])"
    "heap_wire (tp_heap p') = heap_wire (tp_heap p)"
proof -
  have of: "conns_of p' = (conns_of p)(i := conns_of p i @ [length (tp_heap p)])"
    by (auto simp: p'_def conns_of_def)
  then show "conns_of p' = (conns_of p)(i := conns_of p i @ [length (tp_heap p)])" .
  have nil: "frames_on (connectInstance i now) = []"
    using frames_on_append [of "[]" "connectInstance i now" "[]"] by (simp add: connectInstance_def)
  then show "heap_wire (tp_heap p') = heap_wire (tp_heap p)" by (simp add: p'_def heap_wire_def)
  have le: "heap_le (tp_heap p) (tp_heap p')" by (simp add: p'_def heap_le_def nth_append)
  have al: "aligned (connectInstance i now)"
    unfolding aligned_def by (intro exI [of _ "[]"]) (simp add: connectInstance_def)
  have addr: "a < length (tp_heap p) \<and> tc_inst (tp_heap p ! a) = j" if "a \<in> set (conns_of p j)" for a j
    using conns_of_addr [OF assms(1) that] .
  have "entry_ok (tp_heap p') i (conns_of p i @ [length (tp_heap p)])"
    using conns_of_bound [OF assms(1), of i] addr [of _ i] assms(3)
    by (auto simp: entry_ok_def p'_def nth_append connectInstance_def less_Suc_eq)
  then have "conns_ok (tp_conns p') (tp_heap p')"
    using assms(1) entry_ok_mono [OF _ le] by (auto simp: conns_ok_def pool_inv_def p'_def split: if_splits)
  then show "pool_inv p'" using assms(1) al by (simp add: pool_inv_def p'_def)
  have "keep_conn now (connectInstance i now)" by (simp add: keep_conn_def connectInstance_def)
  with assms(2) addr show "fresh_pool now p'"
    unfolding fresh_pool_def of by (auto simp: p'_def nth_append)
qed

lemma connect_more_spec:
  assumes "pool_inv p" "fresh_pool now p" "length (conns_of p i) + need \<le> ConnsPerInstance"
    and "p' = connect_more dial now i k need p"
  shows "pool_inv p' \<and> fresh_pool now p' \<and> heap_wire (tp_heap p') = heap_wire (tp_heap p)
    \<and> (\<forall>j. j \<noteq> i \<longrightarrow> conns_of p' j = conns_of p j)
    \<and> ((\<forall>k. dial k) \<longrightarrow> length (conns_of p' i) = length (conns_of p i) + need)"
  using assms
proof (induction need arbitrary: p k)
  case (Suc need)
  show ?case
  proof (cases "dial k")
    case True
    have lt: "length (conns_of p i) < ConnsPerInstance" using Suc.prems(3) by simp
    note c = connect_one [OF Suc.prems(1,2) lt]
    let ?p = "p\<lparr>tp_heap := tp_heap p @ [connectInstance i now],
                tp_conns := gm_put i (conns_of p i @ [length (tp_heap p)]) (tp_conns p)\<rparr>"
    have l: "length (conns_of ?p i) = Suc (length (conns_of p i))" "\<forall>j. j \<noteq> i \<longrightarrow> conns_of ?p j = conns_of p j"
      by (simp_all only: c(3)) simp_all
    have "length (conns_of ?p i) + need \<le> ConnsPerInstance" using Suc.prems(3) l(1) by simp
    moreover have "p' = connect_more dial now i (Suc k) need ?p" using True Suc.prems(4) by simp
    ultimately have "pool_inv p' \<and> fresh_pool now p' \<and> heap_wire (tp_heap p') = heap_wire (tp_heap ?p)
        \<and> (\<forall>j. j \<noteq> i \<longrightarrow> conns_of p' j = conns_of ?p j)
        \<and> ((\<forall>k. dial k) \<longrightarrow> length (conns_of p' i) = length (conns_of ?p i) + need)"
      by (rule Suc.IH [OF c(1,2)])
    then show ?thesis using l c(4) by simp
  next
    case False
    with Suc.prems show ?thesis by auto
  qed
qed simp

lemma replenish_spec:
  assumes "pool_inv p" "fresh_pool now p" "p' = replenish dial now xs p" "distinct (map inst_id xs)"
  shows "pool_inv p' \<and> fresh_pool now p' \<and> heap_wire (tp_heap p') = heap_wire (tp_heap p)
    \<and> (\<forall>j. j \<notin> inst_id ` set xs \<longrightarrow> conns_of p' j = conns_of p j)
    \<and> (\<forall>inst \<in> set xs. ei_Mode (inst_Config inst) \<noteq> ''ssh'' \<longrightarrow> (\<forall>k. dial (inst_id inst) k) \<longrightarrow>
          length (conns_of p' (inst_id inst)) = ConnsPerInstance)"
  using assms
proof (induction xs arbitrary: p)
  case (Cons inst xs)
  let ?i = "inst_id inst"
  define q where "q = (if ei_Mode (inst_Config inst) = ''ssh'' then p
      else connect_more (dial ?i) now ?i 0 (ConnsPerInstance - length (conns_of p ?i)) p)"
  have le8: "length (conns_of p ?i) \<le> ConnsPerInstance"
    using conns_of_bound [OF Cons.prems(1)] by blast
  have q: "pool_inv q \<and> fresh_pool now q \<and> heap_wire (tp_heap q) = heap_wire (tp_heap p)
    \<and> (\<forall>j. j \<noteq> ?i \<longrightarrow> conns_of q j = conns_of p j)
    \<and> (ei_Mode (inst_Config inst) \<noteq> ''ssh'' \<longrightarrow> (\<forall>k. dial ?i k) \<longrightarrow> length (conns_of q ?i) = ConnsPerInstance)"
    using connect_more_spec [OF Cons.prems(1,2), of ?i "ConnsPerInstance - length (conns_of p ?i)" _ "dial ?i" 0] Cons.prems(1,2) le8
    by (cases "ei_Mode (inst_Config inst) = ''ssh''") (simp_all add: q_def)
  have "p' = replenish dial now xs q" using Cons.prems(3) by (simp add: q_def)
  from Cons.IH [OF _ _ this] q Cons.prems(4) show ?case by auto
qed simp

lemma refreshConnections_spec:
  assumes "pool_inv p" "distinct (map inst_id healthy)" "p' = refreshConnections dial now healthy p"
  shows "pool_inv p' \<and> fresh_pool now p' \<and> heap_wire (tp_heap p') = heap_wire (tp_heap p)
    \<and> (\<forall>i. conns_of p' i \<noteq> [] \<longrightarrow> i \<in> inst_id ` set healthy)
    \<and> (\<forall>inst \<in> set healthy. ei_Mode (inst_Config inst) \<noteq> ''ssh'' \<longrightarrow> (\<forall>k. dial (inst_id inst) k) \<longrightarrow>
          length (conns_of p' (inst_id inst)) = ConnsPerInstance)"
proof -
  obtain m h where pr: "prune (map inst_id healthy) now (tp_conns p) (tp_heap p) = (m, h)" by fastforce
  let ?q = "p\<lparr>tp_conns := m, tp_heap := h\<rparr>"
  have ok: "conns_ok (tp_conns p) (tp_heap p)" "list_all aligned (tp_heap p)" using assms(1) by (simp_all add: pool_inv_def)
  note ps = prune_spec [OF pr ok]
  have q: "pool_inv ?q" using ps assms(1) by (simp add: pool_inv_def)
  have get: "gm_get m i = Some as \<Longrightarrow> (i, as) \<in> set m" for i as by (simp add: gm_get_def map_of_SomeD)
  have fq: "fresh_pool now ?q"
    unfolding fresh_pool_def
  proof (intro allI ballI)
    fix i a assume a: "a \<in> set (conns_of ?q i)"
    then obtain as where "(i, as) \<in> set m" "a \<in> set as"
      using get by (cases "gm_get m i") (auto simp: conns_of_def)
    moreover have "\<forall>(i, as) \<in> set m. \<forall>a \<in> set as. keep_conn now (h ! a)" using ps by blast
    ultimately show "keep_conn now (tp_heap ?q ! a)" by auto
  qed
  have iq: "conns_of ?q i = [] \<or> i \<in> inst_id ` set healthy" for i
  proof (cases "gm_get m i")
    case (Some as)
    then have "i \<in> fst ` set m" using get by force
    with ps show ?thesis by auto
  qed (simp add: conns_of_def)
  define r where "r = replenish dial now healthy ?q"
  note rs = replenish_spec [OF q fq r_def assms(2)]
  have p': "p' = r \<or> p' = r\<lparr>tp_ready := True\<rparr>"
    using assms(3) pr by (simp add: refreshConnections_def Let_def r_def)
  then have same: "pool_inv p' = pool_inv r" "conns_of p' = conns_of r" "tp_heap p' = tp_heap r"
    by (auto simp: pool_inv_def conns_of_def fun_eq_iff)
  then have "fresh_pool now p' = fresh_pool now r" by (simp add: fresh_pool_def)
  note same = same this
  have "conns_of r i \<noteq> [] \<longrightarrow> i \<in> inst_id ` set healthy" for i using rs iq [of i] by auto
  with same rs ps show ?thesis by simp
qed

subsection \<open>Handlers\<close>

lemma handlers_ok_put:
  assumes "handlers_ok hs chans"
  shows "handlers_ok (gm_put c (length chans) hs) (chans @ [\<lparr>hc_queue = [], hc_open = True\<rparr>])"
proof -
  have "gm_get hs d = Some ch \<Longrightarrow> ch < length chans" for d ch using assms by (simp add: handlers_ok_def)
  with assms show ?thesis
    by (auto simp: handlers_ok_def nth_append less_Suc_eq split: if_splits)
qed

lemma handlers_ok_del:
  assumes "handlers_ok hs chans" "gm_get hs c = Some ch"
  shows "handlers_ok (gm_del c hs) (chans[ch := (chans ! ch)\<lparr>hc_open := False\<rparr>])"
proof -
  have "d \<noteq> c \<Longrightarrow> gm_get hs d = Some ch' \<Longrightarrow> ch' \<noteq> ch" for d ch' using assms by (auto simp: handlers_ok_def)
  with assms show ?thesis by (auto simp: handlers_ok_def nth_update_if split: if_splits)
qed

lemma pool_inv_RegisterConn [inv_intros]: "pool_inv p \<Longrightarrow> pool_inv (snd (RegisterConn c p))"
  by (auto simp: pool_inv_def RegisterConn_def Let_def intro: handlers_ok_put)

lemma pool_inv_UnregisterConn [inv_intros]: "pool_inv p \<Longrightarrow> pool_inv (UnregisterConn c p)"
  by (auto simp: pool_inv_def UnregisterConn_def intro: handlers_ok_del split: option.splits)

lemma pool_inv_Stop [inv_intros]: "pool_inv p \<Longrightarrow> pool_inv (TunnelPool_Stop p)"
  by (auto simp: pool_inv_def TunnelPool_Stop_def conns_ok_def intro: fold_close_aligned)

text \<open>What a dispatched frame does to the queue of a connection id.\<close>

definition queue_of :: "TunnelPool \<Rightarrow> u32 \<Rightarrow> Frame list" where
  "queue_of p c = (case gm_get (tp_handlers p) c of None \<Rightarrow> [] | Some ch \<Rightarrow> hc_queue (tp_chans p ! ch))"

lemma dispatch_frame_spec:
  assumes "pool_inv p"
  shows "\<exists>p'. dispatch_frame f p = Some p' \<and> pool_inv p' \<and> tp_handlers p' = tp_handlers p \<and> tp_heap p' = tp_heap p
    \<and> tp_stopped p' = tp_stopped p
    \<and> (\<forall>c. queue_of p' c =
          (if c = ConnID f \<and> c \<noteq> 0 \<and> gm_get (tp_handlers p) c \<noteq> None
           then fst (chan_trysend handler_cap f (queue_of p c)) else queue_of p c))"
proof (cases "ConnID f = 0 \<or> gm_get (tp_handlers p) (ConnID f) = None")
  case True
  with assms show ?thesis by (auto simp: dispatch_frame_def split: option.splits)
next
  case False
  then obtain ch where ch: "gm_get (tp_handlers p) (ConnID f) = Some ch" "ConnID f \<noteq> 0" by auto
  have h: "handlers_ok (tp_handlers p) (tp_chans p)" using assms by (simp add: pool_inv_def)
  then have o: "ch < length (tp_chans p)" "hc_open (tp_chans p ! ch)"
    "\<And>c. gm_get (tp_handlers p) c = Some ch \<Longrightarrow> c = ConnID f"
    "length (hc_queue (tp_chans p ! ch)) \<le> handler_cap"
    using ch by (auto simp: handlers_ok_def)
  let ?q = "fst (chan_trysend handler_cap f (hc_queue (tp_chans p ! ch)))"
  let ?p = "p\<lparr>tp_chans := (tp_chans p)[ch := (tp_chans p ! ch)\<lparr>hc_queue := ?q\<rparr>]\<rparr>"
  have "length ?q \<le> handler_cap" using o(4) by (simp add: chan_trysend_def)
  then have "handlers_ok (tp_handlers p) (tp_chans ?p)"
    using h by (auto simp: handlers_ok_def nth_update_if)
  then have "pool_inv ?p" using assms by (simp add: pool_inv_def)
  moreover have "queue_of ?p c = (if c = ConnID f \<and> c \<noteq> 0 \<and> gm_get (tp_handlers p) c \<noteq> None
      then fst (chan_trysend handler_cap f (queue_of p c)) else queue_of p c)" for c
  proof (cases "c = ConnID f")
    case True
    with ch o(1) show ?thesis by (simp add: queue_of_def)
  next
    case False
    with o(3) have "gm_get (tp_handlers p) c \<noteq> Some ch" by blast
    with False show ?thesis by (auto simp: queue_of_def split: option.splits)
  qed
  ultimately show ?thesis using ch o(2) by (simp add: dispatch_frame_def chan_send_def)
qed

lemma pool_inv_lastRead:
  "pool_inv p \<Longrightarrow> pool_inv (p\<lparr>tp_heap := (tp_heap p)[a := (tp_heap p ! a)\<lparr>tc_lastRead := t\<rparr>]\<rparr>)"
proof -
  assume p: "pool_inv p"
  have "aligned (tc\<lparr>tc_lastRead := t\<rparr>) = aligned tc" for tc by (simp add: aligned_def)
  moreover have "heap_le (tp_heap p) ((tp_heap p)[a := (tp_heap p ! a)\<lparr>tc_lastRead := t\<rparr>])"
    by (rule heap_le_update) simp_all
  ultimately show ?thesis
    using p by (auto simp: pool_inv_def list_all_length nth_update_if intro: conns_ok_mono)
qed

text \<open>The frames of a connection id in the order in which the peer sent them.\<close>

lemma readLoop_spec:
  assumes "pool_inv p" "\<not> tp_stopped p"
  shows "\<exists>p'. readLoop clk a r p = Some p' \<and> pool_inv p' \<and> tp_handlers p' = tp_handlers p
    \<and> (\<forall>c. c \<noteq> 0 \<longrightarrow> gm_get (tp_handlers p) c \<noteq> None \<longrightarrow>
          queue_of p' c = chan_trysends handler_cap (filter (\<lambda>f. ConnID f = c) (fst (ReadFrames r))) (queue_of p c))"
  using assms
proof (induction clk a r p rule: readLoop.induct)
  case (1 clk a r p)
  define p1 where "p1 = p\<lparr>tp_heap := (tp_heap p)[a := (tp_heap p ! a)\<lparr>tc_lastRead := clk 0\<rparr>]\<rparr>"
  have p1: "pool_inv p1" "queue_of p1 = queue_of p" "tp_handlers p1 = tp_handlers p" "tp_stopped p1 = tp_stopped p"
    using pool_inv_lastRead [OF "1.prems"(1)] by (simp_all add: p1_def fun_eq_iff queue_of_def cong: option.case_cong)
  obtain x r' where x: "ReadFrame r = (x, r')" by fastforce
  show ?case
  proof (cases x)
    case (Inl e)
    have "pool_inv (p\<lparr>tp_heap := close_at a (tp_heap p)\<rparr>)"
      using "1.prems"(1) close_at_aligned heap_le_close_at conns_ok_mono by (auto simp: pool_inv_def)
    with x Inl "1.prems" show ?thesis
      by (auto simp: readLoop.simps [of clk a r p] ReadFrames.simps [of r] queue_of_def)
  next
    case (Inr f)
    obtain p2 where p2: "dispatch_frame f p1 = Some p2" "pool_inv p2" "tp_handlers p2 = tp_handlers p"
        "tp_stopped p2 = tp_stopped p"
        "\<forall>c. queue_of p2 c = (if c = ConnID f \<and> c \<noteq> 0 \<and> gm_get (tp_handlers p) c \<noteq> None
           then fst (chan_trysend handler_cap f (queue_of p c)) else queue_of p c)"
      using dispatch_frame_spec [OF p1(1), of f] unfolding p1(2-4) by (elim exE conjE)
    have "\<not> tp_stopped p2" using p2(4) "1.prems"(2) by simp
    note ih = "1.IH" [OF "1.prems"(2) x [symmetric] Inr p1_def p2(1) p2(2) this]
    moreover have "readLoop clk a r p = readLoop (\<lambda>k. clk (Suc k)) a r' p2"
      using "1.prems"(2) x Inr p2(1) by (simp add: readLoop.simps [of clk a r p] p1_def)
    moreover have "fst (ReadFrames r) = f # fst (ReadFrames r')"
      using x Inr by (simp add: ReadFrames.simps [of r] split_beta)
    ultimately show ?thesis using p2(3,5) by auto
  qed
qed

subsection \<open>What the splitter relies on\<close>

text \<open>
  A sender of frames: what it puts on the wire is at most the frame it was given, and certainly that frame when it
  reports success.
\<close>

locale frame_sender =
  fixes send :: "'e \<Rightarrow> nat \<Rightarrow> Frame \<Rightarrow> 'p \<Rightarrow> bool \<times> 'p"
    and wire :: "'p \<Rightarrow> Frame set"
    and inv :: "'p \<Rightarrow> bool"
  assumes send_inv: "inv p \<Longrightarrow> send e i f p = (b, p') \<Longrightarrow> inv p'"
    and send_wire: "inv p \<Longrightarrow> send e i f p = (b, p') \<Longrightarrow>
      wire p \<subseteq> wire p' \<and> wire p' \<subseteq> insert (norm_frame f) (wire p) \<and> (b \<longrightarrow> norm_frame f \<in> wire p')"

definition pool_send :: "(nat \<Rightarrow> write_outcome) \<times> int \<Rightarrow> nat \<Rightarrow> Frame \<Rightarrow> TunnelPool \<Rightarrow> bool \<times> TunnelPool" where
  "pool_send e i f p = (case SendFrame (fst e) (snd e) i f p of (res, p') \<Rightarrow> (res = Sent, p'))"

definition pool_wire :: "TunnelPool \<Rightarrow> Frame set" where
  "pool_wire p = heap_wire (tp_heap p)"

interpretation pool: frame_sender pool_send pool_wire pool_inv
proof unfold_locales
  fix p e i f b p'
  assume "pool_inv p" "pool_send e i f p = (b, p')"
  moreover obtain res q where "SendFrame (fst e) (snd e) i f p = (res, q)" by fastforce
  ultimately show "pool_inv p'"
    "pool_wire p \<subseteq> pool_wire p' \<and> pool_wire p' \<subseteq> insert (norm_frame f) (pool_wire p) \<and> (b \<longrightarrow> norm_frame f \<in> pool_wire p')"
    using pool_inv_SendFrame [of p "fst e" "snd e" i f res q] by (auto simp: pool_send_def pool_wire_def)
qed

lemma SendFrame_once:
  assumes "pool_inv p" "SendFrame out now i f p = (res, p')"
  shows "if res = Sent then sent_once f (conns_of p i) (tp_heap p) (tp_heap p') else only_cut f (conns_of p i) (tp_heap p) (tp_heap p')"
proof (cases "conns_of p i = []")
  case True
  with assms(2) show ?thesis by (auto simp: SendFrame_def intro: only_cut_refl)
next
  case False
  let ?start = "sint (tp_roundRobin p + 1) smod int (length (conns_of p i))"
  obtain heap where l: "send_loop out now f (conns_of p i) ?start 0 (length (conns_of p i)) (tp_heap p) = (res, heap)" "tp_heap p' = heap"
    using assms(2) False by (auto simp: SendFrame_def Let_def split: prod.splits)
  have "\<forall>a \<in> set (conns_of p i). a < length (tp_heap p)" using conns_of_addr [OF assms(1)] by blast
  from send_loop_once [OF l(1) this] l(2) show ?thesis by simp
qed

lemma SendFrame_outcome:
  assumes "pool_inv p" "0 \<le> sint (tp_roundRobin p + 1)" "SendFrame out now i f p = (res, p')"
  shows "res \<noteq> SendPanic \<and> pool_inv p'
    \<and> pool_wire p \<subseteq> pool_wire p' \<and> pool_wire p' \<subseteq> insert (norm_frame f) (pool_wire p)
    \<and> (res = Sent \<longrightarrow> norm_frame f \<in> pool_wire p')
    \<and> (res = NoTunnel \<longleftrightarrow> conns_of p i = [])
    \<and> (res = AllTunnelsFailed \<longrightarrow> (\<forall>a \<in> set (conns_of p i). tc_closed (tp_heap p' ! a)))"
proof -
  note wire = pool_inv_SendFrame [OF assms(1,3)]
  show ?thesis
  proof (cases "conns_of p i = []")
    case True
    with assms wire show ?thesis by (auto simp: SendFrame_def pool_wire_def)
  next
    case False
    let ?n = "length (conns_of p i)"
    define start where "start = sint (tp_roundRobin p + 1) smod int ?n"
    have n: "0 < int ?n" "?n \<le> 8" using False conns_of_bound [OF assms(1), of i] by (auto simp: ConnsPerInstance_def)
    have s: "start = sint (tp_roundRobin p + 1) mod int ?n" using assms(2) n(1) by (simp add: start_def smod_nonneg)
    then have s0: "0 \<le> start" "start < int ?n" using n(1) by simp_all
    obtain heap where l: "send_loop out now f (conns_of p i) start 0 ?n (tp_heap p) = (res, heap)" "tp_heap p' = heap"
      using assms(3) False by (auto simp: SendFrame_def Let_def start_def split: prod.splits)
    have "list_all aligned (tp_heap p)" using assms(1) by (simp add: pool_inv_def)
    moreover have "\<forall>a \<in> set (conns_of p i). a < length (tp_heap p)" using conns_of_addr [OF assms(1)] by blast
    moreover have "start + int (0 + ?n) < 2 ^ 63" using s0 n by simp
    ultimately have v: "res \<in> {Sent, AllTunnelsFailed} \<and> (res = AllTunnelsFailed \<longrightarrow>
        (\<forall>j. 0 \<le> j \<longrightarrow> j < 0 + ?n \<longrightarrow> tc_closed (heap ! (conns_of p i ! nat ((start + int j) mod int ?n)))))"
      using send_loop_visits [OF l(1)] False s0(1) by blast
    have all: "tc_closed (heap ! a)" if "res = AllTunnelsFailed" "a \<in> set (conns_of p i)" for a
    proof -
      obtain k where k: "k < ?n" "conns_of p i ! k = a" using \<open>a \<in> set (conns_of p i)\<close> by (auto simp: in_set_conv_nth)
      define j where "j = nat ((int k - start) mod int ?n)"
      have "int j = (int k - start) mod int ?n" using n(1) by (simp add: j_def)
      then have "(start + int j) mod int ?n = int k" using k(1) by (simp add: mod_simps)
      moreover have "j < ?n" using n(1) by (simp add: j_def nat_less_iff)
      ultimately show ?thesis using v that(1) k(2) by (metis le0 add_0 nat_int)
    qed
    show ?thesis using v all wire l(2) False by (auto simp: pool_wire_def)
  qed
qed

definition sample_frame :: "u32 \<Rightarrow> u32 \<Rightarrow> byte \<Rightarrow> Frame" where
  "sample_frame c s b = \<lparr>ConnID = c, SeqNum = s, Flags = FlagData, Payload = Some [b]\<rparr>"

definition sample_instance :: Instance where
  "sample_instance = NewInstance 0 \<lparr>ei_Domain = ''t.example.com'', ei_Resolver = ''8.8.8.8'', ei_Port = 17001,
     ei_Mode = ''socks'', ei_Authoritative = False, ei_Cert = [], ei_SSHPort = 0, ei_SSHUser = [],
     ei_SSHPassword = [], ei_SSHKey = [], ei_OriginalIndex = 0, ei_ReplicaIndex = 0\<rparr> ''slipstream'' 65536"

definition sample_pool :: TunnelPool where
  "sample_pool = refreshConnections (\<lambda>_ _. True) 5 [sample_instance] NewTunnelPool"

lemma sample_pool_ok: "pool_inv sample_pool" "length (conns_of sample_pool 0) = 8" "tp_roundRobin sample_pool = 0"
proof -
  show "pool_inv sample_pool" "length (conns_of sample_pool 0) = 8"
    using refreshConnections_spec [OF pool_inv_new _ sample_pool_def [unfolded atomize_eq]]
    by (simp_all add: sample_instance_def NewInstance_def ConnsPerInstance_def)
  have "tp_roundRobin (connect_more dial now i k n p) = tp_roundRobin p" for dial now i k n p
    by (induction n arbitrary: k p) auto
  then show "tp_roundRobin sample_pool = 0"
    by (simp add: sample_pool_def refreshConnections_def NewTunnelPool_def Let_def)
qed

subsection \<open>Properties\<close>



text \<open>
  C25. Refreshing: afterwards only healthy instances have connections, at most eight each, none of
  them closed or stale; an instance whose dials succeed has exactly eight; no frame is lost from
  or added to the streams.
\<close>

theorem refreshConnections_sound:
  assumes "pool_inv p" "distinct (map inst_id healthy)"
  shows "pool_inv (refreshConnections dial now healthy p)
    \<and> pool_wire (refreshConnections dial now healthy p) = pool_wire p
    \<and> (\<forall>i. length (conns_of (refreshConnections dial now healthy p) i) \<le> 8
         \<and> (conns_of (refreshConnections dial now healthy p) i \<noteq> [] \<longrightarrow> i \<in> inst_id ` set healthy)
         \<and> (\<forall>a \<in> set (conns_of (refreshConnections dial now healthy p) i).
              keep_conn now (tp_heap (refreshConnections dial now healthy p) ! a)))
    \<and> (\<forall>inst \<in> set healthy. ei_Mode (inst_Config inst) \<noteq> ''ssh'' \<longrightarrow> (\<forall>k. dial (inst_id inst) k) \<longrightarrow>
         length (conns_of (refreshConnections dial now healthy p) (inst_id inst)) = 8)"
proof -
  define p' where "p' = refreshConnections dial now healthy p"
  note s = refreshConnections_spec [OF assms p'_def]
  have "length (conns_of p' i) \<le> 8" for i using conns_of_bound [of p' i] s by (simp add: ConnsPerInstance_def)
  with s show ?thesis
    unfolding p'_def [symmetric] by (auto simp: fresh_pool_def pool_wire_def ConnsPerInstance_def)
qed

theorem refreshConnections_sound_witness:
  "length (conns_of (refreshConnections (\<lambda>_ _. True) 5 [sample_instance] NewTunnelPool) (inst_id sample_instance)) = 8"
  using refreshConnections_sound [OF pool_inv_new, of "[sample_instance]" "\<lambda>_ _. True" 5]
  by (simp add: sample_instance_def NewInstance_def)

text \<open>
  C24. Receiving: over the whole stream of a connection, the frames of a registered client are put
  into its channel in the order they were sent, as many as the channel holds; frames of other ids
  and of id 0 do not reach it, and the dispatch does not panic.
\<close>

theorem readLoop_delivers:
  assumes "pool_inv p" "\<not> tp_stopped p" "list_all wf_frame fs" "c \<noteq> 0" "gm_get (tp_handlers p) c \<noteq> None"
    and "length (queue_of p c) + length fs \<le> 256"
  shows "\<exists>p'. readLoop clk a \<lparr>rd_data = concat (map encode_frame fs), rd_end = e\<rparr> p = Some p' \<and> pool_inv p'
    \<and> queue_of p' c = queue_of p c @ filter (\<lambda>f. ConnID f = c) (map norm_frame fs)"
proof -
  have rf: "fst (ReadFrames \<lparr>rd_data = concat (map encode_frame fs), rd_end = e\<rparr>) = map norm_frame fs"
    using frames.dec_all_concat [of fs e] assms(3) by (simp add: wf_frame_def [abs_def])
  obtain p' where p': "readLoop clk a \<lparr>rd_data = concat (map encode_frame fs), rd_end = e\<rparr> p = Some p'" "pool_inv p'"
      "queue_of p' c = chan_trysends handler_cap (filter (\<lambda>f. ConnID f = c) (map norm_frame fs)) (queue_of p c)"
    using readLoop_spec [OF assms(1,2), of clk a "\<lparr>rd_data = concat (map encode_frame fs), rd_end = e\<rparr>"] assms(4,5)
    unfolding rf by blast
  have "length (filter (\<lambda>f. ConnID f = c) (map norm_frame fs)) \<le> length fs"
    using length_filter_le [of "\<lambda>f. ConnID f = c" "map norm_frame fs"] unfolding length_map .
  then have "length (queue_of p c) + length (filter (\<lambda>f. ConnID f = c) (map norm_frame fs)) \<le> handler_cap"
    using assms(6) by (simp only: handler_cap_def)
  with p' show ?thesis by (simp add: chan_trysends_room)
qed

theorem readLoop_delivers_witness:
  "\<exists>p'. readLoop (\<lambda>_. 1) 0 \<lparr>rd_data = concat (map encode_frame [sample_frame 3 0 7, sample_frame 4 0 8]), rd_end = EOF\<rparr>
      (snd (RegisterConn 3 NewTunnelPool)) = Some p' \<and> queue_of p' 3 = [sample_frame 3 0 7]"
proof -
  have "\<exists>p'. readLoop (\<lambda>_. 1) 0 \<lparr>rd_data = concat (map encode_frame [sample_frame 3 0 7, sample_frame 4 0 8]), rd_end = EOF\<rparr>
      (snd (RegisterConn 3 NewTunnelPool)) = Some p' \<and> pool_inv p'
    \<and> queue_of p' 3 = queue_of (snd (RegisterConn 3 NewTunnelPool)) 3 @
        filter (\<lambda>f. ConnID f = 3) (map norm_frame [sample_frame 3 0 7, sample_frame 4 0 8])"
    by (rule readLoop_delivers [OF pool_inv_RegisterConn [OF pool_inv_new]])
      (simp_all add: RegisterConn_def NewTunnelPool_def wf_frame_def sample_frame_def
        MaxPayloadSize_def queue_of_def)
  then show ?thesis
    by (auto simp: RegisterConn_def NewTunnelPool_def queue_of_def sample_frame_def norm_frame_def)
qed

text \<open>
  A race of the read loop with \<^verbatim>\<open>UnregisterConn\<close>: between the lookup of the handler and the send,
  the client connection may close the channel, and the send then panics, for every registered id.
\<close>

theorem send_on_closed_handler_panics:
  assumes "pool_inv p" "gm_get (tp_handlers p) c = Some ch"
  shows "chan_send ch f p \<noteq> None \<and> chan_send ch f (UnregisterConn c p) = None"
  using assms by (auto simp: pool_inv_def handlers_ok_def chan_send_def UnregisterConn_def)

theorem send_on_closed_handler_panics_witness:
  "chan_send 0 (sample_frame 3 0 7) (UnregisterConn 3 (snd (RegisterConn 3 NewTunnelPool))) = None"
  using send_on_closed_handler_panics [OF pool_inv_RegisterConn [OF pool_inv_new], of 3 3 0 "sample_frame 3 0 7"]
  by (simp add: RegisterConn_def NewTunnelPool_def)

text \<open>
  A race between two senders on one connection: a write that fails half-way releases the write
  lock before the connection is closed; a second sender that was waiting for the lock then appends its frame to
  the torn one, and the peer decodes a frame nobody sent, here a FIN for connection 1.
\<close>

theorem torn_write_race:
  "\<exists>tc1 tc2. writeFrame (WroteSome 5 (OtherErr ''timeout'')) t (sample_frame 1 1 7) (connectInstance i t)
        = (Some (WriteFailed (IOError (OtherErr ''timeout''))), tc1)
    \<and> writeFrame WroteAll t (sample_frame 2 5 9) tc1 = (None, tc2)
    \<and> frames_on (TunnelConn_close tc2) = [\<lparr>ConnID = 1, SeqNum = 0, Flags = FlagFIN, Payload = None\<rparr>]"
proof -
  let ?tc1 = "(connectInstance i t)\<lparr>tc_out := [0, 0, 0, 1, 0]\<rparr>"
  let ?tc2 = "?tc1\<lparr>tc_out := [0, 0, 0, 1, 0, 0, 0, 0, 2, 0, 0, 0, 5, 0, 0, 1, 9], tc_lastWrite := t\<rparr>"
  have "writeFrame (WroteSome 5 (OtherErr ''timeout'')) t (sample_frame 1 1 7) (connectInstance i t)
        = (Some (WriteFailed (IOError (OtherErr ''timeout''))), ?tc1)"
    by (simp add: writeFrame_def connectInstance_def Let_def WriteFrame_def written_def inner_write_def sample_frame_def
      MaxPayloadSize_def encode_frame_def frame_header_def PutUint32_def PutUint16_def)
  moreover have "writeFrame WroteAll t (sample_frame 2 5 9) ?tc1 = (None, ?tc2)"
    by (simp add: writeFrame_def connectInstance_def Let_def WriteFrame_def written_def inner_write_def sample_frame_def
      MaxPayloadSize_def encode_frame_def frame_header_def PutUint32_def PutUint16_def FlagData_def)
  moreover have "frames_on (TunnelConn_close ?tc2) = [\<lparr>ConnID = 1, SeqNum = 0, Flags = FlagFIN, Payload = None\<rparr>]"
    by (simp add: frames_on_def ReadFrames.simps ReadFrame_def ReadFull_def HeaderSize_def go_slice_def
      Uint16_def Uint32_def FlagFIN_def)
  ultimately show ?thesis by blast
qed

end
