(* ===== verification/PoolRun.thy ===== *)
theory PoolRun
  imports Pool
begin

text \<open>
  The running pool of \<^verbatim>\<open>internal/tunnel/pool.go\<close>: \<^verbatim>\<open>Start\<close> with its ticker, one goroutine with \<^verbatim>\<open>readLoop\<close> per connection, the senders,
  the client connections that register, receive and unregister, and \<^verbatim>\<open>Stop\<close>.  A step relation interleaves them;
  a refresh, a \<^verbatim>\<open>SendFrame\<close> and a channel operation are one step each, the read loop and \<^verbatim>\<open>Stop\<close> have
  the program points between which the others can run.
\<close>

subsection \<open>Goroutines\<close>

datatype tick_pc = TickWait | TickFired | TickDone

datatype read_pc = RdCheck | RdRead | RdFrame Frame | RdSend nat Frame | RdDone

datatype pool_ctl = PoolRunning | PoolSignalled | PoolCleared | PoolStopped

text \<open>The reader of the connection at address \<open>a\<close> is the \<open>a\<close>-th.\<close>

record pool_sys =
  pr_pool :: TunnelPool
  pr_tick :: tick_pc
  pr_readers :: "read_pc list"
  pr_ctl :: pool_ctl

definition TunnelPool_Start :: "(nat \<Rightarrow> nat \<Rightarrow> bool) \<Rightarrow> int \<Rightarrow> Instance list \<Rightarrow> TunnelPool \<Rightarrow> pool_sys" where
  "TunnelPool_Start dial nowMs healthy p =
     (let p' = refreshConnections dial nowMs healthy p
      in \<lparr>pr_pool = p', pr_tick = TickWait, pr_readers = replicate (length (tp_heap p')) RdCheck, pr_ctl = PoolRunning\<rparr>)"

text \<open>\<^verbatim>\<open>WaitReady\<close>: what it returns once its \<^verbatim>\<open>select\<close> has a ready case; with both ready it may return either.\<close>

definition WaitReady :: "bool \<Rightarrow> TunnelPool \<Rightarrow> bool set" where
  "WaitReady ctxDone p = (if tp_ready p then {True} else {}) \<union> (if ctxDone then {False} else {})"

text \<open>
  One round of \<^verbatim>\<open>readLoop\<close>: the check of \<^verbatim>\<open>stopCh\<close>, the blocking read, the lookup of the handler and the send to its channel.
  A send to a closed channel has no successor: it is a panic that ends the program.
\<close>

inductive read_step :: "nat \<Rightarrow> TunnelPool \<times> read_pc \<Rightarrow> TunnelPool \<times> read_pc \<Rightarrow> bool" for a where
  check_stop: "tp_stopped p \<Longrightarrow> read_step a (p, RdCheck) (p, RdDone)"
| check_go: "\<not> tp_stopped p \<Longrightarrow> read_step a (p, RdCheck) (p, RdRead)"
| read_frame: "\<not> tc_closed (tp_heap p ! a) \<Longrightarrow>
    read_step a (p, RdRead) (p\<lparr>tp_heap := (tp_heap p)[a := (tp_heap p ! a)\<lparr>tc_lastRead := now\<rparr>]\<rparr>, RdFrame f)"
| read_error: "read_step a (p, RdRead) (p\<lparr>tp_heap := close_at a (tp_heap p)\<rparr>, RdDone)"
| ignore: "ConnID f = 0 \<or> gm_get (tp_handlers p) (ConnID f) = None \<Longrightarrow> read_step a (p, RdFrame f) (p, RdCheck)"
| lookup: "ConnID f \<noteq> 0 \<Longrightarrow> gm_get (tp_handlers p) (ConnID f) = Some ch \<Longrightarrow>
    read_step a (p, RdFrame f) (p, RdSend ch f)"
| deliver: "chan_send ch f p = Some p' \<Longrightarrow> read_step a (p, RdSend ch f) (p', RdCheck)"

inductive_cases read_stepE: "read_step a (p, pc) (p', pc')"

text \<open>The two halves of \<^verbatim>\<open>Stop\<close> before it waits.\<close>

definition Stop_signal :: "TunnelPool \<Rightarrow> TunnelPool" where
  "Stop_signal p = p\<lparr>tp_stopped := True\<rparr>"

definition Stop_clear :: "TunnelPool \<Rightarrow> TunnelPool" where
  "Stop_clear p = p\<lparr>tp_heap := fold close_at (concat (map snd (tp_conns p))) (tp_heap p), tp_conns := []\<rparr>"

definition chan_receive :: "nat \<Rightarrow> TunnelPool \<Rightarrow> TunnelPool" where
  "chan_receive ch p = p\<lparr>tp_chans := (tp_chans p)[ch := (tp_chans p ! ch)\<lparr>hc_queue := tl (hc_queue (tp_chans p ! ch))\<rparr>]\<rparr>"

inductive pool_step :: "pool_sys \<Rightarrow> pool_sys \<Rightarrow> bool" where
  tick_fires: "pr_tick s = TickWait \<Longrightarrow> pool_step s (s\<lparr>pr_tick := TickFired\<rparr>)"
| tick_stops: "pr_tick s = TickWait \<Longrightarrow> tp_stopped (pr_pool s) \<Longrightarrow> pool_step s (s\<lparr>pr_tick := TickDone\<rparr>)"
| tick_refresh: "pr_tick s = TickFired \<Longrightarrow> distinct (map inst_id healthy) \<Longrightarrow>
    p' = refreshConnections dial now healthy (pr_pool s) \<Longrightarrow>
    pool_step s (s\<lparr>pr_pool := p', pr_tick := TickWait,
      pr_readers := pr_readers s @ replicate (length (tp_heap p') - length (tp_heap (pr_pool s))) RdCheck\<rparr>)"
| reader: "a < length (pr_readers s) \<Longrightarrow> read_step a (pr_pool s, pr_readers s ! a) (p', pc') \<Longrightarrow>
    pool_step s (s\<lparr>pr_pool := p', pr_readers := (pr_readers s)[a := pc']\<rparr>)"
| send: "SendFrame out now i f (pr_pool s) = (res, p') \<Longrightarrow> pool_step s (s\<lparr>pr_pool := p'\<rparr>)"
| register: "RegisterConn c (pr_pool s) = (ch, p') \<Longrightarrow> pool_step s (s\<lparr>pr_pool := p'\<rparr>)"
| unregister: "pool_step s (s\<lparr>pr_pool := UnregisterConn c (pr_pool s)\<rparr>)"
| receive: "ch < length (tp_chans (pr_pool s)) \<Longrightarrow> hc_queue (tp_chans (pr_pool s) ! ch) \<noteq> [] \<Longrightarrow>
    pool_step s (s\<lparr>pr_pool := chan_receive ch (pr_pool s)\<rparr>)"
| stop_signal: "pr_ctl s = PoolRunning \<Longrightarrow>
    pool_step s (s\<lparr>pr_pool := Stop_signal (pr_pool s), pr_ctl := PoolSignalled\<rparr>)"
| stop_clear: "pr_ctl s = PoolSignalled \<Longrightarrow>
    pool_step s (s\<lparr>pr_pool := Stop_clear (pr_pool s), pr_ctl := PoolCleared\<rparr>)"
| stop_returns: "pr_ctl s = PoolCleared \<Longrightarrow> pr_tick s = TickDone \<Longrightarrow> list_all (\<lambda>pc. pc = RdDone) (pr_readers s) \<Longrightarrow>
    pool_step s (s\<lparr>pr_ctl := PoolStopped\<rparr>)"

definition pool_init :: "pool_sys \<Rightarrow> bool" where
  "pool_init s \<longleftrightarrow> (\<exists>dial now healthy. distinct (map inst_id healthy)
     \<and> s = TunnelPool_Start dial now healthy NewTunnelPool)"

text \<open>\<^verbatim>\<open>Stop\<close> up to the wait for the goroutines.\<close>

definition Stop_begin :: "pool_sys \<Rightarrow> pool_sys" where
  "Stop_begin s = s\<lparr>pr_pool := TunnelPool_Stop (pr_pool s), pr_ctl := PoolCleared\<rparr>"

lemma Stop_halves: "TunnelPool_Stop p = Stop_clear (Stop_signal p)"
  by (simp add: TunnelPool_Stop_def Stop_clear_def Stop_signal_def)

lemma Stop_begin_steps: "pr_ctl s = PoolRunning \<Longrightarrow> pool_step\<^sup>*\<^sup>* s (Stop_begin s)"
proof -
  let ?t = "s\<lparr>pr_pool := Stop_signal (pr_pool s), pr_ctl := PoolSignalled\<rparr>"
  assume "pr_ctl s = PoolRunning"
  then have "pool_step s ?t" by (rule pool_step.stop_signal)
  moreover have "pool_step ?t (Stop_begin s)"
    using pool_step.stop_clear [of ?t] by (simp add: Stop_begin_def Stop_halves)
  ultimately show ?thesis by simp
qed

text \<open>The read loop over a whole stream is a run of its rounds.\<close>

lemma dispatch_frame_steps:
  assumes "dispatch_frame f p = Some p'"
  shows "(read_step a)\<^sup>*\<^sup>* (p, RdFrame f) (p', RdCheck)"
proof (cases "ConnID f = 0 \<or> gm_get (tp_handlers p) (ConnID f) = None")
  case True
  with assms have "p' = p" by (auto simp: dispatch_frame_def split: if_splits)
  with read_step.ignore [OF True, of a] show ?thesis by simp
next
  case False
  then obtain ch where ch: "ConnID f \<noteq> 0" "gm_get (tp_handlers p) (ConnID f) = Some ch" by auto
  with assms have "chan_send ch f p = Some p'" by (simp add: dispatch_frame_def)
  from read_step.lookup [OF ch, of a] read_step.deliver [OF this, of a] show ?thesis
    by (meson converse_rtranclp_into_rtranclp r_into_rtranclp)
qed

lemma dispatch_frame_heap: "dispatch_frame f p = Some p' \<Longrightarrow> tp_heap p' = tp_heap p"
  by (auto simp: dispatch_frame_def chan_send_def split: if_splits option.splits)

lemma readLoop_steps:
  "readLoop clk a r p = Some p' \<Longrightarrow> \<not> tc_closed (tp_heap p ! a) \<Longrightarrow> (read_step a)\<^sup>*\<^sup>* (p, RdCheck) (p', RdDone)"
proof (induction clk a r p rule: readLoop.induct)
  case (1 clk a r p)
  show ?case
  proof (cases "tp_stopped p")
    case True
    with "1.prems"(1) have "p' = p" by (simp add: readLoop.simps)
    with read_step.check_stop [OF True, of a] show ?thesis by simp
  next
    case False
    note go = read_step.check_go [OF False, of a]
    obtain x r' where x: "ReadFrame r = (x, r')" by fastforce
    show ?thesis
    proof (cases x)
      case (Inl e)
      with "1.prems"(1) x False have "p' = p\<lparr>tp_heap := close_at a (tp_heap p)\<rparr>" by (simp add: readLoop.simps)
      with go read_step.read_error [of a p] show ?thesis
        by (meson converse_rtranclp_into_rtranclp r_into_rtranclp)
    next
      case (Inr f)
      define p1 where "p1 = p\<lparr>tp_heap := (tp_heap p)[a := (tp_heap p ! a)\<lparr>tc_lastRead := clk 0\<rparr>]\<rparr>"
      obtain p2 where p2: "dispatch_frame f p1 = Some p2" "readLoop (\<lambda>k. clk (Suc k)) a r' p2 = Some p'"
        using "1.prems"(1) x Inr False by (auto simp: readLoop.simps [of clk a r p] p1_def split: option.splits)
      have open2: "\<not> tc_closed (tp_heap p2 ! a)"
        using "1.prems"(2) dispatch_frame_heap [OF p2(1)]
        by (cases "a < length (tp_heap p)") (simp_all add: p1_def list_update_beyond)
      have "read_step a (p, RdRead) (p1, RdFrame f)"
        unfolding p1_def by (rule read_step.read_frame [OF "1.prems"(2)])
      with go have "(read_step a)\<^sup>*\<^sup>* (p, RdCheck) (p1, RdFrame f)" by simp
      also note dispatch_frame_steps [OF p2(1)]
      also note "1.IH" [OF False x [symmetric] Inr p1_def p2 open2]
      finally show ?thesis .
    qed
  qed
qed

subsection \<open>Open connections are pooled and read\<close>

definition open_pooled :: "TunnelPool \<Rightarrow> bool" where
  "open_pooled p \<longleftrightarrow> (\<forall>a < length (tp_heap p). \<not> tc_closed (tp_heap p ! a) \<longrightarrow>
     a \<in> set (conns_of p (tc_inst (tp_heap p ! a))))"

lemma conns_of_member: "a \<in> set (conns_of p i) \<Longrightarrow> \<exists>as. (i, as) \<in> set (tp_conns p) \<and> a \<in> set as"
  by (cases "gm_get (tp_conns p) i") (auto simp: conns_of_def dest: gm_get_entry)

lemma open_pooled_mono:
  assumes "open_pooled p" "heap_le (tp_heap p) (tp_heap p')" "length (tp_heap p') = length (tp_heap p)" "tp_conns p' = tp_conns p"
  shows "open_pooled p'"
  using assms by (auto simp: open_pooled_def heap_le_def conns_of_def)

lemma connect_one_open:
  assumes "open_pooled p"
  shows "open_pooled (p\<lparr>tp_heap := tp_heap p @ [connectInstance i now],
    tp_conns := gm_put i (conns_of p i @ [length (tp_heap p)]) (tp_conns p)\<rparr>)"
proof -
  have "conns_of (p\<lparr>tp_heap := h, tp_conns := tp_conns p\<rparr>) j = conns_of p j" for h j by (simp add: conns_of_def)
  with assms show ?thesis
    by (auto simp: open_pooled_def nth_append connectInstance_def less_Suc_eq)
qed

text \<open>What dialling changes: the connections only, by appending open ones that are pooled.\<close>

definition pool_grows :: "TunnelPool \<Rightarrow> TunnelPool \<Rightarrow> bool" where
  "pool_grows p p' \<longleftrightarrow> heap_le (tp_heap p) (tp_heap p') \<and> tp_chans p' = tp_chans p
     \<and> tp_handlers p' = tp_handlers p \<and> tp_stopped p' = tp_stopped p \<and> (open_pooled p \<longrightarrow> open_pooled p')"

lemma pool_grows_refl: "pool_grows p p"
  by (simp add: pool_grows_def)

lemma pool_grows_trans: "pool_grows p q \<Longrightarrow> pool_grows q r \<Longrightarrow> pool_grows p r"
  using heap_le_trans by (auto simp: pool_grows_def)

lemma connect_more_grows: "pool_grows p (connect_more dial now i k need p)"
proof (induction need arbitrary: p k)
  case (Suc need)
  let ?p = "p\<lparr>tp_heap := tp_heap p @ [connectInstance i now],
    tp_conns := gm_put i (conns_of p i @ [length (tp_heap p)]) (tp_conns p)\<rparr>"
  have "pool_grows p ?p"
    using connect_one_open [of p i now] by (simp add: pool_grows_def heap_le_def nth_append)
  from pool_grows_trans [OF this Suc.IH [of ?p "Suc k"]] show ?case by (simp add: pool_grows_refl)
qed (simp add: pool_grows_refl)

lemma replenish_grows: "pool_grows p (replenish dial now xs p)"
proof (induction xs arbitrary: p)
  case (Cons inst xs)
  show ?case
    using pool_grows_trans [OF connect_more_grows Cons.IH] Cons.IH by simp
qed (simp add: pool_grows_refl)

lemma prune_heap_le: "prune ids now m h = (m', h') \<Longrightarrow> heap_le h h' \<and> length h' = length h"
proof (induction m arbitrary: h m')
  case (Cons e rest)
  obtain i as where e: "e = (i, as)" by fastforce
  define alive where "alive = (if i \<in> set ids then filter (\<lambda>a. keep_conn now (h ! a)) as else [])"
  define h1 where "h1 = fold close_at (filter (\<lambda>a. a \<notin> set alive) as) h"
  obtain m2 where "prune ids now rest h1 = (m2, h')"
    using Cons.prems e by (auto simp: Let_def alive_def h1_def split: prod.splits)
  from Cons.IH [OF this] have "heap_le h1 h'" "length h' = length h" by (simp_all add: h1_def)
  with heap_le_trans [of h h1 h'] heap_le_fold_close [of h] show ?case by (simp add: h1_def)
qed simp

text \<open>A connection that pruning leaves open stays in the map.\<close>

lemma prune_keeps_open:
  assumes "prune ids now m h = (m', h')" "(i, as) \<in> set m" "a \<in> set as" "a < length h" "\<not> tc_closed (h' ! a)"
  shows "\<exists>as'. (i, as') \<in> set m' \<and> a \<in> set as'"
  using assms
proof (induction m arbitrary: h m')
  case (Cons e rest)
  obtain j bs where e: "e = (j, bs)" by fastforce
  define alive where "alive = (if j \<in> set ids then filter (\<lambda>a. keep_conn now (h ! a)) bs else [])"
  define h1 where "h1 = fold close_at (filter (\<lambda>a. a \<notin> set alive) bs) h"
  obtain m2 where r: "prune ids now rest h1 = (m2, h')" "m' = (if alive = [] then m2 else (j, alive) # m2)"
    using Cons.prems(1) e by (auto simp: Let_def alive_def h1_def split: prod.splits)
  have len: "length h1 = length h" by (simp add: h1_def)
  show ?case
  proof (cases "(i, as) \<in> set rest")
    case True
    with Cons.IH [OF r(1) True Cons.prems(3)] Cons.prems(4,5) len r(2) show ?thesis by auto
  next
    case False
    with Cons.prems(2) e have ij: "i = j" "as = bs" by auto
    have "\<not> tc_closed (h1 ! a)"
      using prune_heap_le [OF r(1)] Cons.prems(4,5) len by (auto simp: heap_le_def)
    then have "a \<in> set alive"
      using Cons.prems(3,4) ij by (auto simp: h1_def fold_close_nth split: if_splits)
    with ij r(2) show ?thesis by (auto split: if_splits)
  qed
qed simp

lemma refresh_grows:
  assumes "pool_inv p" "p' = refreshConnections dial now healthy p"
  shows "pool_grows p p'"
proof -
  obtain m h where pr: "prune (map inst_id healthy) now (tp_conns p) (tp_heap p) = (m, h)" by fastforce
  let ?q = "p\<lparr>tp_conns := m, tp_heap := h\<rparr>"
  have ok: "conns_ok (tp_conns p) (tp_heap p)" "list_all aligned (tp_heap p)" using assms(1) by (simp_all add: pool_inv_def)
  have gm: "gm_ok m" using prune_spec [OF pr ok] by (simp add: conns_ok_def)
  note le = prune_heap_le [OF pr]
  have "open_pooled ?q" if "open_pooled p"
    unfolding open_pooled_def
  proof (intro allI impI)
    fix a assume a: "a < length (tp_heap ?q)" "\<not> tc_closed (tp_heap ?q ! a)"
    define i where "i = tc_inst (tp_heap p ! a)"
    have inst: "tc_inst (h ! a) = i" "\<not> tc_closed (tp_heap p ! a)" "a < length (tp_heap p)"
      using a le by (auto simp: heap_le_def i_def)
    with that have "a \<in> set (conns_of p i)" by (simp add: open_pooled_def i_def)
    then obtain as where "(i, as) \<in> set (tp_conns p)" "a \<in> set as"
      using conns_of_member by blast
    from prune_keeps_open [OF pr this] inst(3) a(2) obtain as' where "(i, as') \<in> set m" "a \<in> set as'" by auto
    with gm_get_member [OF gm] inst(1) show "a \<in> set (conns_of ?q (tc_inst (tp_heap ?q ! a)))" by (simp add: conns_of_def)
  qed
  with le have "pool_grows p ?q" by (simp add: pool_grows_def)
  from pool_grows_trans [OF this replenish_grows] have "pool_grows p (replenish dial now healthy ?q)" .
  moreover have "p' = replenish dial now healthy ?q \<or> p' = (replenish dial now healthy ?q)\<lparr>tp_ready := True\<rparr>"
    using assms(2) pr by (simp add: refreshConnections_def Let_def)
  ultimately show ?thesis by (auto simp: pool_grows_def open_pooled_def conns_of_def)
qed

lemma Stop_clear_closes:
  assumes "open_pooled p" "a < length (tp_heap p)"
  shows "tc_closed (tp_heap (Stop_clear p) ! a)"
proof (cases "tc_closed (tp_heap p ! a)")
  case True
  then show ?thesis using assms(2) by (simp add: Stop_clear_def fold_close_nth)
next
  case False
  with assms have "a \<in> set (conns_of p (tc_inst (tp_heap p ! a)))" by (simp add: open_pooled_def)
  then obtain i as where "(i, as) \<in> set (tp_conns p)" "a \<in> set as"
    using conns_of_member by blast
  then show ?thesis using assms(2) by (auto simp: Stop_clear_def fold_close_nth)
qed

subsection \<open>The invariant of the running pool\<close>

definition reader_ok :: "pool_ctl \<Rightarrow> TunnelPool \<Rightarrow> nat \<Rightarrow> read_pc \<Rightarrow> bool" where
  "reader_ok c p a pc \<longleftrightarrow>
     (case pc of
        RdDone \<Rightarrow> tc_closed (tp_heap p ! a) \<or> tp_stopped p
      | RdRead \<Rightarrow> c \<in> {PoolRunning, PoolSignalled} \<or> tc_closed (tp_heap p ! a)
      | RdSend ch f \<Rightarrow> ch < length (tp_chans p)
      | _ \<Rightarrow> True)"

definition run_inv :: "pool_sys \<Rightarrow> bool" where
  "run_inv s \<longleftrightarrow> pool_inv (pr_pool s) \<and> open_pooled (pr_pool s)
     \<and> length (pr_readers s) = length (tp_heap (pr_pool s))
     \<and> (\<forall>a < length (pr_readers s). reader_ok (pr_ctl s) (pr_pool s) a (pr_readers s ! a))
     \<and> (tp_stopped (pr_pool s) \<longleftrightarrow> pr_ctl s \<noteq> PoolRunning)
     \<and> (pr_ctl s = PoolStopped \<longrightarrow> pr_tick s = TickDone \<and> (\<forall>a < length (pr_readers s). pr_readers s ! a = RdDone))"

lemma run_invD:
  assumes "run_inv s"
  shows "pool_inv (pr_pool s)" "open_pooled (pr_pool s)" "length (pr_readers s) = length (tp_heap (pr_pool s))"
    "a < length (tp_heap (pr_pool s)) \<Longrightarrow> reader_ok (pr_ctl s) (pr_pool s) a (pr_readers s ! a)"
  using assms by (simp_all add: run_inv_def)

lemma handlers_ok_queue:
  "handlers_ok hs chans \<Longrightarrow> length q \<le> handler_cap \<Longrightarrow> handlers_ok hs (chans[ch := (chans ! ch)\<lparr>hc_queue := q\<rparr>])"
  by (auto simp: handlers_ok_def nth_update_if)

lemma pool_inv_chan_send:
  assumes "pool_inv p" "chan_send ch f p = Some p'" "ch < length (tp_chans p)"
  shows "pool_inv p' \<and> tp_heap p' = tp_heap p \<and> tp_conns p' = tp_conns p \<and> tp_stopped p' = tp_stopped p
    \<and> length (tp_chans p') = length (tp_chans p)"
proof -
  have "length (hc_queue (tp_chans p ! ch)) \<le> handler_cap" using assms(1,3) by (simp add: pool_inv_def handlers_ok_def)
  then have "length (fst (chan_trysend handler_cap f (hc_queue (tp_chans p ! ch)))) \<le> handler_cap"
    by (simp add: chan_trysend_def)
  with assms handlers_ok_queue show ?thesis by (auto simp: chan_send_def pool_inv_def split: if_splits)
qed

lemma SendFrame_heap:
  assumes "pool_inv p" "SendFrame out now i f p = (res, p')"
  shows "heap_le (tp_heap p) (tp_heap p') \<and> length (tp_heap p') = length (tp_heap p) \<and> tp_stopped p' = tp_stopped p"
proof (cases "conns_of p i = []")
  case False
  let ?start = "sint (tp_roundRobin p + 1) smod int (length (conns_of p i))"
  obtain heap where l: "send_loop out now f (conns_of p i) ?start 0 (length (conns_of p i)) (tp_heap p) = (res, heap)"
      "p' = p\<lparr>tp_roundRobin := tp_roundRobin p + 1, tp_heap := heap\<rparr>"
    using assms(2) False by (auto simp: SendFrame_def Let_def split: prod.splits)
  have "list_all aligned (tp_heap p)" using assms(1) by (simp add: pool_inv_def)
  moreover have "\<forall>a \<in> set (conns_of p i). a < length (tp_heap p)" using conns_of_addr [OF assms(1)] by blast
  ultimately show ?thesis using send_loop_spec [OF l(1)] l(2) by (simp add: heap_sent_def)
qed (use assms(2) in \<open>simp add: SendFrame_def\<close>)

text \<open>A step that moves no reader, opens no connection and forgets no channel.\<close>

lemma run_inv_weaken:
  assumes "run_inv s" "pool_inv (pr_pool t)" "tp_conns (pr_pool t) = tp_conns (pr_pool s)"
    and "heap_le (tp_heap (pr_pool s)) (tp_heap (pr_pool t))" "length (tp_heap (pr_pool t)) = length (tp_heap (pr_pool s))"
    and "length (tp_chans (pr_pool s)) \<le> length (tp_chans (pr_pool t))" "tp_stopped (pr_pool t) = tp_stopped (pr_pool s)"
    and "pr_readers t = pr_readers s" "pr_ctl t = pr_ctl s" "pr_tick t = pr_tick s \<or> pr_tick s = TickWait"
  shows "run_inv t"
proof -
  have "reader_ok (pr_ctl t) (pr_pool t) a (pr_readers t ! a)" if "a < length (tp_heap (pr_pool s))" for a
    using run_invD(4) [OF assms(1) that] that assms(4-9)
    by (auto simp: reader_ok_def heap_le_def split: read_pc.splits)
  moreover have "open_pooled (pr_pool t)"
    using open_pooled_mono [OF run_invD(2) [OF assms(1)] assms(4,5,3)] .
  ultimately show ?thesis using assms by (auto simp: run_inv_def)
qed

text \<open>One round of a reader.\<close>

lemma read_step_pool:
  assumes "read_step a (p, pc) (p', pc')" "pool_inv p" "reader_ok c p a pc"
  shows "pool_inv p' \<and> heap_le (tp_heap p) (tp_heap p') \<and> length (tp_heap p') = length (tp_heap p)
    \<and> tp_conns p' = tp_conns p \<and> tp_stopped p' = tp_stopped p \<and> length (tp_chans p') = length (tp_chans p)"
  using assms(1)
proof (rule read_stepE)
  fix now f assume "p' = p\<lparr>tp_heap := (tp_heap p)[a := (tp_heap p ! a)\<lparr>tc_lastRead := now\<rparr>]\<rparr>"
  with pool_inv_lastRead [OF assms(2)] show ?thesis by (simp add: heap_le_update)
next
  assume "p' = p\<lparr>tp_heap := close_at a (tp_heap p)\<rparr>"
  with assms(2) close_at_aligned heap_le_close_at conns_ok_mono show ?thesis by (auto simp: pool_inv_def)
next
  fix ch f assume "pc = RdSend ch f" "chan_send ch f p = Some p'"
  with pool_inv_chan_send [OF assms(2)] assms(3) show ?thesis by (simp add: reader_ok_def)
qed (use assms(2) in simp_all)

lemma read_step_reader:
  assumes "read_step a (p, pc) (p', pc')" "pool_inv p" "reader_ok c p a pc" "a < length (tp_heap p)"
    and "tp_stopped p \<longleftrightarrow> c \<noteq> PoolRunning"
  shows "reader_ok c p' a pc' \<and> pc \<noteq> RdDone"
  using assms(1)
  by (rule read_stepE) (use assms in \<open>auto simp: reader_ok_def close_at_def pool_inv_def handlers_ok_def\<close>)

lemma run_inv_reader:
  assumes "run_inv s" "a < length (pr_readers s)" "read_step a (pr_pool s, pr_readers s ! a) (p', pc')"
  shows "run_inv (s\<lparr>pr_pool := p', pr_readers := (pr_readers s)[a := pc']\<rparr>)"
proof -
  note inv = run_invD [OF assms(1)]
  have a: "a < length (tp_heap (pr_pool s))" using assms(2) inv(3) by simp
  have st: "tp_stopped (pr_pool s) \<longleftrightarrow> pr_ctl s \<noteq> PoolRunning" using assms(1) by (simp add: run_inv_def)
  note p' = read_step_pool [OF assms(3) inv(1) inv(4) [OF a]]
  note own = read_step_reader [OF assms(3) inv(1) inv(4) [OF a] a st]
  have "reader_ok (pr_ctl s) p' b (pr_readers s ! b)" if "b < length (tp_heap (pr_pool s))" for b
    using inv(4) [OF that] that p' by (auto simp: reader_ok_def heap_le_def split: read_pc.splits)
  moreover have "pr_ctl s \<noteq> PoolStopped" using own assms(1,2) by (auto simp: run_inv_def)
  moreover have "open_pooled p'" using open_pooled_mono [OF inv(2)] p' by blast
  ultimately show ?thesis using assms(1,2) p' own st by (simp add: run_inv_def nth_list_update)
qed

lemma run_inv_refresh:
  assumes "run_inv s" "pr_tick s = TickFired" "distinct (map inst_id healthy)"
    and "p' = refreshConnections dial now healthy (pr_pool s)"
  shows "run_inv (s\<lparr>pr_pool := p', pr_tick := TickWait,
      pr_readers := pr_readers s @ replicate (length (tp_heap p') - length (tp_heap (pr_pool s))) RdCheck\<rparr>)"
proof -
  note inv = run_invD [OF assms(1)]
  have g: "pool_grows (pr_pool s) p'" by (rule refresh_grows [OF inv(1) assms(4)])
  have p': "pool_inv p'" using refreshConnections_spec [OF inv(1) assms(3,4)] by simp
  have "reader_ok (pr_ctl s) p' b (pr_readers s ! b)" if "b < length (tp_heap (pr_pool s))" for b
    using inv(4) [OF that] that g by (auto simp: reader_ok_def pool_grows_def heap_le_def split: read_pc.splits)
  moreover have "reader_ok c p' b RdCheck" for c b by (simp add: reader_ok_def)
  ultimately show ?thesis
    using assms(1,2) p' g inv(2,3) by (auto simp: run_inv_def pool_grows_def heap_le_def nth_append)
qed

lemma run_inv_stop_clear:
  assumes "run_inv s" "pr_ctl s = PoolSignalled"
  shows "run_inv (s\<lparr>pr_pool := Stop_clear (pr_pool s), pr_ctl := PoolCleared\<rparr>)"
proof -
  note inv = run_invD [OF assms(1)]
  have p': "pool_inv (Stop_clear (pr_pool s))"
    using inv(1) by (auto simp: pool_inv_def Stop_clear_def conns_ok_def intro: fold_close_aligned)
  have closed: "tc_closed (tp_heap (Stop_clear (pr_pool s)) ! a)" if "a < length (tp_heap (pr_pool s))" for a
    by (rule Stop_clear_closes [OF inv(2) that])
  have same: "length (tp_heap (Stop_clear (pr_pool s))) = length (tp_heap (pr_pool s))"
    "tp_chans (Stop_clear (pr_pool s)) = tp_chans (pr_pool s)" "tp_stopped (Stop_clear (pr_pool s)) = tp_stopped (pr_pool s)"
    by (simp_all add: Stop_clear_def)
  have "reader_ok PoolCleared (Stop_clear (pr_pool s)) a (pr_readers s ! a)" if "a < length (tp_heap (pr_pool s))" for a
    using inv(4) [OF that] closed [OF that] same by (auto simp: reader_ok_def split: read_pc.splits)
  then show ?thesis
    using assms p' closed same by (auto simp: run_inv_def open_pooled_def)
qed

lemma run_inv_step:
  assumes "run_inv s" "pool_step s t"
  shows "run_inv t"
  using assms(2)
proof (cases rule: pool_step.cases)
  case (tick_refresh healthy p' dial now)
  then show ?thesis using run_inv_refresh [OF assms(1)] by simp
next
  case (reader a p' pc')
  then show ?thesis using run_inv_reader [OF assms(1)] by simp
next
  case (send out now i f res p')
  have "heap_le (tp_heap (pr_pool s)) (tp_heap p') \<and> length (tp_heap p') = length (tp_heap (pr_pool s))
      \<and> tp_stopped p' = tp_stopped (pr_pool s)"
    by (rule SendFrame_heap [OF run_invD(1) [OF assms(1)] send(2)])
  with pool_inv_SendFrame [OF run_invD(1) [OF assms(1)] send(2)] send(1) show ?thesis
    by (intro run_inv_weaken [OF assms(1)]) simp_all
next
  case (register c ch p')
  with pool_inv_RegisterConn [OF run_invD(1) [OF assms(1)], of c] show ?thesis
    by (intro run_inv_weaken [OF assms(1)]) (auto simp: RegisterConn_def Let_def)
next
  case (unregister c)
  with pool_inv_UnregisterConn [OF run_invD(1) [OF assms(1)], of c] show ?thesis
    by (intro run_inv_weaken [OF assms(1)]) (auto simp: UnregisterConn_def split: option.splits)
next
  case (receive ch)
  have h: "handlers_ok (tp_handlers (pr_pool s)) (tp_chans (pr_pool s))"
    using run_invD(1) [OF assms(1)] by (simp add: pool_inv_def)
  then have "length (hc_queue (tp_chans (pr_pool s) ! ch)) \<le> handler_cap" using receive(2) by (simp add: handlers_ok_def)
  then have "pool_inv (chan_receive ch (pr_pool s))"
    using run_invD(1) [OF assms(1)] by (simp add: pool_inv_def chan_receive_def handlers_ok_queue [OF h])
  with receive(1) show ?thesis by (intro run_inv_weaken [OF assms(1)]) (simp_all add: chan_receive_def)
next
  case stop_clear
  then show ?thesis using run_inv_stop_clear [OF assms(1)] by simp
next
  case stop_signal
  have "reader_ok PoolSignalled (Stop_signal (pr_pool s)) a (pr_readers s ! a)" if "a < length (tp_heap (pr_pool s))" for a
    using run_invD(4) [OF assms(1) that] by (simp add: reader_ok_def Stop_signal_def split: read_pc.splits)
  with stop_signal assms(1) show ?thesis
    by (simp add: run_inv_def Stop_signal_def pool_inv_def open_pooled_def conns_of_def)
qed (use assms(1) in \<open>auto simp: run_inv_def list_all_length reader_ok_def\<close>)

lemma run_inv_init: "pool_init s \<Longrightarrow> run_inv s"
proof -
  assume "pool_init s"
  then obtain dial now healthy where s: "distinct (map inst_id healthy)" "s = TunnelPool_Start dial now healthy NewTunnelPool"
    by (auto simp: pool_init_def)
  define p where "p = refreshConnections dial now healthy NewTunnelPool"
  have "open_pooled NewTunnelPool" by (simp add: open_pooled_def NewTunnelPool_def)
  then have "open_pooled p" "tp_stopped p = tp_stopped NewTunnelPool"
    using refresh_grows [OF pool_inv_new p_def] by (simp_all add: pool_grows_def)
  moreover have "pool_inv p" using refreshConnections_spec [OF pool_inv_new s(1) p_def] by simp
  ultimately show ?thesis
    unfolding s(2) TunnelPool_Start_def p_def [symmetric]
    by (simp add: run_inv_def reader_ok_def NewTunnelPool_def)
qed

interpretation pool_run: invariant_system pool_init pool_step run_inv
  using run_inv_init run_inv_step by unfold_locales

subsection \<open>Properties\<close>

text \<open>
  C11. The pool stays well formed under every interleaving of refreshes, senders, readers, client connections and \<^verbatim>\<open>Stop\<close>:
  an instance has at most eight connections, all its own, and no connection belongs to two entries; every connection that is open is
  in the pool, and as long as \<^verbatim>\<open>Stop\<close> has not been called it has a reader (from then on a refresh that is already under way can leave open
  connections that nobody reads, \<open>stop_race_leaks_connection\<close>); a registered id has an open channel of its own, with at most 256 frames; and
  when \<^verbatim>\<open>Stop\<close> has returned the ticker and all readers are gone.
\<close>

theorem pool_well_formed:
  assumes "pool_init s" "pool_step\<^sup>*\<^sup>* s t"
  shows "length (conns_of (pr_pool t) i) \<le> 8 \<and> distinct (conns_of (pr_pool t) i)
    \<and> (\<forall>a \<in> set (conns_of (pr_pool t) i). a < length (tp_heap (pr_pool t)) \<and> tc_inst (tp_heap (pr_pool t) ! a) = i)
    \<and> (\<forall>a < length (tp_heap (pr_pool t)). \<not> tc_closed (tp_heap (pr_pool t) ! a) \<longrightarrow>
         a \<in> set (conns_of (pr_pool t) (tc_inst (tp_heap (pr_pool t) ! a)))
         \<and> (pr_ctl t = PoolRunning \<longrightarrow> pr_readers t ! a \<noteq> RdDone))
    \<and> (\<forall>c ch. gm_get (tp_handlers (pr_pool t)) c = Some ch \<longrightarrow>
         ch < length (tp_chans (pr_pool t)) \<and> hc_open (tp_chans (pr_pool t) ! ch)
         \<and> length (hc_queue (tp_chans (pr_pool t) ! ch)) \<le> 256
         \<and> (\<forall>c'. gm_get (tp_handlers (pr_pool t)) c' = Some ch \<longrightarrow> c' = c))
    \<and> (pr_ctl t = PoolStopped \<longrightarrow> pr_tick t = TickDone \<and> set (pr_readers t) \<subseteq> {RdDone})"
proof -
  have inv: "run_inv t" by (rule pool_run.reachable_inv [OF assms])
  note d = run_invD [OF inv]
  have h: "handlers_ok (tp_handlers (pr_pool t)) (tp_chans (pr_pool t))" using d(1) by (simp add: pool_inv_def)
  have "pr_readers t ! a \<noteq> RdDone"
    if "a < length (tp_heap (pr_pool t))" "\<not> tc_closed (tp_heap (pr_pool t) ! a)" "pr_ctl t = PoolRunning" for a
    using d(4) [OF that(1)] that(2,3) inv by (auto simp: reader_ok_def run_inv_def)
  moreover have "pr_ctl t = PoolStopped \<longrightarrow> pr_tick t = TickDone \<and> set (pr_readers t) \<subseteq> {RdDone}"
    using inv by (auto simp: run_inv_def in_set_conv_nth)
  moreover have "\<forall>a \<in> set (conns_of (pr_pool t) i). a < length (tp_heap (pr_pool t)) \<and> tc_inst (tp_heap (pr_pool t) ! a) = i"
    using conns_of_addr [OF d(1)] by blast
  moreover have "\<forall>c ch. gm_get (tp_handlers (pr_pool t)) c = Some ch \<longrightarrow>
      ch < length (tp_chans (pr_pool t)) \<and> hc_open (tp_chans (pr_pool t) ! ch)
      \<and> length (hc_queue (tp_chans (pr_pool t) ! ch)) \<le> 256
      \<and> (\<forall>c'. gm_get (tp_handlers (pr_pool t)) c' = Some ch \<longrightarrow> c' = c)"
    using h by (simp add: handlers_ok_def handler_cap_def)
  ultimately show ?thesis
    using conns_of_bound [OF d(1), of i] d(2) by (auto simp: ConnsPerInstance_def open_pooled_def)
qed

text \<open>A pool without healthy instances whose ticker fires just before \<^verbatim>\<open>Stop\<close> and whose refresh runs after it.\<close>

definition late :: "tick_pc \<Rightarrow> TunnelPool \<Rightarrow> read_pc list \<Rightarrow> pool_ctl \<Rightarrow> pool_sys" where
  "late tk p rs c = \<lparr>pr_pool = p, pr_tick = tk, pr_readers = rs, pr_ctl = c\<rparr>"

definition late_pool :: TunnelPool where
  "late_pool = refreshConnections (\<lambda>_ k. k = 0) 5 [sample_instance] (NewTunnelPool\<lparr>tp_stopped := True\<rparr>)"

lemma late_pool: "late_pool = \<lparr>tp_heap = [connectInstance 0 5], tp_conns = [(0, [0])], tp_chans = [], tp_handlers = [],
    tp_stopped = True, tp_ready = True, tp_roundRobin = 0\<rparr>"
  by (simp add: late_pool_def refreshConnections_def NewTunnelPool_def sample_instance_def NewInstance_def
      ConnsPerInstance_def conns_of_def numeral_eq_Suc gm_get_def gm_put_def)

lemma late_start: "pool_init (late TickWait NewTunnelPool [] PoolRunning)"
proof -
  have "TunnelPool_Start (\<lambda>_ _. False) 0 [] NewTunnelPool = late TickWait NewTunnelPool [] PoolRunning"
    by (simp add: TunnelPool_Start_def refreshConnections_def NewTunnelPool_def late_def)
  then show ?thesis unfolding pool_init_def by (intro exI [of _ "\<lambda>_ _. False"] exI [of _ 0] exI [of _ "[]"]) simp
qed

lemma late_run: "pool_step\<^sup>*\<^sup>* (late TickWait NewTunnelPool [] PoolRunning) (late TickDone late_pool [RdDone] PoolStopped)"
proof -
  let ?p = "NewTunnelPool\<lparr>tp_stopped := True\<rparr>"
  note [trans] = rtranclp.rtrancl_into_rtrancl
  have "pool_step\<^sup>*\<^sup>* (late TickWait NewTunnelPool [] PoolRunning) (late TickWait NewTunnelPool [] PoolRunning)" by simp
  also have "pool_step (late TickWait NewTunnelPool [] PoolRunning) (late TickFired NewTunnelPool [] PoolRunning)"
    using pool_step.tick_fires [of "late TickWait NewTunnelPool [] PoolRunning"] by (simp add: late_def)
  also have "pool_step (late TickFired NewTunnelPool [] PoolRunning) (late TickFired ?p [] PoolSignalled)"
    using pool_step.stop_signal [of "late TickFired NewTunnelPool [] PoolRunning"] by (simp add: late_def Stop_signal_def)
  also have "pool_step (late TickFired ?p [] PoolSignalled) (late TickFired ?p [] PoolCleared)"
    using pool_step.stop_clear [of "late TickFired ?p [] PoolSignalled"]
    by (simp add: late_def Stop_clear_def NewTunnelPool_def)
  also have "pool_step (late TickFired ?p [] PoolCleared) (late TickWait late_pool [RdCheck] PoolCleared)"
    using pool_step.tick_refresh [of "late TickFired ?p [] PoolCleared" "[sample_instance]" late_pool "\<lambda>_ k. k = 0" 5]
    by (simp add: late_def late_pool_def [symmetric]) (simp add: late_pool NewTunnelPool_def)
  also have "pool_step (late TickWait late_pool [RdCheck] PoolCleared) (late TickWait late_pool [RdDone] PoolCleared)"
    using pool_step.reader [of 0 "late TickWait late_pool [RdCheck] PoolCleared" late_pool RdDone]
      read_step.check_stop [of late_pool 0] by (simp add: late_def late_pool)
  also have "pool_step (late TickWait late_pool [RdDone] PoolCleared) (late TickDone late_pool [RdDone] PoolCleared)"
    using pool_step.tick_stops [of "late TickWait late_pool [RdDone] PoolCleared"] by (simp add: late_def late_pool)
  also have "pool_step (late TickDone late_pool [RdDone] PoolCleared) (late TickDone late_pool [RdDone] PoolStopped)"
    using pool_step.stop_returns [of "late TickDone late_pool [RdDone] PoolCleared"] by (simp add: late_def)
  finally show ?thesis .
qed

theorem pool_well_formed_witness:
  "length (conns_of late_pool 0) \<le> 8 \<and> distinct (conns_of late_pool 0)"
  using pool_well_formed [OF late_start late_run, of 0] by (simp add: late_def)

text \<open>
  A refresh that is due when \<^verbatim>\<open>Stop\<close> begins runs after \<^verbatim>\<open>Stop\<close> has closed the connections: it opens new ones, whose readers leave without
  closing them, and \<^verbatim>\<open>Stop\<close> returns with an open connection in the pool that nobody reads.
\<close>

theorem stop_race_leaks_connection:
  "\<exists>s t. pool_init s \<and> pool_step\<^sup>*\<^sup>* s t \<and> pr_ctl t = PoolStopped \<and> HasTunnels (pr_pool t)
     \<and> pr_readers t = [RdDone]"
  using late_start late_run
  by (intro exI [of _ "late TickWait NewTunnelPool [] PoolRunning"] exI [of _ "late TickDone late_pool [RdDone] PoolStopped"])
    (simp add: late_def late_pool HasTunnels_def connectInstance_def)

end
