(* ===== verification/Splitter.thy ===== *)
theory Splitter
  imports Pool Reorder Weighted
begin

text \<open>
  \<^verbatim>\<open>internal/tunnel/splitter.go\<close>: the splitter of one client connection.  It numbers the chunks it
  reads from the client, sends each over an instance chosen by weighted round-robin, and puts the frames of the
  reverse direction back in order.  The health of an instance at the time of a pick, what the client sends and accepts,
  and the clock are arguments.  The sending side is an argument too (\<open>send\<close>), instantiated with
  the pool.
\<close>

subsection \<open>State\<close>

record PacketSplitter =
  ps_connID :: u32
  ps_instances :: "Instance list"
  ps_chunkSize :: int
  ps_incoming :: nat
  ps_txSeq :: u32
  ps_weights :: "int list"
  ps_current :: int
  ps_counter :: int

definition recalcWeights :: "PacketSplitter \<Rightarrow> PacketSplitter" where
  "recalcWeights ps =
     (let maxPing = foldl (\<lambda>m inst. if inst_lastPingMs inst > m then inst_lastPingMs inst else m) 1 (ps_instances ps)
      in ps\<lparr>ps_weights := map (\<lambda>inst.
           let ping = (if inst_lastPingMs inst \<le> 0 then maxPing else inst_lastPingMs inst);
               w = maxPing sdiv ping
           in if w < 1 then 1 else w) (ps_instances ps)\<rparr>)"

definition NewPacketSplitter ::
  "u32 \<Rightarrow> TunnelPool \<Rightarrow> Instance list \<Rightarrow> int \<Rightarrow> PacketSplitter \<times> TunnelPool" where
  "NewPacketSplitter connID pool instances chunkSize =
     (case RegisterConn connID pool of
        (ch, pool') \<Rightarrow>
          (recalcWeights \<lparr>ps_connID = connID, ps_instances = instances, ps_chunkSize = chunkSize,
             ps_incoming = ch, ps_txSeq = 0, ps_weights = [], ps_current = 0, ps_counter = 0\<rparr>, pool'))"

subsection \<open>Choosing an instance\<close>

text \<open>Index errors are \<open>None\<close>; \<open>healthy i\<close> is what \<^verbatim>\<open>IsHealthy\<close> of instance \<open>i\<close> answers.\<close>

definition advance :: "PacketSplitter \<Rightarrow> PacketSplitter" where
  "advance ps = ps\<lparr>ps_counter := 0,
     ps_current := i64 (ps_current ps + 1) smod int (length (ps_instances ps))\<rparr>"

fun pick_loop ::
  "(nat \<Rightarrow> bool) \<Rightarrow> nat \<Rightarrow> PacketSplitter \<Rightarrow> (Instance option \<times> PacketSplitter) option" where
  "pick_loop healthy 0 ps = Some (None, ps)"
| "pick_loop healthy (Suc attempts) ps =
     (case go_index (ps_weights ps) (ps_current ps) of
        None \<Rightarrow> None
      | Some weight \<Rightarrow>
          let ps1 = (if ps_counter ps \<ge> weight then advance ps else ps);
              ps2 = ps1\<lparr>ps_counter := i64 (ps_counter ps1 + 1)\<rparr>
          in case go_index (ps_instances ps2) (ps_current ps2) of
               None \<Rightarrow> None
             | Some inst \<Rightarrow>
                 if healthy (inst_id inst) then Some (Some inst, ps2)
                 else pick_loop healthy attempts (advance ps2))"

definition pickInstance ::
  "(nat \<Rightarrow> bool) \<Rightarrow> PacketSplitter \<Rightarrow> (Instance option \<times> PacketSplitter) option" where
  "pickInstance healthy ps =
     (if ps_instances ps = [] then Some (None, ps)
      else case pick_loop healthy (length (ps_instances ps) * 2) ps of
             None \<Rightarrow> None
           | Some (Some inst, ps') \<Rightarrow> Some (Some inst, ps')
           | Some (None, ps') \<Rightarrow> Some (find (\<lambda>inst. healthy (inst_id inst)) (ps_instances ps'), ps'))"

definition pickInstanceExcluding :: "(nat \<Rightarrow> bool) \<Rightarrow> nat \<Rightarrow> PacketSplitter \<Rightarrow> Instance option" where
  "pickInstanceExcluding healthy excludeID ps =
     find (\<lambda>inst. inst_id inst \<noteq> excludeID \<and> healthy (inst_id inst)) (ps_instances ps)"

subsection \<open>Opening, closing and sending\<close>

type_synonym ('e, 'p) sender = "'e \<Rightarrow> nat \<Rightarrow> Frame \<Rightarrow> 'p \<Rightarrow> bool \<times> 'p"

text \<open>The next frame of the connection.\<close>

definition next_frame :: "byte \<Rightarrow> slice \<Rightarrow> PacketSplitter \<Rightarrow> Frame \<times> PacketSplitter" where
  "next_frame flags payload ps =
     (\<lparr>ConnID = ps_connID ps, SeqNum = ps_txSeq ps + 1 - 1, Flags = flags, Payload = payload\<rparr>,
      ps\<lparr>ps_txSeq := ps_txSeq ps + 1\<rparr>)"

text \<open>One frame to every instance; the number of successes.\<close>

fun send_all :: "('e, 'p) sender \<Rightarrow> (nat \<Rightarrow> 'e) \<Rightarrow> Frame \<Rightarrow> Instance list \<Rightarrow> 'p \<Rightarrow> nat \<times> 'p" where
  "send_all send env f [] p = (0, p)"
| "send_all send env f (inst # rest) p =
     (case send (env (inst_id inst)) (inst_id inst) f p of
        (ok, p') \<Rightarrow> case send_all send env f rest p' of (n, p'') \<Rightarrow> (if ok then Suc n else n, p''))"

definition SendSYN ::
  "('e, 'p) sender \<Rightarrow> (nat \<Rightarrow> 'e) \<Rightarrow> byte \<Rightarrow> bytes \<Rightarrow> bytes \<Rightarrow> PacketSplitter \<Rightarrow> 'p
     \<Rightarrow> bool \<times> PacketSplitter \<times> 'p" where
  "SendSYN send env atyp addr port ps p =
     (case next_frame FlagSYN (Some (EncodeSYNPayload atyp addr port)) ps of
        (f, ps') \<Rightarrow> case send_all send env f (ps_instances ps') p of (n, p') \<Rightarrow> (n \<noteq> 0, ps', p'))"

definition PacketSplitter_Close ::
  "('e, 'p) sender \<Rightarrow> (u32 \<Rightarrow> 'p \<Rightarrow> 'p) \<Rightarrow> (nat \<Rightarrow> 'e) \<Rightarrow> PacketSplitter \<Rightarrow> 'p \<Rightarrow> PacketSplitter \<times> 'p" where
  "PacketSplitter_Close send unregister env ps p =
     (case next_frame FlagFIN None ps of
        (f, ps') \<Rightarrow> case send_all send env f (ps_instances ps') p of
                      (n, p') \<Rightarrow> (ps', unregister (ps_connID ps') p'))"

text \<open>
  One round of the loop of \<^verbatim>\<open>RelayClientToUpstream\<close>: whether the context is done, what the client's
  read returns (at most a chunk is taken) and the environment of the pick and of the two sends.
\<close>

record 'e tx_round =
  tr_done :: bool
  tr_data :: bytes
  tr_err :: "io_error option"
  tr_healthy :: "nat \<Rightarrow> bool"
  tr_env1 :: 'e
  tr_env2 :: 'e

datatype relay_status = Running | Returned | Panicked

text \<open>Sending with the fail-over to another instance, and whether either send succeeded.\<close>

definition send_failover ::
  "('e, 'p) sender \<Rightarrow> 'e tx_round \<Rightarrow> Instance \<Rightarrow> Frame \<Rightarrow> PacketSplitter \<Rightarrow> 'p \<Rightarrow> bool \<times> 'p" where
  "send_failover send r inst f ps p =
     (case send (tr_env1 r) (inst_id inst) f p of
        (True, p') \<Rightarrow> (True, p')
      | (False, p') \<Rightarrow>
          case pickInstanceExcluding (tr_healthy r) (inst_id inst) ps of
            None \<Rightarrow> (False, p')
          | Some inst2 \<Rightarrow> send (tr_env2 r) (inst_id inst2) f p')"

text \<open>
  The loop: \<open>total\<close> is \<^verbatim>\<open>totalBytes\<close>; \<open>sent\<close> lists, for the proofs, the frames whose send succeeded.
\<close>

fun RelayClientToUpstream ::
  "('e, 'p) sender \<Rightarrow> 'e tx_round list \<Rightarrow> int \<Rightarrow> Frame list \<Rightarrow> PacketSplitter \<Rightarrow> 'p
     \<Rightarrow> relay_status \<times> int \<times> Frame list \<times> PacketSplitter \<times> 'p" where
  "RelayClientToUpstream send [] tot sent ps p = (Running, tot, sent, ps, p)"
| "RelayClientToUpstream send (r # rs) tot sent ps p =
     (if tr_done r then (Returned, tot, sent, ps, p)
      else
        let d = take (nat (ps_chunkSize ps)) (tr_data r)
        in if d = [] then
             (if tr_err r \<noteq> None then (Returned, tot, sent, ps, p)
              else RelayClientToUpstream send rs tot sent ps p)
           else
             let tot' = i64 (tot + int (length d))
             in case pickInstance (tr_healthy r) ps of
                  None \<Rightarrow> (Panicked, tot', sent, ps, p)
                | Some (None, ps1) \<Rightarrow> (Returned, tot', sent, ps1, p)
                | Some (Some inst, ps1) \<Rightarrow>
                    case next_frame FlagData (Some d) ps1 of
                      (f, ps2) \<Rightarrow>
                        case send_failover send r inst f ps2 p of
                          (ok, p') \<Rightarrow>
                            let sent' = (if ok then sent @ [f] else sent)
                            in if tr_err r \<noteq> None then (Returned, tot', sent', ps2, p')
                               else RelayClientToUpstream send rs tot' sent' ps2 p')"

subsection \<open>The reverse direction\<close>

record rx_state =
  rx_reorderer :: Reorderer
  rx_total :: int
  rx_lastActivity :: time
  rx_client :: "bytes list"

definition rx_init :: "time \<Rightarrow> rx_state" where
  "rx_init now = \<lparr>rx_reorderer = NewReorderer, rx_total = 0, rx_lastActivity = now, rx_client = []\<rparr>"

text \<open>
  The delivery loop that stops at a write error.  \<open>clk i\<close> is the reading of the clock in round \<open>i\<close>,
  \<open>out i\<close> the outcome of the write; the ticker's variant also notes the activity (\<open>touch\<close>).  The result
  says whether a write failed.
\<close>

function deliver ::
  "bool \<Rightarrow> (nat \<Rightarrow> time) \<Rightarrow> (nat \<Rightarrow> write_outcome) \<Rightarrow> rx_state \<Rightarrow> bool \<times> rx_state" where
  "deliver touch clk out s =
     (case Reorderer_Next (clk 0) (rx_reorderer s) of
        (None, ro) \<Rightarrow> (False, s\<lparr>rx_reorderer := ro\<rparr>)
      | (Some data, ro) \<Rightarrow>
          (case inner_write (out 0) data of
             (n, err) \<Rightarrow>
               let s' = s\<lparr>rx_reorderer := ro, rx_total := i64 (rx_total s + int n),
                          rx_client := rx_client s @ [take n data],
                          rx_lastActivity := (if touch then clk 0 else rx_lastActivity s)\<rparr>
               in if err \<noteq> None then (True, s')
                  else deliver touch (\<lambda>k. clk (Suc k)) (\<lambda>k. out (Suc k)) s'))"
  by pat_completeness auto
termination
  by (relation "measure (\<lambda>(touch, clk, out, s). length (buffer (rx_reorderer s)))")
    (auto intro: Reorderer_Next_shrinks [OF sym])

declare deliver.simps [simp del]

text \<open>After a FIN or RST the rest is written without looking at errors.\<close>

definition flush_rx :: "(nat \<Rightarrow> time) \<Rightarrow> (nat \<Rightarrow> write_outcome) \<Rightarrow> rx_state \<Rightarrow> rx_state" where
  "flush_rx clk out s =
     (case Reorderer_drain clk (rx_reorderer s) of
        (ds, ro) \<Rightarrow>
          s\<lparr>rx_reorderer := ro, rx_total := foldl (\<lambda>t d. i64 (t + int (length d))) (rx_total s) ds,
            rx_client := rx_client s @
              map (\<lambda>(i, d). take (fst (inner_write (out i) d)) d) (enumerate 0 ds)\<rparr>)"

definition idleLimit :: duration where
  "idleLimit = 30 * second"

datatype rx_event =
    RxDone
  | RxTick time "nat \<Rightarrow> time" "nat \<Rightarrow> write_outcome"
  | RxFrame time "Frame option" "nat \<Rightarrow> time" "nat \<Rightarrow> write_outcome"

text \<open>One round of the \<^verbatim>\<open>select\<close>: whether the loop goes on, and the state.\<close>

fun rx_round :: "rx_event \<Rightarrow> rx_state \<Rightarrow> relay_status \<times> rx_state" where
  "rx_round RxDone s = (Returned, s)"
| "rx_round (RxTick now clk out) s =
     (case deliver True clk out s of
        (True, s') \<Rightarrow> (Returned, s')
      | (False, s') \<Rightarrow>
          if time_sub now (rx_lastActivity s') > idleLimit then (Returned, s') else (Running, s'))"
| "rx_round (RxFrame now None clk out) s = (Returned, s)"
| "rx_round (RxFrame now (Some f) clk out) s =
     (let s1 = s\<lparr>rx_lastActivity := now\<rparr>
      in if IsFIN f \<or> IsRST f then (Returned, flush_rx clk out s1)
         else if IsACK f \<or> IsSYN f then (Running, s1)
         else if slice_bytes (Payload f) = [] then (Running, s1)
         else case deliver False clk out
                     (s1\<lparr>rx_reorderer := Reorderer_Insert (SeqNum f) (Payload f) (rx_reorderer s1)\<rparr>) of
                (True, s2) \<Rightarrow> (Returned, s2)
              | (False, s2) \<Rightarrow> (Running, s2))"

fun RelayUpstreamToClient :: "rx_event list \<Rightarrow> rx_state \<Rightarrow> relay_status \<times> rx_state" where
  "RelayUpstreamToClient [] s = (Running, s)"
| "RelayUpstreamToClient (e # es) s =
     (case rx_round e s of
        (Running, s') \<Rightarrow> RelayUpstreamToClient es s'
      | (st, s') \<Rightarrow> (st, s'))"

subsection \<open>The choice of an instance\<close>

definition ps_ok :: "PacketSplitter \<Rightarrow> bool" where
  "ps_ok ps \<longleftrightarrow> ps_instances ps \<noteq> [] \<and> int (length (ps_instances ps)) < max_i64
     \<and> length (ps_weights ps) = length (ps_instances ps)
     \<and> (\<forall>w \<in> set (ps_weights ps). 1 \<le> w \<and> w \<le> max_i64)
     \<and> 0 \<le> ps_current ps \<and> ps_current ps < int (length (ps_instances ps))
     \<and> 0 \<le> ps_counter ps \<and> ps_counter ps \<le> max_i64"

text \<open>A splitter after some picks: only the position and the counter have moved.\<close>

definition ps_moved :: "PacketSplitter \<Rightarrow> PacketSplitter \<Rightarrow> bool" where
  "ps_moved ps ps' \<longleftrightarrow> ps'\<lparr>ps_current := 0, ps_counter := 0\<rparr> = ps\<lparr>ps_current := 0, ps_counter := 0\<rparr>"

lemma ps_moved_same:
  "ps_moved ps ps' \<Longrightarrow> ps_instances ps' = ps_instances ps \<and> ps_weights ps' = ps_weights ps
     \<and> ps_connID ps' = ps_connID ps \<and> ps_chunkSize ps' = ps_chunkSize ps \<and> ps_txSeq ps' = ps_txSeq ps"
  by (cases ps; cases ps') (simp add: ps_moved_def)

lemma ps_moved_refl [simp]: "ps_moved ps ps"
  by (simp add: ps_moved_def)

lemma ps_moved_trans: "ps_moved a b \<Longrightarrow> ps_moved b c \<Longrightarrow> ps_moved a c"
  by (simp add: ps_moved_def)

lemma advance_eq:
  assumes "ps_ok ps"
  shows "advance ps = ps\<lparr>ps_counter := 0, ps_current := (ps_current ps + 1) mod int (length (ps_instances ps))\<rparr>"
proof -
  have "0 \<le> ps_current ps + 1" "i64 (ps_current ps + 1) = ps_current ps + 1" "0 < int (length (ps_instances ps))"
    using assms by (auto simp: ps_ok_def max_i64_def i64_id)
  then show ?thesis by (simp add: advance_def smod_nonneg)
qed

lemma advance_ok: "ps_ok ps \<Longrightarrow> ps_ok (advance ps) \<and> ps_moved ps (advance ps)"
  by (cases ps) (auto simp: advance_eq ps_moved_def ps_ok_def max_i64_def)

text \<open>One attempt of the loop.\<close>

definition pick_attempt :: "PacketSplitter \<Rightarrow> PacketSplitter" where
  "pick_attempt ps =
     (let n = int (length (ps_instances ps)); w = ps_weights ps ! nat (ps_current ps)
      in if ps_counter ps \<ge> w then ps\<lparr>ps_current := (ps_current ps + 1) mod n, ps_counter := 1\<rparr>
         else ps\<lparr>ps_counter := ps_counter ps + 1\<rparr>)"

lemma pick_attempt_ok: "ps_ok ps \<Longrightarrow> ps_ok (pick_attempt ps) \<and> ps_moved ps (pick_attempt ps)"
proof -
  assume ok: "ps_ok ps"
  have "ps_weights ps ! nat (ps_current ps) \<le> max_i64"
    using ok by (auto simp: ps_ok_def intro!: nth_mem)
  with ok have "ps_ok (pick_attempt ps)"
    by (auto simp: ps_ok_def pick_attempt_def Let_def max_i64_def)
  moreover have "ps_moved ps (pick_attempt ps)"
    by (cases ps) (auto simp: ps_moved_def pick_attempt_def Let_def)
  ultimately show ?thesis by blast
qed

lemma pick_loop_step:
  assumes "ps_ok ps"
  defines "ps' \<equiv> pick_attempt ps"
  defines "inst \<equiv> ps_instances ps ! nat (ps_current ps')"
  shows "pick_loop healthy (Suc k) ps =
      (if healthy (inst_id inst) then Some (Some inst, ps') else pick_loop healthy k (advance ps'))
    \<and> inst \<in> set (ps_instances ps)"
proof -
  have ok': "ps_ok ps'" "ps_moved ps ps'" using pick_attempt_ok [OF assms(1)] by (simp_all add: ps'_def)
  have same: "ps_instances ps' = ps_instances ps" using ps_moved_same [OF ok'(2)] by blast
  have w: "go_index (ps_weights ps) (ps_current ps) = Some (ps_weights ps ! nat (ps_current ps))"
    using assms(1) by (simp add: ps_ok_def go_index_def)
  have i: "go_index (ps_instances ps) (ps_current ps') = Some inst"
    using ok'(1) same by (simp add: ps_ok_def go_index_def inst_def)
  have le: "ps_weights ps ! nat (ps_current ps) \<le> max_i64"
    using assms(1) by (auto simp: ps_ok_def intro!: nth_mem)
  define ps1 where "ps1 = (if ps_counter ps \<ge> ps_weights ps ! nat (ps_current ps) then advance ps else ps)"
  have s: "ps1\<lparr>ps_counter := i64 (ps_counter ps1 + 1)\<rparr> = ps'"
    using assms(1) le by (auto simp: ps1_def ps'_def pick_attempt_def Let_def advance_eq i64_id ps_ok_def max_i64_def)
  show ?thesis
    using w i go_index_mem [OF i] same s
    unfolding pick_loop.simps w option.case Let_def ps1_def [symmetric] s by simp
qed

lemma pick_loop_spec:
  assumes "ps_ok ps"
  shows "\<exists>r ps'. pick_loop healthy k ps = Some (r, ps') \<and> ps_ok ps' \<and> ps_moved ps ps'
    \<and> (\<forall>inst. r = Some inst \<longrightarrow> inst \<in> set (ps_instances ps) \<and> healthy (inst_id inst))"
  using assms
proof (induction k arbitrary: ps)
  case (Suc k)
  let ?a = "pick_attempt ps"
  have a: "ps_ok ?a" "ps_moved ps ?a" using pick_attempt_ok [OF Suc.prems] by simp_all
  have b: "ps_ok (advance ?a)" "ps_moved ps (advance ?a)" "ps_instances (advance ?a) = ps_instances ps"
    using advance_ok [OF a(1)] ps_moved_trans [OF a(2)] ps_moved_same by blast+
  from Suc.IH [OF b(1)] obtain r ps' where "pick_loop healthy k (advance ?a) = Some (r, ps')" "ps_ok ps'"
      "ps_moved (advance ?a) ps'" "\<forall>inst. r = Some inst \<longrightarrow> inst \<in> set (ps_instances (advance ?a)) \<and> healthy (inst_id inst)"
    by (elim exE conjE)
  then show ?case
    using pick_loop_step [OF Suc.prems, of healthy k] a b ps_moved_trans [OF b(2)] by auto
qed simp

lemma pickInstance_spec:
  assumes "ps_ok ps"
  shows "\<exists>r ps'. pickInstance healthy ps = Some (r, ps') \<and> ps_ok ps' \<and> ps_moved ps ps'
    \<and> (\<forall>inst. r = Some inst \<longrightarrow> inst \<in> set (ps_instances ps) \<and> healthy (inst_id inst))
    \<and> (r = None \<longrightarrow> (\<forall>inst \<in> set (ps_instances ps). \<not> healthy (inst_id inst)))"
proof -
  obtain r ps' where l: "pick_loop healthy (length (ps_instances ps) * 2) ps = Some (r, ps')" "ps_ok ps'" "ps_moved ps ps'"
      "\<forall>inst. r = Some inst \<longrightarrow> inst \<in> set (ps_instances ps) \<and> healthy (inst_id inst)"
    using pick_loop_spec [OF assms, of healthy "length (ps_instances ps) * 2"] by (elim exE conjE)
  have "ps_instances ps \<noteq> []" using assms by (simp add: ps_ok_def)
  with l ps_moved_same [OF l(3)] show ?thesis
    by (cases r) (auto simp: pickInstance_def find_None_iff find_Some_iff)
qed

subsection \<open>Weighted round-robin, with every instance healthy\<close>

definition split_valid :: "Instance list \<times> int list \<Rightarrow> nat \<Rightarrow> PacketSplitter \<Rightarrow> bool" where
  "split_valid c k ps \<longleftrightarrow> ps_ok ps \<and> ps_instances ps = fst c \<and> ps_weights ps = snd c"

definition split_next :: "Instance list \<times> int list \<Rightarrow> PacketSplitter \<Rightarrow> nat \<times> PacketSplitter" where
  "split_next c ps =
     (case pickInstance (\<lambda>_. True) ps of Some (Some inst, ps') \<Rightarrow> (nat (ps_current ps'), ps') | _ \<Rightarrow> (0, ps))"

definition split_abs :: "Instance list \<times> int list \<Rightarrow> PacketSplitter \<Rightarrow> nat \<times> nat" where
  "split_abs c ps = (nat (ps_current ps), nat (ps_counter ps))"

lemma pickInstance_healthy:
  assumes "ps_ok ps"
  shows "pickInstance (\<lambda>_. True) ps =
    Some (Some (ps_instances ps ! nat (ps_current (pick_attempt ps))), pick_attempt ps)"
proof -
  obtain m where "length (ps_instances ps) * 2 = Suc m"
    using assms by (cases "length (ps_instances ps) * 2") (auto simp: ps_ok_def)
  then show ?thesis
    using pick_loop_step [OF assms, of "\<lambda>_. True" m] assms by (simp add: pickInstance_def ps_ok_def)
qed

definition split_ok :: "Instance list \<times> int list \<Rightarrow> bool" where
  "split_ok c \<longleftrightarrow> fst c \<noteq> [] \<and> length (snd c) = length (fst c) \<and> (\<forall>w \<in> set (snd c). 1 \<le> w)"

interpretation splitter: weighted_rr split_ok "\<lambda>c. length (fst c)" "\<lambda>c i. nat (snd c ! i)" split_next split_abs split_valid
proof unfold_locales
  fix c :: "Instance list \<times> int list" and i
  assume "split_ok c" "i < length (fst c)"
  then have "1 \<le> snd c ! i" by (simp add: split_ok_def)
  then show "0 < nat (snd c ! i)" by simp
next
  fix c :: "Instance list \<times> int list" and k ps i ps'
  assume a: "split_ok c" "split_valid c (Suc k) ps" "split_next c ps = (i, ps')"
  have ok: "ps_ok ps" "ps_instances ps = fst c" "ps_weights ps = snd c" using a(2) by (simp_all add: split_valid_def)
  have ps': "ps' = pick_attempt ps" "i = nat (ps_current ps')"
    using a(3) by (auto simp: split_next_def pickInstance_healthy [OF ok(1)])
  have v: "split_valid c k ps'"
    using pick_attempt_ok [OF ok(1)] ps_moved_same ok ps' by (auto simp: split_valid_def)
  have "1 \<le> snd c ! nat (ps_current ps)" using ok by (auto simp: ps_ok_def)
  moreover have "nat ((ps_current ps + 1) mod int (length (fst c))) = Suc (nat (ps_current ps)) mod length (fst c)"
    using ok by (simp add: ps_ok_def nat_mod_distrib Suc_nat_eq_nat_zadd1 add.commute)
  ultimately have "split_abs c ps' = wstep (length (fst c)) (\<lambda>i. nat (snd c ! i)) (split_abs c ps)"
    using ok by (auto simp: ps'(1) split_abs_def wstep_def pick_attempt_def Let_def ps_ok_def Suc_nat_eq_nat_zadd1 add.commute)
  moreover have "i = fst (split_abs c ps')" using ps'(2) by (simp add: split_abs_def)
  ultimately show "split_abs c ps' = wstep (length (fst c)) (\<lambda>i. nat (snd c ! i)) (split_abs c ps)
      \<and> i = fst (split_abs c ps') \<and> split_valid c k ps'"
    using v by blast
qed (simp add: split_ok_def)

subsection \<open>Sending, over any sender\<close>

text \<open>The data frames of a connection: consecutive numbers from \<open>s\<close> on.\<close>

definition data_frames :: "u32 \<Rightarrow> u32 \<Rightarrow> bytes list \<Rightarrow> Frame list" where
  "data_frames c s ds =
     map (\<lambda>i. \<lparr>ConnID = c, SeqNum = s + word_of_nat i, Flags = FlagData, Payload = Some (ds ! i)\<rparr>) [0..<length ds]"

lemma data_frames_Cons:
  "data_frames c s (d # ds) =
     \<lparr>ConnID = c, SeqNum = s, Flags = FlagData, Payload = Some d\<rparr> # data_frames c (s + 1) ds"
proof -
  have "[0..<Suc (length ds)] = 0 # map Suc [0..<length ds]" by (simp add: map_Suc_upt upt_conv_Cons del: upt_Suc)
  then show ?thesis by (simp add: data_frames_def o_def algebra_simps del: upt_Suc)
qed

lemma data_frames_Nil [simp]: "data_frames c s [] = []"
  by (simp add: data_frames_def)

lemma norm_data_frame: "d \<noteq> [] \<Longrightarrow> norm_frame \<lparr>ConnID = c, SeqNum = s, Flags = fl, Payload = Some d\<rparr> =
    \<lparr>ConnID = c, SeqNum = s, Flags = fl, Payload = Some d\<rparr>"
  by (simp add: norm_frame_def)

text \<open>The chunks the client sends in the given rounds.\<close>

definition tx_chunks :: "int \<Rightarrow> 'e tx_round list \<Rightarrow> bytes list" where
  "tx_chunks chunk rs = filter (\<lambda>d. d \<noteq> []) (map (\<lambda>r. take (nat chunk) (tr_data r)) rs)"

lemma ps_ok_txSeq [simp]: "ps_ok (ps\<lparr>ps_txSeq := s\<rparr>) = ps_ok ps"
  by (simp add: ps_ok_def)

text \<open>The frame of the next chunk, and one round of the loop.\<close>

definition chunk_frame :: "PacketSplitter \<Rightarrow> bytes \<Rightarrow> Frame" where
  "chunk_frame ps d = \<lparr>ConnID = ps_connID ps, SeqNum = ps_txSeq ps, Flags = FlagData, Payload = Some d\<rparr>"

definition ps_sent :: "PacketSplitter \<Rightarrow> PacketSplitter \<Rightarrow> bool" where
  "ps_sent ps ps' \<longleftrightarrow> ps_ok ps' \<and> ps_chunkSize ps' = ps_chunkSize ps \<and> ps_connID ps' = ps_connID ps
     \<and> ps_txSeq ps' = ps_txSeq ps + 1"

lemma relay_round:
  assumes rel: "RelayClientToUpstream send (r # rs) tot sent ps p = (st, tot', sent', ps', p')" and ok: "ps_ok ps"
    and d: "d = take (nat (ps_chunkSize ps)) (tr_data r)"
  obtains (stop) "st = Returned" "sent' = sent" "p' = p" "ps_txSeq ps' = ps_txSeq ps" "ps_connID ps' = ps_connID ps"
  | (skip) "d = []" "RelayClientToUpstream send rs tot sent ps p = (st, tot', sent', ps', p')"
  | (send) inst ps2 b q tot2 where "d \<noteq> []" "send_failover send r inst (chunk_frame ps d) ps2 p = (b, q)" "ps_sent ps ps2"
      "(if tr_err r \<noteq> None then (Returned, tot2, if b then sent @ [chunk_frame ps d] else sent, ps2, q)
        else RelayClientToUpstream send rs tot2 (if b then sent @ [chunk_frame ps d] else sent) ps2 q)
        = (st, tot', sent', ps', p')"
proof (cases "tr_done r \<or> d = []")
  case True
  with rel stop skip show ?thesis
    by (cases "tr_done r \<or> tr_err r \<noteq> None") (auto simp: d [symmetric] split: if_splits)
next
  case False
  obtain x ps1 where pick: "pickInstance (tr_healthy r) ps = Some (x, ps1)" "ps_ok ps1" "ps_moved ps ps1"
    using pickInstance_spec [OF ok] by blast
  note same = ps_moved_same [OF pick(3)]
  show ?thesis
  proof (cases x)
    case None
    with rel pick(1) False same stop show ?thesis by (simp add: d [symmetric])
  next
    case (Some inst)
    define ps2 where "ps2 = ps1\<lparr>ps_txSeq := ps_txSeq ps + 1\<rparr>"
    have nf: "next_frame FlagData (Some d) ps1 = (chunk_frame ps d, ps2)"
      using same by (simp add: next_frame_def chunk_frame_def ps2_def)
    obtain b q where q: "send_failover send r inst (chunk_frame ps d) ps2 p = (b, q)" by fastforce
    have "ps_sent ps ps2" using pick(2) same by (simp add: ps_sent_def ps2_def)
    then show ?thesis
      using False q rel pick(1) Some nf by (intro send [of inst ps2 b q "i64 (tot + int (length d))"]) (simp_all add: d [symmetric] Let_def)
  qed
qed

lemma tx_chunks_Cons:
  "tx_chunks n (r # rs) = (if take (nat n) (tr_data r) = [] then [] else [take (nat n) (tr_data r)]) @ tx_chunks n rs"
  by (simp add: tx_chunks_def)

text \<open>
  The chunks that were numbered form a prefix \<open>ds\<close> of what the client sent; nothing else reaches the
  wire, and if every send succeeded all of it does.
\<close>

definition numbered_prefix ::
  "('p \<Rightarrow> Frame set) \<Rightarrow> ('p \<Rightarrow> bool) \<Rightarrow> PacketSplitter \<Rightarrow> 'p \<Rightarrow> bytes list \<Rightarrow> Frame list \<Rightarrow> PacketSplitter \<Rightarrow> 'p \<Rightarrow> bool" where
  "numbered_prefix wire ok ps p ds fs ps' p' \<longleftrightarrow>
     ps_txSeq ps' = ps_txSeq ps + word_of_nat (length ds) \<and> ps_connID ps' = ps_connID ps \<and> ok p'
     \<and> set fs \<subseteq> set (data_frames (ps_connID ps) (ps_txSeq ps) ds) \<and> length fs \<le> length ds
     \<and> (length fs = length ds \<longrightarrow> fs = data_frames (ps_connID ps) (ps_txSeq ps) ds)
     \<and> wire p \<union> set fs \<subseteq> wire p' \<and> wire p' \<subseteq> wire p \<union> set (data_frames (ps_connID ps) (ps_txSeq ps) ds)"

context frame_sender
begin

lemma send_failover_wire:
  assumes "inv p" "send_failover send r inst f ps p = (ok, p')"
  shows "inv p' \<and> wire p \<subseteq> wire p' \<and> wire p' \<subseteq> insert (norm_frame f) (wire p) \<and> (ok \<longrightarrow> norm_frame f \<in> wire p')"
proof -
  obtain b q where s1: "send (tr_env1 r) (inst_id inst) f p = (b, q)" by fastforce
  have w1: "inv q" "wire p \<subseteq> wire q" "wire q \<subseteq> insert (norm_frame f) (wire p)" "b \<longrightarrow> norm_frame f \<in> wire q"
    using send_inv [OF assms(1) s1] send_wire [OF assms(1) s1] by auto
  show ?thesis
  proof (cases "b \<or> pickInstanceExcluding (tr_healthy r) (inst_id inst) ps = None")
    case True
    with w1 s1 assms(2) show ?thesis by (auto simp: send_failover_def split: bool.splits)
  next
    case False
    then obtain j where "pickInstanceExcluding (tr_healthy r) (inst_id inst) ps = Some j" "\<not> b" by auto
    with s1 assms(2) have "send (tr_env2 r) (inst_id j) f q = (ok, p')" by (simp add: send_failover_def)
    with w1 send_inv [OF w1(1)] send_wire [OF w1(1)] show ?thesis by blast
  qed
qed

lemma numbered_prefix_Nil: "inv p \<Longrightarrow> ps_txSeq ps' = ps_txSeq ps \<Longrightarrow> ps_connID ps' = ps_connID ps
    \<Longrightarrow> numbered_prefix wire inv ps p [] [] ps' p"
  by (simp add: numbered_prefix_def)

lemma numbered_prefix_Cons:
  assumes "numbered_prefix wire inv ps2 q ds fs ps' p'" "ps_sent ps ps2" "d \<noteq> []"
    and "wire p \<subseteq> wire q" "wire q \<subseteq> insert (norm_frame (chunk_frame ps d)) (wire p)"
    and "b \<longrightarrow> norm_frame (chunk_frame ps d) \<in> wire q"
  shows "numbered_prefix wire inv ps p (d # ds) ((if b then [chunk_frame ps d] else []) @ fs) ps' p'"
proof -
  have norm: "norm_frame (chunk_frame ps d) = chunk_frame ps d" using assms(3) by (simp add: chunk_frame_def norm_data_frame)
  have dfs: "data_frames (ps_connID ps) (ps_txSeq ps) (d # ds) = chunk_frame ps d # data_frames (ps_connID ps) (ps_txSeq ps + 1) ds"
    by (simp add: data_frames_Cons chunk_frame_def)
  show ?thesis
    using assms unfolding numbered_prefix_def ps_sent_def dfs norm by (auto simp: algebra_simps)
qed

lemma relay_wire:
  assumes "RelayClientToUpstream send rs tot sent ps p = (st, tot', sent', ps', p')" "inv p" "ps_ok ps"
  shows "\<exists>ds rest fs. tx_chunks (ps_chunkSize ps) rs = ds @ rest \<and> sent' = sent @ fs \<and> numbered_prefix wire inv ps p ds fs ps' p'
    \<and> st \<noteq> Panicked \<and> (st = Running \<longrightarrow> rest = [])"
  using assms
proof (induction rs arbitrary: tot sent ps p)
  case Nil
  then show ?case by (auto simp: tx_chunks_def intro!: numbered_prefix_Nil)
next
  case (Cons r rs)
  from Cons.prems(1,3) refl show ?case
  proof (cases rule: relay_round)
    case stop
    with Cons.prems show ?thesis
      by (intro exI [of _ "[]"] exI [of _ "tx_chunks (ps_chunkSize ps) (r # rs)"]) (simp add: numbered_prefix_Nil)
  next
    case skip
    with Cons.IH [OF skip(2) Cons.prems(2,3)] show ?thesis by (simp add: tx_chunks_Cons)
  next
    case (send inst ps2 b q tot2)
    let ?d = "take (nat (ps_chunkSize ps)) (tr_data r)" and ?fs = "if b then [chunk_frame ps (take (nat (ps_chunkSize ps)) (tr_data r))] else []"
    note w = send_failover_wire [OF Cons.prems(2) send(2)]
    have o: "ps_ok ps2" "ps_chunkSize ps2 = ps_chunkSize ps" "inv q" using send(3) w by (simp_all add: ps_sent_def)
    have "\<exists>ds rest fs. tx_chunks (ps_chunkSize ps) rs = ds @ rest \<and> sent' = (sent @ ?fs) @ fs
        \<and> numbered_prefix wire inv ps2 q ds fs ps' p' \<and> st \<noteq> Panicked \<and> (st = Running \<longrightarrow> rest = [])"
    proof (cases "tr_err r")
      case None
      with send(4) have "RelayClientToUpstream send rs tot2 (sent @ ?fs) ps2 q = (st, tot', sent', ps', p')"
        by (cases b) simp_all
      from Cons.IH [OF this o(3,1)] show ?thesis unfolding o(2) .
    next
      case (Some e)
      with send(4) o(3) show ?thesis
        by (intro exI [of _ "[]"] exI [of _ "tx_chunks (ps_chunkSize ps) rs"]) (auto intro: numbered_prefix_Nil)
    qed
    then obtain ds rest fs where ih: "tx_chunks (ps_chunkSize ps) rs = ds @ rest" "sent' = (sent @ ?fs) @ fs"
        "numbered_prefix wire inv ps2 q ds fs ps' p'" "st \<noteq> Panicked" "st = Running \<longrightarrow> rest = []"
      by (elim exE conjE)
    have "numbered_prefix wire inv ps p (?d # ds) (?fs @ fs) ps' p'"
      using w by (intro numbered_prefix_Cons [OF ih(3) send(3,1)]) auto
    with ih(1,2,4,5) send(1) show ?thesis
      by (intro exI [of _ "?d # ds"] exI [of _ rest] exI [of _ "?fs @ fs"]) (simp add: tx_chunks_Cons)
  qed
qed

lemma send_all_wire:
  "inv p \<Longrightarrow> send_all send env f xs p = (n, p') \<Longrightarrow> inv p' \<and> wire p' \<subseteq> insert (norm_frame f) (wire p)"
proof (induction xs arbitrary: p n)
  case (Cons x xs)
  obtain b q where q: "send (env (inst_id x)) (inst_id x) f p = (b, q)" by fastforce
  with Cons.prems(2) obtain n' where "send_all send env f xs q = (n', p')" by (auto split: prod.splits)
  from Cons.IH [OF send_inv [OF Cons.prems(1) q] this] send_wire [OF Cons.prems(1) q] show ?case by blast
qed auto

lemma send_all_sent:
  "inv p \<Longrightarrow> send_all send env f xs p = (n, p') \<Longrightarrow> wire p \<subseteq> wire p' \<and> (n \<noteq> 0 \<longrightarrow> norm_frame f \<in> wire p')"
proof (induction xs arbitrary: p n)
  case (Cons x xs)
  obtain b q where q: "send (env (inst_id x)) (inst_id x) f p = (b, q)" by fastforce
  with Cons.prems(2) obtain n' where n': "send_all send env f xs q = (n', p')" "n = (if b then Suc n' else n')"
    by (auto split: prod.splits)
  from Cons.IH [OF send_inv [OF Cons.prems(1) q] n'(1)] send_wire [OF Cons.prems(1) q] n'(2) show ?case by (auto split: if_splits)
qed auto

end

subsection \<open>Receiving\<close>

lemma deliver_all:
  "fst (deliver touch clk (\<lambda>_. WroteAll) s) = False
   \<and> rx_reorderer (snd (deliver touch clk (\<lambda>_. WroteAll) s)) = snd (Reorderer_drain clk (rx_reorderer s))
   \<and> rx_client (snd (deliver touch clk (\<lambda>_. WroteAll) s)) = rx_client s @ fst (Reorderer_drain clk (rx_reorderer s))
   \<and> (rx_total s = i64 (rx_total s) \<longrightarrow> rx_total (snd (deliver touch clk (\<lambda>_. WroteAll) s)) =
        i64 (rx_total s + int (length (concat (fst (Reorderer_drain clk (rx_reorderer s)))))))"
proof (induction touch clk "\<lambda>_::nat. WroteAll" s rule: deliver.induct)
  case (1 touch clk s)
  obtain x ro where n: "Reorderer_Next (clk 0) (rx_reorderer s) = (x, ro)" by fastforce
  show ?case
  proof (cases x)
    case None
    with n show ?thesis
      by (simp add: deliver.simps [of touch clk _ s] Reorderer_drain.simps [of clk "rx_reorderer s"])
  next
    case (Some data)
    let ?s = "s\<lparr>rx_reorderer := ro, rx_total := i64 (rx_total s + int (length data)),
        rx_client := rx_client s @ [take (length data) data], rx_lastActivity := (if touch then clk 0 else rx_lastActivity s)\<rparr>"
    have w: "(length data, None) = inner_write WroteAll data" by (simp add: inner_write_def)
    have step: "deliver touch clk (\<lambda>_. WroteAll) s = deliver touch (\<lambda>k. clk (Suc k)) (\<lambda>_. WroteAll) ?s"
      using n Some by (simp add: deliver.simps [of touch clk _ s] inner_write_def)
    have dr: "Reorderer_drain clk (rx_reorderer s) =
        (data # fst (Reorderer_drain (\<lambda>k. clk (Suc k)) ro), snd (Reorderer_drain (\<lambda>k. clk (Suc k)) ro))"
      using n Some by (simp add: Reorderer_drain.simps [of clk "rx_reorderer s"] split_beta)
    have "i64 (rx_total s + int (length data)) = i64 (i64 (rx_total s + int (length data)))"
      using i64_add_left [of "rx_total s + int (length data)" 0] by simp
    moreover have "i64 (i64 (rx_total s + int (length data)) + m) = i64 (rx_total s + (int (length data) + m))" for m
      by (simp add: i64_add_left add.assoc)
    ultimately show ?thesis
      using "1" [OF n [symmetric] Some w] unfolding step dr by simp
  qed
qed

text \<open>Data frames of the reverse direction, each with the clock of its delivery loop.\<close>

definition reverse_frame :: "u32 \<Rightarrow> u32 \<Rightarrow> bytes \<Rightarrow> Frame" where
  "reverse_frame c s d = \<lparr>ConnID = c, SeqNum = s, Flags = FlagReverse, Payload = Some d\<rparr>"

definition rx_arrivals :: "u32 \<Rightarrow> (nat \<Rightarrow> bytes) \<Rightarrow> ((nat \<Rightarrow> time) \<times> nat) list \<Rightarrow> rx_event list" where
  "rx_arrivals c dat cis =
     map (\<lambda>(clk, i). RxFrame (clk 0) (Some (reverse_frame c (word_of_nat i) (dat i))) clk (\<lambda>_. WroteAll)) cis"

lemma rx_round_data:
  assumes "d \<noteq> []"
  shows "\<exists>s'. rx_round (RxFrame now (Some (reverse_frame c q d)) clk (\<lambda>_. WroteAll)) s = (Running, s')
    \<and> rx_reorderer s' = snd (Reorderer_arrive clk q (Some d) (rx_reorderer s))
    \<and> rx_client s' = rx_client s @ fst (Reorderer_arrive clk q (Some d) (rx_reorderer s))
    \<and> (rx_total s = i64 (rx_total s) \<longrightarrow>
         rx_total s' = i64 (rx_total s + int (length (concat (fst (Reorderer_arrive clk q (Some d) (rx_reorderer s)))))))"
proof -
  let ?s = "s\<lparr>rx_lastActivity := now, rx_reorderer := Reorderer_Insert q (Some d) (rx_reorderer s)\<rparr>"
  obtain b s' where dl: "deliver False clk (\<lambda>_. WroteAll) ?s = (b, s')" by fastforce
  have "\<not> IsFIN (reverse_frame c q d)" "\<not> IsRST (reverse_frame c q d)" "\<not> IsACK (reverse_frame c q d)"
      "\<not> IsSYN (reverse_frame c q d)"
    by (simp_all add: reverse_frame_def go_simps)
  with dl deliver_all [of False clk ?s] assms show ?thesis
    by (simp add: reverse_frame_def Reorderer_arrive_def)
qed

lemma relay_rx:
  assumes "\<forall>i \<in> snd ` set cis. dat i \<noteq> []"
  shows "\<exists>s'. RelayUpstreamToClient (rx_arrivals c dat cis) s = (Running, s')
    \<and> rx_reorderer s' = snd (arrivals Reorderer_arrive (numbered 0 dat cis) (rx_reorderer s))
    \<and> rx_client s' = rx_client s @ fst (arrivals Reorderer_arrive (numbered 0 dat cis) (rx_reorderer s))
    \<and> (rx_total s = i64 (rx_total s) \<longrightarrow> rx_total s' = i64 (rx_total s +
         int (length (concat (fst (arrivals Reorderer_arrive (numbered 0 dat cis) (rx_reorderer s)))))))"
  using assms
proof (induction cis arbitrary: s)
  case Nil
  show ?case by (simp add: rx_arrivals_def numbered_def)
next
  case (Cons ci cis)
  obtain clk i where ci: "ci = (clk, i)" by fastforce
  let ?a = "Reorderer_arrive clk (word_of_nat i) (Some (dat i)) (rx_reorderer s)"
  obtain s1 where s1: "rx_round (RxFrame (clk 0) (Some (reverse_frame c (word_of_nat i) (dat i))) clk (\<lambda>_. WroteAll)) s = (Running, s1)"
      "rx_reorderer s1 = snd ?a" "rx_client s1 = rx_client s @ fst ?a"
      "rx_total s = i64 (rx_total s) \<longrightarrow> rx_total s1 = i64 (rx_total s + int (length (concat (fst ?a))))"
    using rx_round_data [of "dat i" "clk 0" c "word_of_nat i" clk s] Cons.prems ci by auto
  let ?b = "arrivals Reorderer_arrive (numbered 0 dat cis) (rx_reorderer s1)"
  obtain s2 where s2: "RelayUpstreamToClient (rx_arrivals c dat cis) s1 = (Running, s2)" "rx_reorderer s2 = snd ?b"
      "rx_client s2 = rx_client s1 @ fst ?b"
      "rx_total s1 = i64 (rx_total s1) \<longrightarrow> rx_total s2 = i64 (rx_total s1 + int (length (concat (fst ?b))))"
    using Cons.IH [of s1] Cons.prems by auto
  have ab: "arrivals Reorderer_arrive (numbered 0 dat (ci # cis)) (rx_reorderer s) = (fst ?a @ fst ?b, snd ?b)"
    using ci s1(2) by (simp add: numbered_def split_beta)
  have tot: "rx_total s2 = i64 (rx_total s + int (length (concat (fst ?a @ fst ?b))))" if "rx_total s = i64 (rx_total s)"
  proof -
    have t1: "rx_total s1 = i64 (rx_total s + int (length (concat (fst ?a))))" using s1(4) that by blast
    moreover have "rx_total s1 = i64 (rx_total s1)"
      unfolding t1 using i64_add_left [of "rx_total s + int (length (concat (fst ?a)))" 0] by simp
    ultimately show ?thesis using s2(4) by (simp add: i64_add_left add.assoc)
  qed
  have "RelayUpstreamToClient (rx_arrivals c dat (ci # cis)) s = (Running, s2)"
    using ci s1(1) s2(1) by (simp add: rx_arrivals_def del: rx_round.simps)
  with s1(3) s2(2,3) tot show ?case unfolding ab by simp
qed

subsection \<open>A new splitter\<close>

lemma foldl_max_ping:
  "1 \<le> m \<Longrightarrow> m \<le> max_i64 \<Longrightarrow> \<forall>x \<in> set xs. inst_lastPingMs x \<le> max_i64 \<Longrightarrow>
     1 \<le> foldl (\<lambda>m inst. if inst_lastPingMs inst > m then inst_lastPingMs inst else m) m xs
     \<and> foldl (\<lambda>m inst. if inst_lastPingMs inst > m then inst_lastPingMs inst else m) m xs \<le> max_i64"
  by (induction xs arbitrary: m) auto

definition fleet_ok :: "Instance list \<Rightarrow> bool" where
  "fleet_ok xs \<longleftrightarrow> xs \<noteq> [] \<and> int (length xs) < max_i64 \<and> (\<forall>x \<in> set xs. inst_lastPingMs x \<le> max_i64)"

lemma recalcWeights_ok:
  assumes "fleet_ok (ps_instances ps)" "ps_current ps = 0" "ps_counter ps = 0"
  shows "ps_ok (recalcWeights ps)"
proof -
  define m where "m = foldl (\<lambda>m inst. if inst_lastPingMs inst > m then inst_lastPingMs inst else m) 1 (ps_instances ps)"
  have m: "1 \<le> m" "m \<le> max_i64"
    using foldl_max_ping [of 1 "ps_instances ps"] assms(1) by (auto simp: m_def fleet_ok_def max_i64_def)
  have "m sdiv a \<le> max_i64" if "0 < a" for a
    using m that zdiv_mono2 [of m 1 a] by (simp add: sdiv_nonneg)
  with m show ?thesis
    using assms unfolding ps_ok_def recalcWeights_def m_def [symmetric] Let_def
    by (auto simp: fleet_ok_def max_i64_def)
qed

lemma NewPacketSplitter_ok:
  assumes "fleet_ok xs"
  shows "ps_ok (fst (NewPacketSplitter c p xs n))"
    "ps_instances (fst (NewPacketSplitter c p xs n)) = xs" "ps_connID (fst (NewPacketSplitter c p xs n)) = c"
    "ps_txSeq (fst (NewPacketSplitter c p xs n)) = 0" "ps_chunkSize (fst (NewPacketSplitter c p xs n)) = n"
    "ps_current (fst (NewPacketSplitter c p xs n)) = 0" "ps_counter (fst (NewPacketSplitter c p xs n)) = 0"
proof -
  show "ps_ok (fst (NewPacketSplitter c p xs n))"
    unfolding NewPacketSplitter_def using assms by (auto intro!: recalcWeights_ok split: prod.splits)
qed (simp_all add: NewPacketSplitter_def recalcWeights_def Let_def split: prod.splits)

text \<open>The picks of a splitter whose instances are all healthy.\<close>

definition healthy_pick :: "PacketSplitter \<Rightarrow> Instance option \<times> PacketSplitter" where
  "healthy_pick ps = (case pickInstance (\<lambda>_. True) ps of Some r \<Rightarrow> r | None \<Rightarrow> (None, ps))"

lemma healthy_picks:
  "split_valid c k ps \<Longrightarrow> fst (picks healthy_pick m ps) = map (\<lambda>i. Some (fst c ! i)) (fst (picks (split_next c) m ps))"
proof (induction m arbitrary: ps)
  case (Suc m)
  have ok: "ps_ok ps" "ps_instances ps = fst c" using Suc.prems by (simp_all add: split_valid_def)
  have "split_valid c k (pick_attempt ps)"
    using pick_attempt_ok [OF ok(1)] Suc.prems ps_moved_same by (auto simp: split_valid_def)
  from Suc.IH [OF this] show ?case
    by (auto simp: healthy_pick_def split_next_def pickInstance_healthy [OF ok(1)] ok(2) split: prod.splits)
qed simp

definition sample_fleet :: "Instance list" where
  "sample_fleet = [sample_instance\<lparr>inst_lastPingMs := 10\<rparr>, sample_instance\<lparr>inst_id := 1, inst_lastPingMs := 20\<rparr>]"

lemma sample_fleet_ok: "fleet_ok sample_fleet"
  by (simp add: fleet_ok_def sample_fleet_def sample_instance_def NewInstance_def max_i64_def)

subsection \<open>Properties\<close>

text \<open>
  C19. The choice of an instance: whatever the health of the instances, a pick returns a healthy
  instance of the connection if there is one and nil otherwise, without indexing out of range.
\<close>

theorem pickInstance_sound:
  assumes "ps_ok ps"
  shows "\<exists>r ps'. pickInstance healthy ps = Some (r, ps') \<and> ps_ok ps' \<and> ps_instances ps' = ps_instances ps
    \<and> (\<forall>inst. r = Some inst \<longrightarrow> inst \<in> set (ps_instances ps) \<and> healthy (inst_id inst))
    \<and> (r = None \<longleftrightarrow> (\<forall>inst \<in> set (ps_instances ps). \<not> healthy (inst_id inst)))"
proof -
  obtain r ps' where r: "pickInstance healthy ps = Some (r, ps')" "ps_ok ps'" "ps_moved ps ps'"
      "\<forall>inst. r = Some inst \<longrightarrow> inst \<in> set (ps_instances ps) \<and> healthy (inst_id inst)"
      "r = None \<longrightarrow> (\<forall>inst \<in> set (ps_instances ps). \<not> healthy (inst_id inst))"
    using pickInstance_spec [OF assms, of healthy] by (elim exE conjE)
  have "r = None \<longleftrightarrow> (\<forall>inst \<in> set (ps_instances ps). \<not> healthy (inst_id inst))"
    using r(4,5) by (cases r) auto
  with r ps_moved_same [OF r(3)] show ?thesis by (intro exI [of _ r] exI [of _ ps'] conjI) simp_all
qed

theorem pickInstance_sound_witness:
  "\<exists>inst ps'. pickInstance (\<lambda>i. i = 1) (fst (NewPacketSplitter 9 NewTunnelPool sample_fleet 8192)) = Some (Some inst, ps')
     \<and> inst_id inst = 1"
proof -
  let ?ps = "fst (NewPacketSplitter 9 NewTunnelPool sample_fleet 8192)"
  note ok = NewPacketSplitter_ok [OF sample_fleet_ok, of 9 NewTunnelPool 8192]
  obtain r ps' where "pickInstance (\<lambda>i. i = 1) ?ps = Some (r, ps')" "\<forall>inst. r = Some inst \<longrightarrow> inst_id inst = 1"
      "r = None \<longleftrightarrow> (\<forall>inst \<in> set sample_fleet. inst_id inst \<noteq> 1)"
    using pickInstance_sound [OF ok(1), of "\<lambda>i. i = 1"] unfolding ok(2) by blast
  then show ?thesis by (cases r) (auto simp: sample_fleet_def)
qed

text \<open>
  C20. Weighted distribution: while all instances of a new connection are healthy, its picks run
  through turn after turn in which every instance appears consecutively and as often as its weight.
\<close>

theorem splitter_distribution:
  assumes "fleet_ok xs" and ps_def: "ps = fst (NewPacketSplitter c p xs n)"
  shows "fst (picks healthy_pick (r * sum (\<lambda>i. nat (ps_weights ps ! i)) {0..<length xs}) ps) =
    map (\<lambda>i. Some (xs ! i)) (concat (replicate r (full_turn (length xs) (\<lambda>i. nat (ps_weights ps ! i)))))"
proof -
  let ?c = "(xs, ps_weights ps)"
  note ok = NewPacketSplitter_ok [OF assms(1), of c p n, folded ps_def]
  have v: "split_valid ?c k ps" for k using ok by (simp add: split_valid_def)
  have c: "split_ok ?c" using ok(1,2) assms(1) by (auto simp: split_ok_def ps_ok_def)
  have "splitter.ready ?c 0 ps" using ok by (intro splitter.ready_start [OF c]) (simp add: split_abs_def)
  from splitter.picks_turns [OF c this v, of r] healthy_picks [OF v, of "r * sum (\<lambda>i. nat (ps_weights ps ! i)) {0..<length xs}"]
  show ?thesis by simp
qed

theorem splitter_distribution_witness:
  "fst (picks healthy_pick 3 (fst (NewPacketSplitter 9 NewTunnelPool sample_fleet 8192))) =
     [Some (sample_fleet ! 0), Some (sample_fleet ! 0), Some (sample_fleet ! 1)]"
proof -
  let ?ps = "fst (NewPacketSplitter 9 NewTunnelPool sample_fleet 8192)"
  have w: "ps_weights ?ps = [2, 1]"
    by (simp add: NewPacketSplitter_def recalcWeights_def Let_def sample_fleet_def sdiv_nonneg split: prod.splits)
  have "length sample_fleet = 2" by (simp add: sample_fleet_def)
  with splitter_distribution [OF sample_fleet_ok refl, of 1 9 NewTunnelPool 8192] w show ?thesis
    by (simp add: full_turn_def numeral_eq_Suc)
qed

text \<open>
  C8. Client to tunnels: the chunks read from the client are numbered consecutively, each becomes one
  data frame of the connection, nothing else is put on the wire, and when every send succeeded all
  of them are there; while the relay runs, every chunk read so far has been numbered.
\<close>

theorem client_to_upstream_numbered:
  assumes "pool_inv p" "ps_ok ps" "RelayClientToUpstream pool_send rs 0 [] ps p = (st, tot, sent, ps', p')"
  shows "\<exists>ds rest. tx_chunks (ps_chunkSize ps) rs = ds @ rest \<and> (st = Running \<longrightarrow> rest = []) \<and> st \<noteq> Panicked
    \<and> ps_txSeq ps' = ps_txSeq ps + word_of_nat (length ds) \<and> pool_inv p'
    \<and> pool_wire p \<union> set sent \<subseteq> pool_wire p'
    \<and> pool_wire p' \<subseteq> pool_wire p \<union> set (data_frames (ps_connID ps) (ps_txSeq ps) ds)
    \<and> (sent = data_frames (ps_connID ps) (ps_txSeq ps) ds \<longrightarrow>
         pool_wire p' = pool_wire p \<union> set (data_frames (ps_connID ps) (ps_txSeq ps) ds))"
proof -
  obtain ds rest fs where r: "tx_chunks (ps_chunkSize ps) rs = ds @ rest" "sent = [] @ fs"
      "numbered_prefix pool_wire pool_inv ps p ds fs ps' p'" "st \<noteq> Panicked" "st = Running \<longrightarrow> rest = []"
    using pool.relay_wire [OF assms(3,1,2)] by (elim exE conjE)
  show ?thesis
    by (rule exI [of _ ds], rule exI [of _ rest]) (use r in \<open>auto simp: numbered_prefix_def\<close>)
qed

definition sample_round :: "bytes \<Rightarrow> ((nat \<Rightarrow> write_outcome) \<times> int) tx_round" where
  "sample_round d = \<lparr>tr_done = False, tr_data = d, tr_err = None, tr_healthy = (\<lambda>_. True),
     tr_env1 = (\<lambda>_. WroteAll, 6), tr_env2 = (\<lambda>_. WroteAll, 6)\<rparr>"

theorem client_to_upstream_numbered_witness:
  "\<exists>st tot sent ps' p'. RelayClientToUpstream pool_send [sample_round [1, 2], sample_round [3]] 0 []
      (fst (NewPacketSplitter 9 sample_pool sample_fleet 8192)) sample_pool = (st, tot, sent, ps', p')
    \<and> pool_wire p' \<subseteq> pool_wire sample_pool \<union> set (data_frames 9 0 [[1, 2], [3]])"
proof -
  let ?ps = "fst (NewPacketSplitter 9 sample_pool sample_fleet 8192)"
  note ok = NewPacketSplitter_ok [OF sample_fleet_ok, of 9 sample_pool 8192]
  obtain st tot sent ps' p' where r: "RelayClientToUpstream pool_send [sample_round [1, 2], sample_round [3]] 0 [] ?ps sample_pool
      = (st, tot, sent, ps', p')" by (metis prod_cases5)
  obtain ds rest where d: "tx_chunks (ps_chunkSize ?ps) [sample_round [1, 2], sample_round [3]] = ds @ rest"
      "pool_wire p' \<subseteq> pool_wire sample_pool \<union> set (data_frames (ps_connID ?ps) (ps_txSeq ?ps) ds)"
    using client_to_upstream_numbered [OF sample_pool_ok(1) ok(1) r] by blast
  have "ds @ rest = [[1, 2], [3]]" using d(1) ok(5) by (simp add: tx_chunks_def sample_round_def)
  then have "\<exists>k. ds = take k [[1, 2], [3]]" by (metis append_eq_conv_conj)
  moreover have "set (data_frames 9 0 (take k es)) \<subseteq> set (data_frames 9 0 es)" for k es
    by (auto simp: data_frames_def)
  ultimately show ?thesis using d(2) r ok(3,4) by (intro exI conjI) (rule r, auto)
qed

text \<open>
  C9. Tunnels to client: reverse frames numbered from 0 that arrive in any order and with any
  repetitions are written to the client as the original byte stream, each byte once, and counted,
  provided no gap outlives the grace period and the client accepts every write.
\<close>

theorem upstream_to_client_in_order:
  assumes "N < 2 ^ 32" "snd ` set cis = {..<N}" "\<forall>i < N. dat i \<noteq> []"
    and "timely_arrivals ro_timely Reorderer_arrive (numbered 0 dat cis) NewReorderer"
  shows "\<exists>s'. RelayUpstreamToClient (rx_arrivals c dat cis) (rx_init now) = (Running, s')
    \<and> concat (rx_client s') = concat (map dat [0..<N])
    \<and> rx_total s' = i64 (int (length (concat (map dat [0..<N])))) \<and> Pending (rx_reorderer s') = 0"
proof -
  have "\<forall>i \<in> snd ` set cis. dat i \<noteq> []" using assms(2,3) by simp
  from relay_rx [OF this, of c "rx_init now"] obtain s' where
    s': "RelayUpstreamToClient (rx_arrivals c dat cis) (rx_init now) = (Running, s')"
      "rx_reorderer s' = snd (arrivals Reorderer_arrive (numbered 0 dat cis) NewReorderer)"
      "rx_client s' = fst (arrivals Reorderer_arrive (numbered 0 dat cis) NewReorderer)"
      "rx_total s' = i64 (int (length (concat (fst (arrivals Reorderer_arrive (numbered 0 dat cis) NewReorderer)))))"
    by (auto simp: rx_init_def i64_id)
  have "ro_holds 0 dat N {} 0 NewReorderer"
    unfolding NewReorderer_At using assms(1) by (intro ro_holds_new) simp
  from ro.arrivals_complete [OF this assms(2,4)] s' ro_holds_pending show ?thesis by auto
qed

theorem upstream_to_client_in_order_witness:
  "\<exists>s'. RelayUpstreamToClient (rx_arrivals 9 (\<lambda>i. [word_of_nat i]) [(\<lambda>_. 1, 1), (\<lambda>_. 2, 0)]) (rx_init 0) = (Running, s')
    \<and> concat (rx_client s') = [0, 1]"
proof -
  have "snd ` set [(\<lambda>_::nat. 1::int, 1::nat), (\<lambda>_. 2, 0)] = {..<2}" by auto
  moreover have "timely_arrivals ro_timely Reorderer_arrive
      (numbered 0 (\<lambda>i. [word_of_nat i]) [(\<lambda>_. 1, 1), (\<lambda>_. 2, 0)]) NewReorderer"
    by (simp add: numbered_def NewReorderer_def ro_timely_def ro_expired_def Reorderer_arrive_def
      Reorderer_Insert_def Reorderer_drain.simps Reorderer_Next_def gm_get_def gm_put_def gm_del_def
      gm_len_def second_def time_sub_def)
  ultimately show ?thesis
    using upstream_to_client_in_order [of 2 "[(\<lambda>_. 1, 1), (\<lambda>_. 2, 0)]" "\<lambda>i. [word_of_nat i]" 9 0]
    by (fastforce simp: upt_rec)
qed

text \<open>
  A chunk larger than the frame limit: such a data frame is never sent, and the attempt closes
  every connection of the instance.
\<close>

theorem oversized_chunk_closes_tunnels:
  assumes "pool_inv p" "0 \<le> sint (tp_roundRobin p + 1)" "length d > 8192"
    and "SendFrame out now i (fst (next_frame FlagData (Some d) ps)) p = (res, p')"
  shows "res \<noteq> Sent \<and> (\<forall>a \<in> set (conns_of p i). tc_closed (tp_heap p' ! a))"
proof -
  have "\<not> wf_frame (fst (next_frame FlagData (Some d) ps))"
    using assms(3) by (simp add: wf_frame_def next_frame_def MaxPayloadSize_def)
  with pool_inv_SendFrame [OF assms(1,4)] have "res \<noteq> Sent" by blast
  with SendFrame_outcome [OF assms(1,2,4)] show ?thesis by (cases res) auto
qed

theorem oversized_chunk_closes_tunnels_witness:
  "\<exists>res p'. SendFrame (\<lambda>_. WroteAll) 6 0 (fst (next_frame FlagData (Some (replicate 9000 1))
      (fst (NewPacketSplitter 9 sample_pool sample_fleet 65536)))) sample_pool = (res, p')
    \<and> conns_of sample_pool 0 \<noteq> [] \<and> (\<forall>a \<in> set (conns_of sample_pool 0). tc_closed (tp_heap p' ! a))"
proof -
  obtain res p' where r: "SendFrame (\<lambda>_. WroteAll) 6 0 (fst (next_frame FlagData (Some (replicate 9000 1))
      (fst (NewPacketSplitter 9 sample_pool sample_fleet 65536)))) sample_pool = (res, p')" by fastforce
  have "0 \<le> sint (tp_roundRobin sample_pool + 1)" by (simp add: sample_pool_ok)
  moreover have "conns_of sample_pool 0 \<noteq> []" using sample_pool_ok(2) by auto
  ultimately show ?thesis
    using oversized_chunk_closes_tunnels [OF sample_pool_ok(1) _ _ r] r
    by (intro exI conjI) (rule r, simp_all)
qed

end
