(* ===== verification/Central.thy ===== *)
theory Central
  imports Protocol Reorder
begin

text \<open>
  \<^verbatim>\<open>cmd/centralserver\<close>: the server that puts the frames of a connection back together and relays
  them to the SOCKS upstream (\<^verbatim>\<open>state.go\<close>, \<^verbatim>\<open>upstream.go\<close>, \<^verbatim>\<open>server.go\<close>).

  A \<^verbatim>\<open>*connState\<close> is shared by the connection table and the goroutines of the connection, so the states live in a
  store and are referred to by address; so do the tunnel connections (\<^verbatim>\<open>*sourceConn\<close>), which record
  the bytes written to them.  The write channel of a connection is a queue of its state; the
  field \<^verbatim>\<open>writeCh\<close> being nil is separate from it, because the writer goroutine keeps the channel.
  A handler that releases its lock half-way is the composition of two definitions, so that
  interleavings can be stated.  Clock readings and the outcomes of dials and writes are arguments.
\<close>

subsection \<open>State\<close>

record sourceConn =
  sc_out :: bytes

record connState =
  st_target :: bool
  st_targetClosed :: bool
  st_reorderer :: Reorderer
  st_txSeq :: u32
  st_cancelled :: bool
  st_created :: time
  st_lastActive :: time
  st_sources :: "nat list"
  st_sourceIdx :: int
  st_writeCh :: bool
  st_queue :: "bytes list"
  st_upstream :: "bytes list"

record centralServer =
  cs_conns :: "(u32, nat) gomap"
  cs_states :: "connState list"
  cs_srcs :: "sourceConn list"
  cs_sourceMap :: "(nat, nat) gomap"

definition new_server :: centralServer where
  "new_server = \<lparr>cs_conns = [], cs_states = [], cs_srcs = [], cs_sourceMap = []\<rparr>"

abbreviation state_at :: "centralServer \<Rightarrow> nat \<Rightarrow> connState" where
  "state_at cs a \<equiv> cs_states cs ! a"

definition put_state :: "nat \<Rightarrow> connState \<Rightarrow> centralServer \<Rightarrow> centralServer" where
  "put_state a st cs = cs\<lparr>cs_states := (cs_states cs)[a := st]\<rparr>"

subsection \<open>Tunnel connections\<close>

definition getSourceConn :: "nat \<Rightarrow> centralServer \<Rightarrow> nat \<times> centralServer" where
  "getSourceConn conn cs =
     (case gm_get (cs_sourceMap cs) conn of
        Some sc \<Rightarrow> (sc, cs)
      | None \<Rightarrow> (length (cs_srcs cs),
                 cs\<lparr>cs_srcs := cs_srcs cs @ [\<lparr>sc_out = []\<rparr>],
                    cs_sourceMap := gm_put conn (length (cs_srcs cs)) (cs_sourceMap cs)\<rparr>))"

definition removeSourceConn :: "nat \<Rightarrow> centralServer \<Rightarrow> centralServer" where
  "removeSourceConn conn cs = cs\<lparr>cs_sourceMap := gm_del conn (cs_sourceMap cs)\<rparr>"

definition sourceConn_WriteFrame ::
  "write_outcome \<Rightarrow> Frame \<Rightarrow> sourceConn \<Rightarrow> frame_error option \<times> sourceConn" where
  "sourceConn_WriteFrame out f sc =
     (case WriteFrame (\<lambda>b. snd (inner_write out b)) f of
        Inr b \<Rightarrow> (None, sc\<lparr>sc_out := sc_out sc @ b\<rparr>)
      | Inl (PayloadTooLarge n) \<Rightarrow> (Some (PayloadTooLarge n), sc)
      | Inl e \<Rightarrow> (Some e, sc\<lparr>sc_out := sc_out sc @ take (fst (inner_write out (encode_frame f))) (encode_frame f)\<rparr>))"

subsection \<open>Removing connections\<close>

definition cancel_state :: "connState \<Rightarrow> connState" where
  "cancel_state st = st\<lparr>st_cancelled := True\<rparr>"

definition close_target :: "connState \<Rightarrow> connState" where
  "close_target st = (if st_target st then st\<lparr>st_targetClosed := True\<rparr> else st)"

definition removeConn :: "u32 \<Rightarrow> centralServer \<Rightarrow> centralServer" where
  "removeConn connID cs =
     (case gm_get (cs_conns cs) connID of
        None \<Rightarrow> cs
      | Some a \<Rightarrow> put_state a (cancel_state (state_at cs a)) (cs\<lparr>cs_conns := gm_del connID (cs_conns cs)\<rparr>))"

text \<open>Cancel, close the target and delete: what the sweeps do with a connection.\<close>

definition drop_conn :: "u32 \<Rightarrow> nat \<Rightarrow> centralServer \<Rightarrow> centralServer" where
  "drop_conn connID a cs =
     put_state a (close_target (cancel_state (state_at cs a))) (cs\<lparr>cs_conns := gm_del connID (cs_conns cs)\<rparr>)"

definition closeAll :: "centralServer \<Rightarrow> centralServer" where
  "closeAll cs = fold (\<lambda>(connID, a) c. drop_conn connID a c) (cs_conns cs) cs"

subsection \<open>Sending on the reverse direction\<close>

text \<open>The sources in the order of the attempts; \<open>None\<close> would be an index out of range.\<close>

definition source_order :: "nat list \<Rightarrow> int \<Rightarrow> nat list option" where
  "source_order sources idx =
     (let n = int (length sources); start = idx smod n
      in those (map (\<lambda>i. go_index sources (i64 (start + int i) smod n)) [0..<length sources]))"

text \<open>
  The attempts: \<open>out k\<close> is the outcome of attempt \<open>k\<close>; a source that is in the list twice is tried twice.  A source that fails is taken out
  of the state's list (its first occurrence).
\<close>

fun try_sources ::
  "(nat \<Rightarrow> write_outcome) \<Rightarrow> Frame \<Rightarrow> nat \<Rightarrow> nat list \<Rightarrow> centralServer \<Rightarrow> bool \<times> centralServer" where
  "try_sources out f a [] cs = (False, cs)"
| "try_sources out f a (sc # scs) cs =
     (case sourceConn_WriteFrame (out 0) f (cs_srcs cs ! sc) of
        (None, sc') \<Rightarrow> (True, cs\<lparr>cs_srcs := (cs_srcs cs)[sc := sc']\<rparr>)
      | (Some e, sc') \<Rightarrow>
          let cs1 = cs\<lparr>cs_srcs := (cs_srcs cs)[sc := sc']\<rparr>;
              st = state_at cs1 a
          in try_sources (\<lambda>k. out (Suc k)) f a scs (put_state a (st\<lparr>st_sources := remove1 sc (st_sources st)\<rparr>) cs1))"

definition sendFrame ::
  "(nat \<Rightarrow> write_outcome) \<Rightarrow> u32 \<Rightarrow> Frame \<Rightarrow> centralServer \<Rightarrow> (bool \<times> centralServer) option" where
  "sendFrame out connID f cs =
     (case gm_get (cs_conns cs) connID of
        None \<Rightarrow> Some (False, cs)
      | Some a \<Rightarrow>
          let st = state_at cs a
          in if st_sources st = [] then Some (False, cs)
             else case source_order (st_sources st) (st_sourceIdx st) of
                    None \<Rightarrow> None
                  | Some scs \<Rightarrow>
                      Some (try_sources out f a scs
                        (put_state a (st\<lparr>st_sourceIdx := i64 (st_sourceIdx st + 1)\<rparr>) cs)))"

subsection \<open>Opening a connection\<close>

text \<open>
  \<^verbatim>\<open>handleSYN\<close>: another source of a known connection, or a new state; in that case the result also has
  what \<^verbatim>\<open>connectUpstream\<close> is started with.
\<close>

definition handleSYN ::
  "time \<Rightarrow> Frame \<Rightarrow> nat \<Rightarrow> centralServer \<Rightarrow> (nat \<times> byte \<times> bytes \<times> bytes) option \<times> centralServer" where
  "handleSYN now f source cs =
     (case gm_get (cs_conns cs) (ConnID f) of
        Some a \<Rightarrow>
          (None, put_state a ((state_at cs a)\<lparr>st_sources := st_sources (state_at cs a) @ [source]\<rparr>) cs)
      | None \<Rightarrow>
          case DecodeSYNPayload (slice_bytes (Payload f)) of
            Inl e \<Rightarrow> (None, cs)
          | Inr (atyp, addr, port) \<Rightarrow>
              let a = length (cs_states cs);
                  st = \<lparr>st_target = False, st_targetClosed = False,
                        st_reorderer = NewReordererAt (SeqNum f + 1), st_txSeq = 0,
                        st_cancelled = False, st_created = now, st_lastActive = now,
                        st_sources = [source], st_sourceIdx = 0, st_writeCh = False,
                        st_queue = [], st_upstream = []\<rparr>
              in (Some (a, atyp, addr, port),
                  cs\<lparr>cs_states := cs_states cs @ [st], cs_conns := gm_put (ConnID f) a (cs_conns cs)\<rparr>))"

definition socks_request :: "byte \<Rightarrow> bytes \<Rightarrow> bytes \<Rightarrow> bytes" where
  "socks_request atyp addr port = [0x05, 0x01, 0x00] @ [0x05, 0x01, 0x00, atyp] @ addr @ port"

text \<open>
  The upstream's answer: the reader behind it, or \<open>None\<close> when the connection is refused.  Errors while the
  bind address is drained are ignored.
\<close>

definition read_reply :: "reader \<Rightarrow> reader option" where
  "read_reply r =
     (case ReadFull r 6 of
        (Inl e, r1) \<Rightarrow> None
      | (Inr resp, r1) \<Rightarrow>
          if resp ! 3 \<noteq> 0 then None
          else if resp ! 5 = 0x03 then
            (case ReadFull r1 1 of
               (Inr lb, r2) \<Rightarrow> Some (snd (ReadFull r2 (unat (lb ! 0) + 2)))
             | (Inl e, r2) \<Rightarrow> Some (snd (ReadFull r2 2)))
          else if resp ! 5 = 0x04 then Some (snd (ReadFull r1 18))
          else Some (snd (ReadFull r1 6)))"

definition write_cap :: nat where
  "write_cap = 256"

text \<open>\<^verbatim>\<open>select { case writeCh <- data: default: }\<close> for each chunk; also whether all were accepted.\<close>

fun enqueue_all :: "bytes list \<Rightarrow> bytes list \<Rightarrow> bool \<times> bytes list" where
  "enqueue_all [] q = (True, q)"
| "enqueue_all (d # ds) q =
     (case chan_trysend write_cap d q of
        (q', ok) \<Rightarrow> case enqueue_all ds q' of (oks, q'') \<Rightarrow> (ok \<and> oks, q''))"

definition enqueue :: "nat \<Rightarrow> bytes list \<Rightarrow> centralServer \<Rightarrow> bool \<times> centralServer" where
  "enqueue a chunks cs =
     (case enqueue_all chunks (st_queue (state_at cs a)) of
        (ok, q) \<Rightarrow> (ok, put_state a ((state_at cs a)\<lparr>st_queue := q\<rparr>) cs))"

text \<open>The critical section of \<^verbatim>\<open>connectUpstream\<close> once the upstream has accepted.\<close>

definition upstream_ready :: "(nat \<Rightarrow> time) \<Rightarrow> nat \<Rightarrow> centralServer \<Rightarrow> bytes list \<times> centralServer" where
  "upstream_ready clk a cs =
     (let st = state_at cs a; (chunks, ro) = Reorderer_drain clk (st_reorderer st)
      in (chunks, put_state a (st\<lparr>st_target := True, st_writeCh := True, st_reorderer := ro\<rparr>) cs))"

text \<open>
  What becomes of the connection to the upstream proxy: it cannot be dialled, writing the request fails after
  some bytes, or the request is written and the reader has what the proxy answers.
\<close>

datatype connect_outcome = DialFailed | RequestFailed nat | Answer reader

definition rst_frame :: "u32 \<Rightarrow> Frame" where
  "rst_frame connID = \<lparr>ConnID = connID, SeqNum = 0, Flags = FlagRST OR FlagReverse, Payload = None\<rparr>"

definition fin_frame :: "u32 \<Rightarrow> Frame" where
  "fin_frame connID = \<lparr>ConnID = connID, SeqNum = 0, Flags = FlagFIN OR FlagReverse, Payload = None\<rparr>"

text \<open>A failed attempt tells the client and forgets the connection.\<close>

definition connect_failed :: "(nat \<Rightarrow> write_outcome) \<Rightarrow> u32 \<Rightarrow> centralServer \<Rightarrow> centralServer option" where
  "connect_failed out connID cs =
     map_option (\<lambda>(ok, cs'). removeConn connID cs') (sendFrame out connID (rst_frame connID) cs)"

text \<open>
  \<^verbatim>\<open>connectUpstream\<close> up to the end of its critical section.  The result has the bytes written to the upstream proxy and, on
  success, the reader the relay starts with and the chunks collected under the lock; these are queued one
  by one (\<open>enqueue\<close>) after the lock is released, when the handlers of the tunnels can already queue theirs.
\<close>

definition connectUpstream ::
  "connect_outcome \<Rightarrow> (nat \<Rightarrow> write_outcome) \<Rightarrow> (nat \<Rightarrow> time) \<Rightarrow> u32 \<Rightarrow> nat \<Rightarrow> byte \<Rightarrow> bytes \<Rightarrow> bytes \<Rightarrow> centralServer
     \<Rightarrow> (bytes \<times> (reader \<times> bytes list) option \<times> centralServer) option" where
  "connectUpstream res out clk connID a atyp addr port cs =
     (let pipelined = socks_request atyp addr port
      in case res of
           DialFailed \<Rightarrow> map_option (\<lambda>cs'. ([], None, cs')) (connect_failed out connID cs)
         | RequestFailed n \<Rightarrow> map_option (\<lambda>cs'. (take n pipelined, None, cs')) (connect_failed out connID cs)
         | Answer r \<Rightarrow>
             (case read_reply r of
                None \<Rightarrow> map_option (\<lambda>cs'. (pipelined, None, cs')) (connect_failed out connID cs)
              | Some r' \<Rightarrow>
                  (case upstream_ready clk a cs of
                     (chunks, cs1) \<Rightarrow> Some (pipelined, Some (r', chunks), cs1))))"

text \<open>The goroutine \<^verbatim>\<open>handleSYN\<close> starts for a new connection, with the target of the SYN.\<close>

definition start_upstream ::
  "connect_outcome \<Rightarrow> (nat \<Rightarrow> write_outcome) \<Rightarrow> (nat \<Rightarrow> time) \<Rightarrow> u32 \<Rightarrow> (nat \<times> byte \<times> bytes \<times> bytes) option \<Rightarrow> centralServer
     \<Rightarrow> (bytes \<times> (reader \<times> bytes list) option \<times> centralServer) option" where
  "start_upstream res out clk connID syn cs =
     (case syn of
        None \<Rightarrow> None
      | Some (a, atyp, addr, port) \<Rightarrow> connectUpstream res out clk connID a atyp addr port cs)"

subsection \<open>Relaying\<close>

text \<open>
  One chunk read from the upstream.  \<^verbatim>\<open>sendFrame\<close> looks the connection up again, so nothing is sent once
  it has been removed, but the number is used up.
\<close>

definition relay_chunk ::
  "time \<Rightarrow> (nat \<Rightarrow> write_outcome) \<Rightarrow> u32 \<Rightarrow> nat \<Rightarrow> bytes \<Rightarrow> centralServer \<Rightarrow> (bool \<times> centralServer) option" where
  "relay_chunk now out connID a d cs =
     (let st = state_at cs a;
          cs1 = put_state a (st\<lparr>st_txSeq := st_txSeq st + 1, st_lastActive := now\<rparr>) cs
      in sendFrame out connID
           \<lparr>ConnID = connID, SeqNum = st_txSeq st, Flags = FlagReverse, Payload = Some d\<rparr> cs1)"

definition relay_end :: "(nat \<Rightarrow> write_outcome) \<Rightarrow> u32 \<Rightarrow> nat \<Rightarrow> centralServer \<Rightarrow> centralServer option" where
  "relay_end out connID a cs =
     map_option (\<lambda>(ok, cs'). removeConn connID cs')
       (sendFrame out connID (fin_frame connID)
          (put_state a ((state_at cs a)\<lparr>st_targetClosed := True\<rparr>) cs))"

record up_round =
  ur_now :: time
  ur_data :: bytes
  ur_err :: bool
  ur_out :: "nat \<Rightarrow> write_outcome"

text \<open>The loop, one round per read; it ends when the context is cancelled or a read fails.\<close>

fun relayUpstreamToTunnel ::
  "up_round list \<Rightarrow> u32 \<Rightarrow> nat \<Rightarrow> centralServer \<Rightarrow> (bool \<times> centralServer) option" where
  "relayUpstreamToTunnel [] connID a cs = Some (False, cs)"
| "relayUpstreamToTunnel (r # rs) connID a cs =
     (if st_cancelled (state_at cs a) then map_option (Pair True) (relay_end (ur_out r) connID a cs)
      else
        let d = take MaxPayloadSize (ur_data r)
        in case (if d = [] then Some (False, cs) else relay_chunk (ur_now r) (ur_out r) connID a d cs) of
             None \<Rightarrow> None
           | Some (ok, cs1) \<Rightarrow>
               if ur_err r then map_option (Pair True) (relay_end (ur_out r) connID a cs1)
               else relayUpstreamToTunnel rs connID a cs1)"

text \<open>
  One round of \<^verbatim>\<open>upstreamWriter\<close>: whether it goes on.  When the context is done and a chunk is
  waiting, the choice of the \<^verbatim>\<open>select\<close> is the argument \<open>done\<close>.  Once it has seen the context done it writes
  the rest of the queue, ignoring errors; after a failed write it empties the queue.
\<close>

definition upstreamWriter_step ::
  "bool \<Rightarrow> (nat \<Rightarrow> write_outcome) \<Rightarrow> nat \<Rightarrow> centralServer \<Rightarrow> bool \<times> centralServer" where
  "upstreamWriter_step done out a cs =
     (let st = state_at cs a
      in if st_cancelled st \<and> (done \<or> st_queue st = [])
         then (False, put_state a (st\<lparr>st_queue := [], st_upstream := st_upstream st @
                 map (\<lambda>(i, d). take (fst (inner_write (out i) d)) d) (enumerate 0 (st_queue st))\<rparr>) cs)
         else case st_queue st of
                [] \<Rightarrow> (True, cs)
              | d # q \<Rightarrow>
                  (case inner_write (out 0) d of
                     (n, err) \<Rightarrow>
                       (err = None,
                        put_state a (st\<lparr>st_queue := (if err = None then q else []),
                                        st_upstream := st_upstream st @ [take n d]\<rparr>) cs)))"

subsection \<open>Frames from the tunnels\<close>

text \<open>
  \<^verbatim>\<open>handleData\<close> in its two parts: under the lock the frame is inserted and the ready chunks are
  collected (\<open>None\<close> when there is nothing more to do); after the lock they are queued.
\<close>

definition add_source :: "nat \<Rightarrow> connState \<Rightarrow> connState" where
  "add_source source st =
     (if source \<in> set (st_sources st) then st else st\<lparr>st_sources := st_sources st @ [source]\<rparr>)"

definition handleData_collect ::
  "(nat \<Rightarrow> time) \<Rightarrow> Frame \<Rightarrow> nat \<Rightarrow> centralServer \<Rightarrow> (nat \<times> bytes list) option \<times> centralServer" where
  "handleData_collect clk f source cs =
     (case gm_get (cs_conns cs) (ConnID f) of
        None \<Rightarrow> (None, cs)
      | Some a \<Rightarrow>
          let st = (add_source source (state_at cs a))\<lparr>st_lastActive := clk 0\<rparr>;
              st1 = st\<lparr>st_reorderer := Reorderer_Insert (SeqNum f) (Payload f) (st_reorderer st)\<rparr>
          in if \<not> st_writeCh st1 then (None, put_state a st1 cs)
             else let (chunks, ro) = Reorderer_drain clk (st_reorderer st1)
                  in (Some (a, chunks), put_state a (st1\<lparr>st_reorderer := ro\<rparr>) cs))"

definition handleData :: "(nat \<Rightarrow> time) \<Rightarrow> Frame \<Rightarrow> nat \<Rightarrow> centralServer \<Rightarrow> bool \<times> centralServer" where
  "handleData clk f source cs =
     (case handleData_collect clk f source cs of
        (None, cs1) \<Rightarrow> (True, cs1)
      | (Some (a, chunks), cs1) \<Rightarrow> enqueue a chunks cs1)"

definition handleFIN :: "(nat \<Rightarrow> time) \<Rightarrow> Frame \<Rightarrow> centralServer \<Rightarrow> centralServer" where
  "handleFIN clk f cs =
     (case gm_get (cs_conns cs) (ConnID f) of
        None \<Rightarrow> cs
      | Some a \<Rightarrow>
          let st = state_at cs a;
              (chunks, ro) = (if st_writeCh st then Reorderer_drain clk (st_reorderer st) else ([], st_reorderer st));
              cs1 = put_state a (st\<lparr>st_reorderer := ro, st_writeCh := False\<rparr>) cs;
              cs2 = (if st_writeCh st then snd (enqueue a chunks cs1) else cs1)
          in removeConn (ConnID f) cs2)"

definition handleRST :: "Frame \<Rightarrow> centralServer \<Rightarrow> centralServer" where
  "handleRST f cs = removeConn (ConnID f) cs"

definition dispatchFrame :: "(nat \<Rightarrow> time) \<Rightarrow> Frame \<Rightarrow> nat \<Rightarrow> centralServer \<Rightarrow> centralServer" where
  "dispatchFrame clk f source cs =
     (if IsSYN f then snd (handleSYN (clk 0) f source cs)
      else if IsFIN f then handleFIN clk f cs
      else if IsRST f then handleRST f cs
      else snd (handleData clk f source cs))"

subsection \<open>Sources that end and connections that go stale\<close>

definition cleanup_one :: "nat \<Rightarrow> u32 \<Rightarrow> centralServer \<Rightarrow> centralServer" where
  "cleanup_one deadSource connID cs =
     (case gm_get (cs_conns cs) connID of
        None \<Rightarrow> cs
      | Some a \<Rightarrow>
          let st = state_at cs a;
              st1 = st\<lparr>st_sources := remove1 deadSource (st_sources st)\<rparr>;
              cs1 = put_state a st1 cs
          in if st_sources st1 = [] then drop_conn connID a cs1 else cs1)"

definition cleanupSource :: "nat \<Rightarrow> u32 list \<Rightarrow> centralServer \<Rightarrow> centralServer" where
  "cleanupSource deadSource servedIDs cs = fold (cleanup_one deadSource) servedIDs cs"

definition stale_conn :: "time \<Rightarrow> connState \<Rightarrow> bool" where
  "stale_conn now st \<longleftrightarrow>
     (\<not> st_target st \<and> time_sub now (st_created st) > 60 * second)
     \<or> (st_sources st = [] \<and> time_sub now (st_created st) > 30 * second)
     \<or> time_sub now (st_lastActive st) > 60 * second"

text \<open>One tick of \<^verbatim>\<open>cleanupLoop\<close>.\<close>

definition cleanup_tick :: "time \<Rightarrow> centralServer \<Rightarrow> centralServer" where
  "cleanup_tick now cs =
     fold (\<lambda>(connID, a) c. if stale_conn now (state_at c a) then drop_conn connID a c else c) (cs_conns cs) cs"

subsection \<open>Incoming connections\<close>

definition parseHeader :: "bytes \<Rightarrow> reader \<Rightarrow> Frame option \<times> reader" where
  "parseHeader hdr r =
     (let len = unat (Uint16 (go_slice hdr 9 11));
          mk = (\<lambda>p. \<lparr>ConnID = Uint32 (go_slice hdr 0 4), SeqNum = Uint32 (go_slice hdr 4 8),
                     Flags = hdr ! 8, Payload = p\<rparr>)
      in if len > MaxPayloadSize then (None, r)
         else if len > 0 then
           (case ReadFull r len of
              (Inl e, r1) \<Rightarrow> (None, r1)
            | (Inr p, r1) \<Rightarrow> (Some (mk (Some p)), r1))
         else (Some (mk None), r))"

definition add_served :: "u32 \<Rightarrow> u32 list \<Rightarrow> u32 list" where
  "add_served c served = (if c \<in> set served then served else served @ [c])"

text \<open>The loop over the frames of a connection; \<open>clk k\<close> is the clock during the dispatch of frame \<open>k\<close>.\<close>

function frame_loop ::
  "(nat \<Rightarrow> nat \<Rightarrow> time) \<Rightarrow> nat \<Rightarrow> reader \<Rightarrow> u32 list \<Rightarrow> centralServer \<Rightarrow> u32 list \<times> centralServer" where
  "frame_loop clk sc r served cs =
     (case ReadFrame r of
        (Inl e, r') \<Rightarrow> (served, cs)
      | (Inr f, r') \<Rightarrow>
          frame_loop (\<lambda>k. clk (Suc k)) sc r' (add_served (ConnID f) served) (dispatchFrame (clk 0) f sc cs))"
  by pat_completeness auto
termination
  by (relation "measure (\<lambda>(clk, sc, r, served, cs). length (rd_data r))") (auto intro: ReadFrame_shrinks [OF sym])

declare frame_loop.simps [simp del]

definition handleFrameConn ::
  "(nat \<Rightarrow> nat \<Rightarrow> time) \<Rightarrow> nat \<Rightarrow> byte \<Rightarrow> reader \<Rightarrow> centralServer \<Rightarrow> centralServer" where
  "handleFrameConn clk conn firstByte r cs =
     (let (sc, cs1) = getSourceConn conn cs;
          finish = (\<lambda>served c. cleanupSource sc served (removeSourceConn conn c))
      in case ReadFull r (HeaderSize - 1) of
           (Inl e, r1) \<Rightarrow> finish [] cs1
         | (Inr hdrRest, r1) \<Rightarrow>
             (case parseHeader (firstByte # hdrRest) r1 of
                (None, r2) \<Rightarrow>
                  (case frame_loop (\<lambda>k. clk (Suc k)) sc r2 [] cs1 of (served, cs2) \<Rightarrow> finish served cs2)
              | (Some f, r2) \<Rightarrow>
                  (case frame_loop (\<lambda>k. clk (Suc k)) sc r2 [ConnID f] (dispatchFrame (clk 0) f sc cs1) of
                     (served, cs2) \<Rightarrow> finish served cs2)))"

text \<open>A connection that starts with the SOCKS5 version byte is passed on to the upstream as it is.\<close>

datatype route = Unrouted | Passthrough bytes | Frames

definition handleIncoming ::
  "(nat \<Rightarrow> nat \<Rightarrow> time) \<Rightarrow> nat \<Rightarrow> reader \<Rightarrow> centralServer \<Rightarrow> route \<times> centralServer" where
  "handleIncoming clk conn r cs =
     (case ReadFull r 1 of
        (Inl e, r1) \<Rightarrow> (Unrouted, cs)
      | (Inr b, r1) \<Rightarrow>
          if b ! 0 = 0x05 then (Passthrough (b @ rd_data r1), cs)
          else (Frames, handleFrameConn clk conn (b ! 0) r1 cs))"

subsection \<open>The invariant\<close>

definition state_ok :: "nat \<Rightarrow> connState \<Rightarrow> bool" where
  "state_ok n st \<longleftrightarrow> ro_inv (st_reorderer st) \<and> length (st_queue st) \<le> write_cap
     \<and> (st_writeCh st \<longrightarrow> st_target st) \<and> (\<forall>s \<in> set (st_sources st). s < n)"

definition central_inv :: "centralServer \<Rightarrow> bool" where
  "central_inv cs \<longleftrightarrow> gm_ok (cs_conns cs)
     \<and> (\<forall>c a. gm_get (cs_conns cs) c = Some a \<longrightarrow> a < length (cs_states cs) \<and> \<not> st_cancelled (state_at cs a))
     \<and> (\<forall>c c' a. gm_get (cs_conns cs) c = Some a \<longrightarrow> gm_get (cs_conns cs) c' = Some a \<longrightarrow> c = c')
     \<and> (\<forall>a < length (cs_states cs). state_ok (length (cs_srcs cs)) (state_at cs a))
     \<and> (\<forall>conn s. gm_get (cs_sourceMap cs) conn = Some s \<longrightarrow> s < length (cs_srcs cs))"

lemma central_inv_new: "central_inv new_server"
  by (simp add: central_inv_def new_server_def)

lemma central_inv_at:
  assumes "central_inv cs" "gm_get (cs_conns cs) c = Some a"
  shows "a < length (cs_states cs)" "\<not> st_cancelled (state_at cs a)" "state_ok (length (cs_srcs cs)) (state_at cs a)"
  using assms by (auto simp: central_inv_def)

text \<open>The two kinds of change: a state is updated in place, or taken out of the table.\<close>

lemma put_state_simps [simp]:
  "cs_conns (put_state a st cs) = cs_conns cs" "cs_srcs (put_state a st cs) = cs_srcs cs"
  "cs_sourceMap (put_state a st cs) = cs_sourceMap cs" "cs_states (put_state a st cs) = (cs_states cs)[a := st]"
  by (simp_all add: put_state_def)

lemma central_inv_put:
  assumes "central_inv cs" "state_ok (length (cs_srcs cs)) st"
    and "a < length (cs_states cs) \<Longrightarrow> st_cancelled st \<longrightarrow> st_cancelled (state_at cs a)"
  shows "central_inv (put_state a st cs)"
  using assms by (auto simp: central_inv_def nth_update_if)

lemma central_inv_del:
  assumes "central_inv cs" "gm_get (cs_conns cs) c = Some a" "state_ok (length (cs_srcs cs)) st"
  shows "central_inv (put_state a st (cs\<lparr>cs_conns := gm_del c (cs_conns cs)\<rparr>))"
proof -
  have "c' \<noteq> c \<Longrightarrow> gm_get (cs_conns cs) c' = Some a' \<Longrightarrow> a' \<noteq> a" for c' a'
    using assms(1,2) unfolding central_inv_def by blast
  with assms show ?thesis by (auto simp: central_inv_def nth_update_if split: if_splits)
qed

lemma state_ok_simps [simp]:
  "state_ok n (cancel_state st) = state_ok n st" "state_ok n (close_target st) = state_ok n st"
  by (simp_all add: state_ok_def cancel_state_def close_target_def)

lemma central_inv_removeConn [inv_intros]: "central_inv cs \<Longrightarrow> central_inv (removeConn c cs)"
  by (auto simp: removeConn_def central_inv_del central_inv_at split: option.split)

lemma central_inv_drop [inv_intros]:
  "central_inv cs \<Longrightarrow> gm_get (cs_conns cs) c = Some a \<Longrightarrow> central_inv (drop_conn c a cs)"
  unfolding drop_conn_def by (rule central_inv_del) (simp_all add: central_inv_at)

lemma central_inv_dropped [inv_intros]:
  "central_inv cs \<Longrightarrow> central_inv (fold (\<lambda>(c, a) cs. if P c a cs then drop_conn c a cs else cs) m cs)"
  if "\<And>c a. (c, a) \<in> set m \<Longrightarrow> gm_get (cs_conns cs) c = Some a" "distinct (map fst m)" for P
  using that
proof (induction m arbitrary: cs)
  case (Cons e m)
  obtain c a where e: "e = (c, a)" by fastforce
  then have at: "gm_get (cs_conns cs) c = Some a" using Cons.prems(2) by simp
  let ?cs = "if P c a cs then drop_conn c a cs else cs"
  have "gm_get (cs_conns ?cs) c' = Some a'" if "(c', a') \<in> set m" for c' a'
    using that Cons.prems(2,3) e by (auto simp: drop_conn_def image_iff)
  moreover have "central_inv ?cs" using Cons.prems(1) at by (simp add: central_inv_drop)
  ultimately show ?case using Cons.IH [of ?cs] Cons.prems(3) e by simp
qed simp

lemma central_inv_cleanup_tick [inv_intros]: "central_inv cs \<Longrightarrow> central_inv (cleanup_tick now cs)"
  unfolding cleanup_tick_def
  by (rule central_inv_dropped) (auto simp: central_inv_def gm_get_member gm_ok_def [symmetric])

lemma central_inv_closeAll [inv_intros]: "central_inv cs \<Longrightarrow> central_inv (closeAll cs)"
  using central_inv_dropped [of "cs_conns cs" cs "\<lambda>_ _ _. True"] unfolding closeAll_def
  by (auto simp: central_inv_def gm_get_member gm_ok_def [symmetric])

lemma central_inv_cleanup_one [inv_intros]:
  assumes "central_inv cs"
  shows "central_inv (cleanup_one s c cs)"
proof (cases "gm_get (cs_conns cs) c")
  case (Some a)
  let ?st = "(state_at cs a)\<lparr>st_sources := remove1 s (st_sources (state_at cs a))\<rparr>"
  note at = central_inv_at [OF assms Some]
  have "central_inv (put_state a ?st cs)"
    using assms at by (intro central_inv_put) (auto simp: state_ok_def dest: notin_set_remove1)
  with Some at show ?thesis
    by (auto simp: cleanup_one_def Let_def intro!: central_inv_drop)
qed (simp add: assms cleanup_one_def)

lemma central_inv_cleanupSource [inv_intros]: "central_inv cs \<Longrightarrow> central_inv (cleanupSource s ids cs)"
  unfolding cleanupSource_def by (induction ids arbitrary: cs) (simp_all add: central_inv_cleanup_one)

lemma central_inv_getSourceConn [inv_intros]:
  assumes "central_inv cs" and "getSourceConn conn cs = (s, cs')"
  shows "central_inv cs'" "s < length (cs_srcs cs')"
proof -
  have mono: "state_ok n st \<Longrightarrow> state_ok (Suc n) st" for n st
    by (auto simp: state_ok_def)
  show "central_inv cs'" "s < length (cs_srcs cs')"
    using assms mono
    by (auto simp: getSourceConn_def central_inv_def less_SucI split: option.splits if_splits)
qed

lemma central_inv_removeSourceConn [inv_intros]: "central_inv cs \<Longrightarrow> central_inv (removeSourceConn conn cs)"
  by (auto simp: removeSourceConn_def central_inv_def split: if_splits)

lemma central_inv_srcs:
  "central_inv cs \<Longrightarrow> central_inv (cs\<lparr>cs_srcs := (cs_srcs cs)[s := sc]\<rparr>)"
  by (simp add: central_inv_def)

lemma central_inv_try [inv_intros]:
  "central_inv cs \<Longrightarrow> a < length (cs_states cs) \<Longrightarrow> central_inv (snd (try_sources out f a scs cs))"
proof (induction scs arbitrary: cs out)
  case (Cons s scs)
  obtain e sc where w: "sourceConn_WriteFrame (out 0) f (cs_srcs cs ! s) = (e, sc)" by fastforce
  define cs1 where "cs1 = cs\<lparr>cs_srcs := (cs_srcs cs)[s := sc]\<rparr>"
  have inv: "central_inv cs1" "a < length (cs_states cs1)"
    unfolding cs1_def using Cons.prems by (simp_all add: central_inv_srcs)
  then have "state_ok (length (cs_srcs cs1)) (state_at cs a)" by (simp add: central_inv_def cs1_def)
  then have "central_inv (put_state a ((state_at cs a)\<lparr>st_sources := remove1 s (st_sources (state_at cs a))\<rparr>) cs1)"
    using inv by (intro central_inv_put) (auto simp: state_ok_def cs1_def dest: notin_set_remove1)
  with inv w show ?case
    by (cases e) (simp_all add: cs1_def [symmetric] Let_def Cons.IH)
qed simp

lemma central_inv_sendFrame [inv_intros]:
  assumes "central_inv cs" and "sendFrame out c f cs = Some (ok, cs')"
  shows "central_inv cs'"
proof (cases "gm_get (cs_conns cs) c")
  case None
  then show ?thesis using assms by (simp add: sendFrame_def)
next
  case (Some a)
  note at = central_inv_at [OF assms(1) Some]
  define cs1 where "cs1 = put_state a ((state_at cs a)\<lparr>st_sourceIdx := i64 (st_sourceIdx (state_at cs a) + 1)\<rparr>) cs"
  have "central_inv cs1"
    unfolding cs1_def using assms(1) at by (intro central_inv_put) (auto simp: state_ok_def)
  then have "central_inv (snd (try_sources out f a scs cs1))" for scs
    using at(1) by (intro central_inv_try) (simp_all add: cs1_def)
  then have "try_sources out f a scs cs1 = (ok, cs') \<Longrightarrow> central_inv cs'" for scs
    by (metis snd_conv)
  with assms Some show ?thesis
    by (auto simp: sendFrame_def Let_def cs1_def [symmetric] split: if_splits option.splits)
qed

lemma enqueue_all_bound:
  "length q \<le> write_cap \<Longrightarrow> enqueue_all ds q = (ok, q') \<Longrightarrow> length q' \<le> write_cap"
proof (induction ds arbitrary: q ok q')
  case (Cons d ds)
  let ?q = "fst (chan_trysend write_cap d q)"
  have "length ?q \<le> write_cap" using Cons.prems(1) by (simp add: chan_trysend_def)
  moreover obtain oks where "enqueue_all ds ?q = (oks, q')"
    using Cons.prems(2) by (auto split: prod.splits)
  ultimately show ?case by (rule Cons.IH)
qed simp

lemma central_inv_enqueue [inv_intros]:
  assumes "central_inv cs" "a < length (cs_states cs)"
  shows "central_inv (snd (enqueue a ds cs))"
proof -
  have ok: "state_ok (length (cs_srcs cs)) (state_at cs a)" using assms by (simp add: central_inv_def)
  obtain b q where q: "enqueue_all ds (st_queue (state_at cs a)) = (b, q)" by fastforce
  then have "length q \<le> write_cap" using ok enqueue_all_bound by (auto simp: state_ok_def)
  with assms ok q show ?thesis
    by (auto simp: enqueue_def state_ok_def intro!: central_inv_put)
qed

lemma central_inv_ready [inv_intros]:
  assumes "central_inv cs" "a < length (cs_states cs)"
  shows "central_inv (snd (upstream_ready clk a cs))"
proof -
  have ok: "state_ok (length (cs_srcs cs)) (state_at cs a)" using assms by (simp add: central_inv_def)
  then have "ro_inv (snd (Reorderer_drain clk (st_reorderer (state_at cs a))))"
    by (simp add: state_ok_def ro_inv_drain)
  with assms ok show ?thesis
    by (auto simp: upstream_ready_def Let_def split_beta state_ok_def intro!: central_inv_put)
qed

lemma central_inv_handleSYN [inv_intros]:
  assumes "central_inv cs" "s < length (cs_srcs cs)"
  shows "central_inv (snd (handleSYN now f s cs))"
proof (cases "gm_get (cs_conns cs) (ConnID f)")
  case (Some a)
  with central_inv_at [OF assms(1) Some] assms show ?thesis
    by (auto simp: handleSYN_def state_ok_def intro!: central_inv_put)
next
  case None
  then show ?thesis
    using assms
    by (auto simp: handleSYN_def Let_def central_inv_def nth_append state_ok_def less_SucI split: sum.splits if_splits)
qed

lemma central_inv_handleData_collect [inv_intros]:
  assumes "central_inv cs" "s < length (cs_srcs cs)"
  shows "central_inv (snd (handleData_collect clk f s cs))"
    "fst (handleData_collect clk f s cs) = Some (a, ds) \<Longrightarrow> a < length (cs_states (snd (handleData_collect clk f s cs)))"
proof -
  have *: "central_inv (snd (handleData_collect clk f s cs))
    \<and> (\<forall>a ds. fst (handleData_collect clk f s cs) = Some (a, ds) \<longrightarrow> a < length (cs_states (snd (handleData_collect clk f s cs))))"
  proof (cases "gm_get (cs_conns cs) (ConnID f)")
    case (Some a)
    note at = central_inv_at [OF assms(1) Some]
    define ro where "ro = Reorderer_Insert (SeqNum f) (Payload f) (st_reorderer (state_at cs a))"
    define st where "st = (add_source s (state_at cs a))\<lparr>st_lastActive := clk 0, st_reorderer := ro\<rparr>"
    have "ro_inv ro" "ro_inv (snd (Reorderer_drain clk ro))"
      using at(3) by (simp_all add: ro_def state_ok_def ro_inv_Insert ro_inv_drain)
    moreover have "\<not> st_cancelled st" using at(2) by (simp add: st_def add_source_def)
    ultimately have "central_inv (put_state a st cs)"
      "central_inv (put_state a (st\<lparr>st_reorderer := snd (Reorderer_drain clk ro)\<rparr>) cs)"
      using assms at(3) by (auto simp: st_def state_ok_def add_source_def intro!: central_inv_put)
    moreover have "st_reorderer (add_source s (state_at cs a)) = st_reorderer (state_at cs a)"
      by (simp add: add_source_def)
    ultimately show ?thesis
      using Some at(1) by (auto simp: handleData_collect_def Let_def split_beta st_def ro_def)
  qed (simp add: handleData_collect_def assms)
  then show "central_inv (snd (handleData_collect clk f s cs))"
    "fst (handleData_collect clk f s cs) = Some (a, ds) \<Longrightarrow> a < length (cs_states (snd (handleData_collect clk f s cs)))"
    by blast+
qed

lemma central_inv_writer [inv_intros]:
  assumes "central_inv cs" "a < length (cs_states cs)"
  shows "central_inv (snd (upstreamWriter_step done out a cs))"
proof -
  have "state_ok (length (cs_srcs cs)) (state_at cs a)" using assms by (simp add: central_inv_def)
  with assms show ?thesis
    by (auto simp: upstreamWriter_step_def Let_def state_ok_def split: list.split prod.split intro!: central_inv_put)
qed

lemma central_inv_handleFIN [inv_intros]:
  assumes "central_inv cs"
  shows "central_inv (handleFIN clk f cs)"
proof (cases "gm_get (cs_conns cs) (ConnID f)")
  case (Some a)
  note at = central_inv_at [OF assms Some]
  let ?st = "state_at cs a"
  have "central_inv (put_state a (?st\<lparr>st_reorderer := ro, st_writeCh := False\<rparr>) cs)" if "ro_inv ro" for ro
    using assms at that by (intro central_inv_put) (auto simp: state_ok_def)
  moreover have "central_inv (put_state a (?st\<lparr>st_writeCh := False\<rparr>) cs)"
    using assms at by (intro central_inv_put) (auto simp: state_ok_def)
  moreover have "ro_inv (snd (Reorderer_drain clk (st_reorderer ?st)))"
    using at(3) by (simp add: state_ok_def ro_inv_drain)
  ultimately show ?thesis
    using Some at(1)
    by (auto simp: handleFIN_def Let_def split_beta intro!: central_inv_removeConn central_inv_enqueue)
qed (simp add: handleFIN_def assms)

lemma central_inv_connect_failed [inv_intros]:
  "central_inv cs \<Longrightarrow> connect_failed out c cs = Some cs' \<Longrightarrow> central_inv cs'"
  by (auto simp: connect_failed_def intro: central_inv_removeConn central_inv_sendFrame)

lemma central_inv_relay_chunk [inv_intros]:
  assumes "central_inv cs" "a < length (cs_states cs)" "relay_chunk now out c a d cs = Some (ok, cs')"
  shows "central_inv cs'"
proof -
  have "state_ok (length (cs_srcs cs)) (state_at cs a)" using assms by (simp add: central_inv_def)
  then have "central_inv (put_state a ((state_at cs a)\<lparr>st_txSeq := st_txSeq (state_at cs a) + 1, st_lastActive := now\<rparr>) cs)"
    using assms(1) by (intro central_inv_put) (auto simp: state_ok_def)
  with assms(3) show ?thesis by (auto simp: relay_chunk_def Let_def intro: central_inv_sendFrame)
qed

lemma central_inv_relay_end [inv_intros]:
  assumes "central_inv cs" "a < length (cs_states cs)" "relay_end out c a cs = Some cs'"
  shows "central_inv cs'"
proof -
  have "state_ok (length (cs_srcs cs)) (state_at cs a)" using assms by (simp add: central_inv_def)
  then have "central_inv (put_state a ((state_at cs a)\<lparr>st_targetClosed := True\<rparr>) cs)"
    using assms(1) by (intro central_inv_put) (auto simp: state_ok_def)
  with assms(3) show ?thesis
    by (auto simp: relay_end_def intro: central_inv_removeConn central_inv_sendFrame)
qed

subsection \<open>Interleavings\<close>

text \<open>
  The atomic steps of the server's goroutines, in any order: a handler that releases its lock before it
  queues chunks contributes the two steps separately (the queueing step is not tied to a preceding
  collecting one, which only adds behaviours).
\<close>

inductive central_step :: "centralServer \<Rightarrow> centralServer \<Rightarrow> bool" where
  accept: "getSourceConn conn cs = (s, cs') \<Longrightarrow> central_step cs cs'"
| gone: "central_step cs (cleanupSource s ids (removeSourceConn conn cs))"
| syn: "s < length (cs_srcs cs) \<Longrightarrow> central_step cs (snd (handleSYN now f s cs))"
| collect: "s < length (cs_srcs cs) \<Longrightarrow> central_step cs (snd (handleData_collect clk f s cs))"
| queue: "a < length (cs_states cs) \<Longrightarrow> central_step cs (snd (enqueue a ds cs))"
| fin: "central_step cs (handleFIN clk f cs)"
| rst: "central_step cs (handleRST f cs)"
| ready: "a < length (cs_states cs) \<Longrightarrow> central_step cs (snd (upstream_ready clk a cs))"
| failed: "connect_failed out c cs = Some cs' \<Longrightarrow> central_step cs cs'"
| relay: "a < length (cs_states cs) \<Longrightarrow> relay_chunk now out c a d cs = Some (ok, cs') \<Longrightarrow> central_step cs cs'"
| relayed: "a < length (cs_states cs) \<Longrightarrow> relay_end out c a cs = Some cs' \<Longrightarrow> central_step cs cs'"
| writer: "a < length (cs_states cs) \<Longrightarrow> central_step cs (snd (upstreamWriter_step done out a cs))"
| tick: "central_step cs (cleanup_tick now cs)"
| closed: "central_step cs (closeAll cs)"

interpretation central: invariant_system "\<lambda>cs. cs = new_server" central_step central_inv
proof unfold_locales
  fix cs cs'
  assume "central_inv cs" "central_step cs cs'"
  from this(2,1) show "central_inv cs'"
    by cases (auto simp: handleRST_def intro: inv_intros)
qed (simp add: central_inv_new)

text \<open>What \<^verbatim>\<open>connectUpstream\<close> does to the server is one of the steps.\<close>

lemma connectUpstream_step:
  assumes "connectUpstream res out clk c a atyp addr port cs = Some (written, up, cs')" "a < length (cs_states cs)"
  shows "central_step cs cs'"
    "up = Some (r, chunks) \<Longrightarrow> upstream_ready clk a cs = (chunks, cs')"
proof -
  have "central_step cs cs' \<and> (\<forall>r chunks. up = Some (r, chunks) \<longrightarrow> upstream_ready clk a cs = (chunks, cs'))"
    using assms ready [OF assms(2), of clk]
    by (auto simp: connectUpstream_def Let_def split: connect_outcome.splits option.splits prod.splits intro: failed)
  then show "central_step cs cs'" "up = Some (r, chunks) \<Longrightarrow> upstream_ready clk a cs = (chunks, cs')" by blast+
qed

subsection \<open>One connection among others\<close>

text \<open>The frames of other connections do not touch a connection of the table.\<close>

definition same_conn :: "u32 \<Rightarrow> nat \<Rightarrow> centralServer \<Rightarrow> centralServer \<Rightarrow> bool" where
  "same_conn c a cs cs' \<longleftrightarrow> gm_get (cs_conns cs') c = Some a \<and> state_at cs' a = state_at cs a"

lemma central_inv_uniq:
  "central_inv cs \<Longrightarrow> gm_get (cs_conns cs) c = Some a \<Longrightarrow> gm_get (cs_conns cs) c' = Some a' \<Longrightarrow> c' \<noteq> c \<Longrightarrow> a' \<noteq> a"
  unfolding central_inv_def by blast

lemma same_conn_put:
  "gm_get (cs_conns cs) c = Some a \<Longrightarrow> a' \<noteq> a \<Longrightarrow> same_conn c a cs (put_state a' st cs)"
  by (simp add: same_conn_def)

lemma same_conn_trans: "same_conn c a cs cs' \<Longrightarrow> same_conn c a cs' cs'' \<Longrightarrow> same_conn c a cs cs''"
  by (simp add: same_conn_def)

lemma same_conn_enqueue:
  "gm_get (cs_conns cs) c = Some a \<Longrightarrow> a' \<noteq> a \<Longrightarrow> same_conn c a cs (snd (enqueue a' ds cs))"
  by (simp add: enqueue_def same_conn_put split: prod.split)

lemma same_conn_removeConn:
  assumes "central_inv cs" "gm_get (cs_conns cs) c = Some a" "c' \<noteq> c"
  shows "same_conn c a cs (removeConn c' cs)"
  using assms central_inv_uniq [OF assms(1,2) _ assms(3)]
  by (auto simp: removeConn_def same_conn_def split: option.split)

lemma same_conn_handleData:
  assumes "central_inv cs" "gm_get (cs_conns cs) c = Some a" "ConnID f \<noteq> c"
  shows "same_conn c a cs (snd (handleData clk f s cs))"
proof (cases "gm_get (cs_conns cs) (ConnID f)")
  case (Some a')
  then have "a' \<noteq> a" using central_inv_uniq [OF assms(1,2)] assms(3) by simp
  then show ?thesis
    using Some assms(2)
    by (auto simp: handleData_def handleData_collect_def Let_def split_beta same_conn_def enqueue_def)
qed (simp add: handleData_def handleData_collect_def same_conn_def assms)

lemma same_conn_handleFIN:
  assumes "central_inv cs" "gm_get (cs_conns cs) c = Some a" "ConnID f \<noteq> c"
  shows "same_conn c a cs (handleFIN clk f cs)"
proof (cases "gm_get (cs_conns cs) (ConnID f)")
  case (Some a')
  then have "a' \<noteq> a" using central_inv_uniq [OF assms(1,2)] assms(3) by simp
  then show ?thesis
    using Some assms(2,3)
    by (auto simp: handleFIN_def removeConn_def Let_def split_beta same_conn_def enqueue_def)
qed (simp add: handleFIN_def same_conn_def assms)

lemma same_conn_handleSYN:
  assumes "central_inv cs" "gm_get (cs_conns cs) c = Some a" "ConnID f \<noteq> c"
  shows "same_conn c a cs (snd (handleSYN now f s cs))"
  using assms central_inv_uniq [OF assms(1,2) _ assms(3)] central_inv_at(1) [OF assms(1,2)]
  by (auto simp: handleSYN_def same_conn_def Let_def nth_append split: option.split sum.split)

lemma dispatch_other:
  assumes "central_inv cs" "gm_get (cs_conns cs) c = Some a" "ConnID f \<noteq> c"
  shows "same_conn c a cs (dispatchFrame clk f s cs)"
  using assms
  by (simp add: dispatchFrame_def handleRST_def same_conn_handleSYN same_conn_handleFIN
    same_conn_handleData same_conn_removeConn)

lemma central_inv_handleData [inv_intros]:
  assumes "central_inv cs" "s < length (cs_srcs cs)"
  shows "central_inv (snd (handleData clk f s cs))"
  using central_inv_handleData_collect [OF assms, of clk f]
  by (auto simp: handleData_def split: prod.split option.split intro!: central_inv_enqueue)

lemma central_inv_dispatch [inv_intros]:
  "central_inv cs \<Longrightarrow> s < length (cs_srcs cs) \<Longrightarrow> central_inv (dispatchFrame clk f s cs)"
  by (auto simp: dispatchFrame_def handleRST_def intro: inv_intros)

lemma cs_srcs_dispatch [simp]: "cs_srcs (dispatchFrame clk f s cs) = cs_srcs cs"
  by (simp add: dispatchFrame_def handleRST_def handleSYN_def handleFIN_def handleData_def
    handleData_collect_def removeConn_def enqueue_def Let_def split: option.split sum.split prod.split)

subsection \<open>Reassembly of one connection\<close>

text \<open>
  The run of a connection in the server, split at every lock.  The second component holds the chunks that handlers of the connection have
  collected under its lock and not queued yet, one list for each such handler, the oldest first.  The events: a data
  frame is inserted and the ready chunks are collected (the first half of \<^verbatim>\<open>handleData\<close>); the upstream has answered and
  \<^verbatim>\<open>connectUpstream\<close> collects what has piled up; one of the handlers at work queues its next chunk; the writer goes
  on; any other part of the server does a step.
\<close>

datatype conn_event =
    Data "nat \<Rightarrow> time" nat nat
  | Connected "nat \<Rightarrow> time"
  | Queued nat
  | Written bool "nat \<Rightarrow> write_outcome"
  | Other "centralServer \<Rightarrow> centralServer"

type_synonym conn_run = "centralServer \<times> bytes list list"

definition stream_frame :: "u32 \<Rightarrow> u32 \<Rightarrow> (nat \<Rightarrow> bytes) \<Rightarrow> nat \<Rightarrow> Frame" where
  "stream_frame c s dat i = \<lparr>ConnID = c, SeqNum = s + word_of_nat i, Flags = FlagData, Payload = Some (dat i)\<rparr>"

definition collected :: "bytes list \<Rightarrow> bytes list list \<Rightarrow> bytes list list" where
  "collected chunks pend = (if chunks = [] then pend else pend @ [chunks])"

text \<open>The handler with number \<open>k\<close> queues its first chunk, and is done when that was its last.\<close>

definition queue_next :: "nat \<Rightarrow> nat \<Rightarrow> conn_run \<Rightarrow> conn_run" where
  "queue_next a k x =
     (case x of (cs, pend) \<Rightarrow>
        if k < length pend \<and> pend ! k \<noteq> []
        then (snd (enqueue a [hd (pend ! k)] cs),
              if tl (pend ! k) = [] then take k pend @ drop (Suc k) pend else pend[k := tl (pend ! k)])
        else x)"

fun apply_event :: "u32 \<Rightarrow> nat \<Rightarrow> u32 \<Rightarrow> (nat \<Rightarrow> bytes) \<Rightarrow> conn_event \<Rightarrow> conn_run \<Rightarrow> conn_run" where
  "apply_event c a s dat (Data clk i src) (cs, pend) =
     (case handleData_collect clk (stream_frame c s dat i) src cs of
        (None, cs') \<Rightarrow> (cs', pend)
      | (Some (a', chunks), cs') \<Rightarrow> (cs', collected chunks pend))"
| "apply_event c a s dat (Connected clk) (cs, pend) =
     (case upstream_ready clk a cs of (chunks, cs') \<Rightarrow> (cs', collected chunks pend))"
| "apply_event c a s dat (Queued k) x = queue_next a k x"
| "apply_event c a s dat (Written done out) (cs, pend) = (snd (upstreamWriter_step done out a cs), pend)"
| "apply_event c a s dat (Other g) (cs, pend) = (g cs, pend)"

fun conn_events :: "u32 \<Rightarrow> nat \<Rightarrow> u32 \<Rightarrow> (nat \<Rightarrow> bytes) \<Rightarrow> conn_event list \<Rightarrow> conn_run \<Rightarrow> conn_run" where
  "conn_events c a s dat [] x = x"
| "conn_events c a s dat (e # es) x = conn_events c a s dat es (apply_event c a s dat e x)"

text \<open>A condition holds at every event of a run.\<close>

fun always ::
  "(conn_event \<Rightarrow> conn_run \<Rightarrow> bool) \<Rightarrow> u32 \<Rightarrow> nat \<Rightarrow> u32 \<Rightarrow> (nat \<Rightarrow> bytes) \<Rightarrow> conn_event list \<Rightarrow> conn_run \<Rightarrow> bool" where
  "always P c a s dat [] x \<longleftrightarrow> True"
| "always P c a s dat (e # es) x \<longleftrightarrow> P e x \<and> always P c a s dat es (apply_event c a s dat e x)"

text \<open>
  The conditions under which nothing is lost or swapped, each by itself: the frames are those of a stream of \<open>N\<close> chunks and come
  from tunnels; no gap of the buffer outlives the grace period; the write queue has room; the handlers queue in the order
  in which they collected; the upstream connects once; it takes every write; and the other parts of the server neither close
  the connection nor reach into its buffer, queue or writer.
\<close>

fun of_stream :: "nat \<Rightarrow> conn_event \<Rightarrow> conn_run \<Rightarrow> bool" where
  "of_stream N (Data clk i src) (cs, pend) \<longleftrightarrow> i < N \<and> src < length (cs_srcs cs)"
| "of_stream N e x \<longleftrightarrow> True"

fun no_long_gap :: "nat \<Rightarrow> conn_event \<Rightarrow> conn_run \<Rightarrow> bool" where
  "no_long_gap a (Data clk i src) (cs, pend) \<longleftrightarrow> ro_timely clk (st_reorderer (state_at cs a))"
| "no_long_gap a (Connected clk) (cs, pend) \<longleftrightarrow> ro_timely clk (st_reorderer (state_at cs a))"
| "no_long_gap a e x \<longleftrightarrow> True"

fun queue_room :: "nat \<Rightarrow> conn_event \<Rightarrow> conn_run \<Rightarrow> bool" where
  "queue_room a (Queued k) (cs, pend) \<longleftrightarrow> length (st_queue (state_at cs a)) < write_cap"
| "queue_room a e x \<longleftrightarrow> True"

fun queue_in_turn :: "conn_event \<Rightarrow> conn_run \<Rightarrow> bool" where
  "queue_in_turn (Queued k) x \<longleftrightarrow> k = 0"
| "queue_in_turn e x \<longleftrightarrow> True"

fun connects_once :: "nat \<Rightarrow> conn_event \<Rightarrow> conn_run \<Rightarrow> bool" where
  "connects_once a (Connected clk) (cs, pend) \<longleftrightarrow> \<not> st_writeCh (state_at cs a)"
| "connects_once a e x \<longleftrightarrow> True"

fun upstream_takes :: "conn_event \<Rightarrow> conn_run \<Rightarrow> bool" where
  "upstream_takes (Written done out) x \<longleftrightarrow> out 0 = WroteAll"
| "upstream_takes e x \<longleftrightarrow> True"

definition same_stream :: "u32 \<Rightarrow> nat \<Rightarrow> centralServer \<Rightarrow> centralServer \<Rightarrow> bool" where
  "same_stream c a cs cs' \<longleftrightarrow> gm_get (cs_conns cs') c = Some a
     \<and> st_reorderer (state_at cs' a) = st_reorderer (state_at cs a)
     \<and> st_writeCh (state_at cs' a) = st_writeCh (state_at cs a)
     \<and> st_queue (state_at cs' a) = st_queue (state_at cs a)
     \<and> st_upstream (state_at cs' a) = st_upstream (state_at cs a)"

fun undisturbed :: "u32 \<Rightarrow> nat \<Rightarrow> conn_event \<Rightarrow> conn_run \<Rightarrow> bool" where
  "undisturbed c a (Other g) (cs, pend) \<longleftrightarrow> central_step cs (g cs) \<and> same_stream c a cs (g cs)"
| "undisturbed c a e x \<longleftrightarrow> True"

definition arrived :: "conn_event list \<Rightarrow> nat set" where
  "arrived es = {i. \<exists>clk src. Data clk i src \<in> set es}"

definition connects :: "conn_event list \<Rightarrow> bool" where
  "connects es \<longleftrightarrow> (\<exists>clk. Connected clk \<in> set es)"

text \<open>The state of the connection: before the upstream answers frames only pile up.\<close>

definition conn_holds ::
  "u32 \<Rightarrow> nat \<Rightarrow> u32 \<Rightarrow> (nat \<Rightarrow> bytes) \<Rightarrow> nat \<Rightarrow> nat set \<Rightarrow> nat \<Rightarrow> conn_run \<Rightarrow> bool" where
  "conn_holds c a s dat N A m x \<longleftrightarrow> (case x of (cs, pend) \<Rightarrow>
     central_inv cs \<and> gm_get (cs_conns cs) c = Some a \<and> [] \<notin> set pend
     \<and> st_upstream (state_at cs a) @ st_queue (state_at cs a) @ concat pend = map dat [0..<m]
     \<and> (if st_writeCh (state_at cs a) then ro_holds s dat N A m (st_reorderer (state_at cs a))
        else m = 0 \<and> ro_has s dat N A 0 (st_reorderer (state_at cs a))))"

abbreviation writing :: "nat \<Rightarrow> conn_run \<Rightarrow> bool" where
  "writing a x \<equiv> st_writeCh (state_at (fst x) a)"

lemma add_source_simps [simp]:
  "st_reorderer (add_source s st) = st_reorderer st" "st_writeCh (add_source s st) = st_writeCh st"
  "st_queue (add_source s st) = st_queue st" "st_upstream (add_source s st) = st_upstream st"
  by (simp_all add: add_source_def)

lemma map_upt_append: "m \<le> m' \<Longrightarrow> map f [0..<m] @ map f [m..<m'] = map f [0..<m']"
  by (metis le_add_diff_inverse map_append upt_add_eq_append zero_le)

lemma collected_simps [simp]:
  "concat (collected ds pend) = concat pend @ ds" "[] \<in> set (collected ds pend) \<longleftrightarrow> [] \<in> set pend"
  by (auto simp: collected_def)

lemma conn_holds_Data:
  assumes h: "conn_holds c a s dat N A m (cs, pend)"
    and ok: "i < N" "src < length (cs_srcs cs)" "ro_timely clk (st_reorderer (state_at cs a))"
    and x: "x = apply_event c a s dat (Data clk i src) (cs, pend)"
  shows "\<exists>m'. conn_holds c a s dat N (insert i A) m' x \<and> (writing a x \<longleftrightarrow> writing a (cs, pend))"
proof -
  let ?st = "state_at cs a" and ?f = "stream_frame c s dat i"
  have get: "gm_get (cs_conns cs) c = Some a" and inv: "central_inv cs" using h by (simp_all add: conn_holds_def)
  note at = central_inv_at [OF inv get]
  note inv' = central_inv_handleData_collect(1) [OF inv ok(2), of clk ?f]
  define ro where "ro = Reorderer_Insert (s + word_of_nat i) (Some (dat i)) (st_reorderer ?st)"
  have hd: "handleData_collect clk ?f src cs =
      (if \<not> st_writeCh ?st then (None, put_state a ((add_source src ?st)\<lparr>st_lastActive := clk 0, st_reorderer := ro\<rparr>) cs)
       else (Some (a, fst (Reorderer_drain clk ro)),
             put_state a ((add_source src ?st)\<lparr>st_lastActive := clk 0, st_reorderer := snd (Reorderer_drain clk ro)\<rparr>) cs))"
    using get by (simp add: handleData_collect_def stream_frame_def Let_def split_beta ro_def)
  show ?thesis
  proof (cases "st_writeCh ?st")
    case False
    then have "ro_has s dat N (insert i A) 0 ro"
      using h ok ro_has_Insert [of s dat N A 0] by (simp add: conn_holds_def ro_def)
    with False h inv' at(1) show ?thesis
      unfolding conn_holds_def x by (intro exI [of _ 0]) (auto simp: hd)
  next
    case True
    then obtain m' where m': "m \<le> m'" "fst (Reorderer_drain clk ro) = map dat [m..<m']"
        "ro_holds s dat N (insert i A) m' (snd (Reorderer_drain clk ro))"
      using h ok ro.arrive_step [of s dat N A m "st_reorderer ?st" i clk]
      by (auto simp: conn_holds_def ro_def Reorderer_arrive_def)
    have "st_upstream ?st @ st_queue ?st @ concat (collected (map dat [m..<m']) pend)
        = (st_upstream ?st @ st_queue ?st @ concat pend) @ map dat [m..<m']"
      by simp
    also have "\<dots> = map dat [0..<m']" using h m'(1) by (simp add: conn_holds_def map_upt_append)
    finally have "st_upstream ?st @ st_queue ?st @ concat (collected (map dat [m..<m']) pend) = map dat [0..<m']" .
    with True h inv' at(1) m' show ?thesis
      unfolding conn_holds_def x by (intro exI [of _ m']) (simp add: hd)
  qed
qed

lemma conn_holds_Connected:
  assumes h: "conn_holds c a s dat N A m (cs, pend)"
    and ok: "\<not> st_writeCh (state_at cs a)" "ro_timely clk (st_reorderer (state_at cs a))"
    and x: "x = apply_event c a s dat (Connected clk) (cs, pend)"
  shows "\<exists>m'. conn_holds c a s dat N A m' x \<and> writing a x"
proof -
  let ?st = "state_at cs a"
  have get: "gm_get (cs_conns cs) c = Some a" and inv: "central_inv cs" and "[] \<notin> set pend" "concat pend = []"
      and up: "st_upstream ?st = []" "st_queue ?st = []"
      and has: "ro_has s dat N A 0 (st_reorderer ?st)" using h ok by (auto simp: conn_holds_def)
  then have pend: "pend = []" by (cases pend) auto
  note at = central_inv_at [OF inv get]
  obtain m' where m': "fst (Reorderer_drain clk (st_reorderer ?st)) = map dat [0..<m']"
      "ro_holds s dat N A m' (snd (Reorderer_drain clk (st_reorderer ?st)))"
    using ro_has_drain [OF has ok(2)] by auto
  obtain ds cs1 where r: "upstream_ready clk a cs = (ds, cs1)" by fastforce
  then have "ds = map dat [0..<m']" "cs_conns cs1 = cs_conns cs" "state_at cs1 a = ?st\<lparr>st_target := True, st_writeCh := True,
      st_reorderer := snd (Reorderer_drain clk (st_reorderer ?st))\<rparr>"
    using at(1) m'(1) by (auto simp: upstream_ready_def Let_def split_beta)
  moreover have "x = (cs1, collected ds [])" using r by (simp add: x pend)
  ultimately show ?thesis
    using central_inv_ready [OF inv at(1), of clk] r get m'(2) up unfolding conn_holds_def
    by (intro exI [of _ m']) (simp add: collected_def)
qed

lemma queue_first:
  assumes "pend \<noteq> []" "[] \<notin> set pend" "length (st_queue (state_at cs a)) < write_cap" "a < length (cs_states cs)"
  shows "\<exists>pend'. queue_next a 0 (cs, pend) = (put_state a ((state_at cs a)\<lparr>st_queue := st_queue (state_at cs a) @ [hd (hd pend)]\<rparr>) cs, pend')
    \<and> [] \<notin> set pend' \<and> hd (hd pend) # concat pend' = concat pend"
proof -
  obtain d ds rest where p: "pend = (d # ds) # rest" using assms(1,2) by (metis list.exhaust list.set_intros(1))
  then have "queue_next a 0 (cs, pend) = (put_state a ((state_at cs a)\<lparr>st_queue := st_queue (state_at cs a) @ [d]\<rparr>) cs,
      if ds = [] then rest else ds # rest)"
    using assms(3) by (simp add: queue_next_def enqueue_def chan_trysend_def)
  then show ?thesis using assms(2) p by auto
qed

lemma conn_holds_Queued:
  assumes h: "conn_holds c a s dat N A m (cs, pend)" and room: "length (st_queue (state_at cs a)) < write_cap"
    and x: "x = apply_event c a s dat (Queued 0) (cs, pend)"
  shows "conn_holds c a s dat N A m x \<and> (writing a x \<longleftrightarrow> writing a (cs, pend))"
proof (cases "pend = []")
  case True
  then show ?thesis using h x by (simp add: queue_next_def)
next
  case False
  have get: "gm_get (cs_conns cs) c = Some a" and inv: "central_inv cs" and ne: "[] \<notin> set pend"
    using h by (simp_all add: conn_holds_def)
  note at = central_inv_at [OF inv get]
  let ?st = "state_at cs a"
  define d where "d = hd (hd pend)"
  define cs' where "cs' = put_state a (?st\<lparr>st_queue := st_queue ?st @ [d]\<rparr>) cs"
  obtain pend' where q: "x = (cs', pend')" "[] \<notin> set pend'" "d # concat pend' = concat pend"
    using queue_first [OF False ne room at(1)] unfolding x cs'_def d_def by auto
  have inv': "central_inv cs'"
  proof -
    have "cs' = snd (enqueue a [d] cs)" using room by (simp add: cs'_def enqueue_def chan_trysend_def)
    then show ?thesis using central_inv_enqueue [OF inv at(1)] by simp
  qed
  have "st_writeCh ?st"
  proof (rule ccontr)
    assume "\<not> st_writeCh ?st"
    then have "concat pend = []" using h by (auto simp: conn_holds_def)
    with q(3) show False by simp
  qed
  moreover have "state_at cs' a = ?st\<lparr>st_queue := st_queue ?st @ [d]\<rparr>" "cs_conns cs' = cs_conns cs"
    using at(1) by (simp_all add: cs'_def)
  moreover have "st_upstream ?st @ (st_queue ?st @ [d]) @ concat pend' = map dat [0..<m]"
    using h q(3) by (simp add: conn_holds_def)
  ultimately show ?thesis using h inv' q(1,2) by (simp add: conn_holds_def)
qed

lemma conn_holds_Written:
  assumes h: "conn_holds c a s dat N A m (cs, pend)" and "out 0 = WroteAll"
    and x: "x = apply_event c a s dat (Written done out) (cs, pend)"
  shows "conn_holds c a s dat N A m x \<and> (writing a x \<longleftrightarrow> writing a (cs, pend))"
proof -
  have get: "gm_get (cs_conns cs) c = Some a" and inv: "central_inv cs" using h by (simp_all add: conn_holds_def)
  note at = central_inv_at [OF inv get]
  have "central_inv (snd (upstreamWriter_step done out a cs))" using inv at(1) by (rule central_inv_writer)
  with h at assms(2) show ?thesis
    unfolding x by (auto simp: conn_holds_def upstreamWriter_step_def inner_write_def Let_def split: list.split if_splits)
qed

lemma conn_holds_Other:
  assumes h: "conn_holds c a s dat N A m (cs, pend)" and "central_step cs (g cs)" "same_stream c a cs (g cs)"
    and x: "x = apply_event c a s dat (Other g) (cs, pend)"
  shows "conn_holds c a s dat N A m x \<and> (writing a x \<longleftrightarrow> writing a (cs, pend))"
proof -
  have "central_inv (g cs)" using central.inv_step [OF _ assms(2)] h by (simp add: conn_holds_def)
  with h assms(3) show ?thesis unfolding x by (simp add: conn_holds_def same_stream_def)
qed

text \<open>All conditions of a run together.\<close>

definition fair_event :: "u32 \<Rightarrow> nat \<Rightarrow> nat \<Rightarrow> conn_event \<Rightarrow> conn_run \<Rightarrow> bool" where
  "fair_event c a N e x \<longleftrightarrow> of_stream N e x \<and> no_long_gap a e x \<and> queue_room a e x \<and> queue_in_turn e x
     \<and> connects_once a e x \<and> upstream_takes e x \<and> undisturbed c a e x"

lemma always_fair:
  assumes "always (of_stream N) c a s dat es x" "always (no_long_gap a) c a s dat es x" "always (queue_room a) c a s dat es x"
    and "always queue_in_turn c a s dat es x" "always (connects_once a) c a s dat es x"
    and "always upstream_takes c a s dat es x" "always (undisturbed c a) c a s dat es x"
  shows "always (fair_event c a N) c a s dat es x"
  using assms by (induction es arbitrary: x) (simp_all add: fair_event_def)

lemma event_simps:
  "arrived [e] = (case e of Data clk i src \<Rightarrow> {i} | _ \<Rightarrow> {})"
  "connects [e] \<longleftrightarrow> (case e of Connected clk \<Rightarrow> True | _ \<Rightarrow> False)"
  by (auto simp: arrived_def connects_def split: conn_event.split)

lemma conn_holds_event:
  assumes "conn_holds c a s dat N A m x" "fair_event c a N e x"
  shows "\<exists>m'. conn_holds c a s dat N (A \<union> arrived [e]) m' (apply_event c a s dat e x)
    \<and> (writing a (apply_event c a s dat e x) \<longleftrightarrow> writing a x \<or> connects [e])"
proof -
  obtain cs pend where x: "x = (cs, pend)" by fastforce
  note f = assms(2) [unfolded fair_event_def x] and h = assms(1) [unfolded x]
  show ?thesis
  proof (cases e)
    case Data
    then show ?thesis using conn_holds_Data [OF h _ _ _ refl] f x by (simp add: event_simps)
  next
    case Connected
    then show ?thesis using conn_holds_Connected [OF h _ _ refl] f x by (simp add: event_simps)
  next
    case Queued
    then show ?thesis using conn_holds_Queued [OF h _ refl] f x by (intro exI [of _ m]) (simp add: event_simps)
  next
    case (Written d out)
    then show ?thesis using conn_holds_Written [OF h _ refl] f x by (intro exI [of _ m]) (simp add: event_simps)
  next
    case Other
    then show ?thesis using conn_holds_Other [OF h _ _ refl] f x by (intro exI [of _ m]) (simp add: event_simps)
  qed
qed

lemma conn_events_holds:
  assumes "conn_holds c a s dat N A m x" and "always (fair_event c a N) c a s dat es x"
  shows "\<exists>m'. conn_holds c a s dat N (A \<union> arrived es) m' (conn_events c a s dat es x)
    \<and> (writing a (conn_events c a s dat es x) \<longleftrightarrow> writing a x \<or> connects es)"
  using assms
proof (induction es arbitrary: A m x)
  case Nil
  then show ?case by (auto simp: arrived_def connects_def)
next
  case (Cons e es)
  let ?x = "apply_event c a s dat e x"
  obtain m1 where m1: "conn_holds c a s dat N (A \<union> arrived [e]) m1 ?x" "writing a ?x \<longleftrightarrow> writing a x \<or> connects [e]"
    using conn_holds_event [OF Cons.prems(1)] Cons.prems(2) by auto
  have "A \<union> arrived [e] \<union> arrived es = A \<union> arrived (e # es)" "connects (e # es) \<longleftrightarrow> connects [e] \<or> connects es"
    by (auto simp: arrived_def connects_def)
  with Cons.IH [OF m1(1)] Cons.prems(2) m1(2) show ?case by simp
qed

lemma conn_holds_syn:
  assumes "central_inv cs" "src < length (cs_srcs cs)" "gm_get (cs_conns cs) c = None"
    and "DecodeSYNPayload p = Inr x" "unat (s + 1) + N < 2 ^ 32"
    and f: "f = \<lparr>ConnID = c, SeqNum = s, Flags = FlagSYN, Payload = Some p\<rparr>"
  shows "conn_holds c (length (cs_states cs)) (s + 1) dat N {} 0 (dispatchFrame clk f src cs, [])"
    "\<not> writing (length (cs_states cs)) (dispatchFrame clk f src cs, pend)"
proof -
  obtain atyp addr port where x: "x = (atyp, addr, port)" by (cases x)
  have "dispatchFrame clk f src cs = snd (handleSYN (clk 0) f src cs)"
    by (simp add: dispatchFrame_def f go_simps)
  moreover have "central_inv (snd (handleSYN (clk 0) f src cs))" using assms(1,2) by (rule central_inv_handleSYN)
  moreover have "ro_has (s + 1) dat N {} 0 (NewReordererAt (s + 1))"
    using ro_holds_new [OF assms(5)] by (simp add: ro_holds_def)
  ultimately show "conn_holds c (length (cs_states cs)) (s + 1) dat N {} 0 (dispatchFrame clk f src cs, [])"
    "\<not> writing (length (cs_states cs)) (dispatchFrame clk f src cs, pend)"
    using assms(3,4) x by (simp_all add: conn_holds_def handleSYN_def f Let_def)
qed

text \<open>How much of the stream has been handed over after a run.\<close>

lemma conn_holds_complete:
  assumes "conn_holds c a s dat N A m (cs, pend)"
  shows "m \<le> N \<and> (A = {..<N} \<and> st_writeCh (state_at cs a) \<longrightarrow> m = N)"
proof (cases "st_writeCh (state_at cs a)")
  case True
  then have "ro_holds s dat N A m (st_reorderer (state_at cs a))" using assms by (simp add: conn_holds_def)
  then show ?thesis using ro.frontier ro.frontier_complete ro_has_bounds by (metis ro_holds_def)
next
  case False
  then show ?thesis using assms by (simp add: conn_holds_def)
qed

lemma always_arrived: "always (of_stream N) c a s dat es x \<Longrightarrow> arrived es \<subseteq> {..<N}"
proof (induction es arbitrary: x)
  case (Cons e es)
  obtain cs pend where x: "x = (cs, pend)" by fastforce
  have "of_stream N e x" using Cons.prems by simp
  moreover have "arrived es \<subseteq> {..<N}" using Cons.IH [of "apply_event c a s dat e x"] Cons.prems by simp
  ultimately  show ?case unfolding x by (cases e) (auto simp: arrived_def)
qed (simp add: arrived_def)

text \<open>
  Most of what the server does besides leaves the stream of a connection alone: frames of other connections, more SYNs
  of the connection itself, and the relay of what its upstream answers.
\<close>

lemma undisturbed_dispatch:
  assumes "central_inv cs" "gm_get (cs_conns cs) c = Some a" "ConnID f \<noteq> c"
  shows "same_stream c a cs (dispatchFrame clk f s cs)"
  using dispatch_other [OF assms] by (simp add: same_conn_def same_stream_def)

lemma undisturbed_syn:
  assumes "gm_get (cs_conns cs) c = Some a" "a < length (cs_states cs)" "ConnID f = c"
  shows "same_stream c a cs (snd (handleSYN now f s cs))"
  using assms by (simp add: handleSYN_def same_stream_def)

lemma same_stream_try:
  "gm_get (cs_conns cs) c = Some a \<Longrightarrow> a < length (cs_states cs) \<Longrightarrow> same_stream c a cs (snd (try_sources out f a scs cs))"
proof (induction scs arbitrary: cs out)
  case Nil
  then show ?case by (simp add: same_stream_def)
next
  case (Cons s scs)
  obtain e sc where w: "sourceConn_WriteFrame (out 0) f (cs_srcs cs ! s) = (e, sc)" by fastforce
  let ?cs = "put_state a ((state_at cs a)\<lparr>st_sources := remove1 s (st_sources (state_at cs a))\<rparr>) (cs\<lparr>cs_srcs := (cs_srcs cs)[s := sc]\<rparr>)"
  have "same_stream c a ?cs (snd (try_sources (\<lambda>k. out (Suc k)) f a scs ?cs))" by (rule Cons.IH) (use Cons.prems in simp_all)
  with Cons.prems w show ?case by (cases e) (simp_all add: same_stream_def Let_def)
qed

lemma same_stream_sendFrame:
  assumes "gm_get (cs_conns cs) c = Some a" "a < length (cs_states cs)" "sendFrame out c f cs = Some (ok, cs')"
  shows "same_stream c a cs cs'"
proof -
  let ?st = "(state_at cs a)\<lparr>st_sourceIdx := i64 (st_sourceIdx (state_at cs a) + 1)\<rparr>"
  have "same_stream c a (put_state a ?st cs) (snd (try_sources out f a scs (put_state a ?st cs)))" for scs
    by (rule same_stream_try) (use assms in simp_all)
  then have "same_stream c a cs (snd (try_sources out f a scs (put_state a ?st cs)))" for scs
    using assms(2) by (simp add: same_stream_def)
  then have "try_sources out f a scs (put_state a ?st cs) = (ok, cs') \<Longrightarrow> same_stream c a cs cs'" for scs by (metis snd_conv)
  with assms show ?thesis
    by (auto simp: sendFrame_def Let_def same_stream_def split: option.splits if_splits)
qed

lemma undisturbed_relay:
  assumes "gm_get (cs_conns cs) c = Some a" "a < length (cs_states cs)" "relay_chunk now out c a d cs = Some (ok, cs')"
  shows "same_stream c a cs cs'"
proof -
  let ?cs = "put_state a ((state_at cs a)\<lparr>st_txSeq := st_txSeq (state_at cs a) + 1, st_lastActive := now\<rparr>) cs"
  have "same_stream c a ?cs cs'"
    by (rule same_stream_sendFrame) (use assms in \<open>simp_all add: relay_chunk_def Let_def\<close>)
  then show ?thesis using assms(2) by (simp add: same_stream_def)
qed

subsection \<open>Round robin over the sources\<close>

lemma those_map_Some: "those (map (\<lambda>i. Some (g i)) xs) = Some (map g xs)"
  by (induction xs) auto

lemma source_order_rotate:
  assumes "0 \<le> idx" "0 < length srcs" "idx + int (length srcs) < 2 ^ 63"
  shows "source_order srcs idx = Some (rotate (nat idx) srcs)"
proof -
  let ?n = "int (length srcs)"
  have st: "idx smod ?n = idx mod ?n" using assms by (intro smod_nonneg) auto
  have b: "idx mod ?n \<le> idx" using assms by (intro zmod_le_nonneg_dividend)
  have "go_index srcs (i64 (idx smod ?n + int i) smod ?n) = Some (rotate (nat idx) srcs ! i)" if i: "i < length srcs" for i
  proof -
    have r: "0 \<le> idx mod ?n + int i" "idx mod ?n + int i < 2 ^ 63"
      using assms(2,3) i b by (auto simp: pos_mod_sign add_nonneg_nonneg)
    have "i64 (idx mod ?n + int i) = idx mod ?n + int i" by (rule i64_id) (use r in linarith)+
    then have "i64 (idx smod ?n + int i) smod ?n = (idx mod ?n + int i) smod ?n" by (simp only: st)
    also have "\<dots> = (idx mod ?n + int i) mod ?n" using assms(2) r(1) by (intro smod_nonneg) simp_all
    also have "\<dots> = int ((nat idx + i) mod length srcs)" using assms(1) by (simp add: zmod_int mod_add_left_eq)
    finally show ?thesis using assms(2) i by (simp add: nth_rotate)
  qed
  then have "source_order srcs idx = those (map (\<lambda>i. Some (rotate (nat idx) srcs ! i)) [0..<length srcs])"
    unfolding source_order_def Let_def by (intro arg_cong [of _ _ those] map_cong) simp_all
  also have "\<dots> = Some (rotate (nat idx) srcs)" by (simp only: those_map_Some) (metis length_rotate map_nth)
  finally show ?thesis .
qed

lemma sourceConn_WriteFrame_ok:
  "payload_len f \<le> MaxPayloadSize \<Longrightarrow>
     sourceConn_WriteFrame WroteAll f sc = (None, sc\<lparr>sc_out := sc_out sc @ encode_frame f\<rparr>)"
  by (simp add: sourceConn_WriteFrame_def WriteFrame_def inner_write_def)

lemma sourceConn_WriteFrame_fails: "out \<noteq> WroteAll \<Longrightarrow> \<exists>e sc'. sourceConn_WriteFrame out f sc = (Some e, sc')"
  by (cases out) (simp_all add: sourceConn_WriteFrame_def WriteFrame_def inner_write_def)

lemma sourceConn_WriteFrame_grows: "\<exists>torn. sc_out (snd (sourceConn_WriteFrame out f sc)) = sc_out sc @ torn"
  by (auto simp: sourceConn_WriteFrame_def split: sum.split frame_error.split)

text \<open>
  The attempts stop at the first one that succeeds; the sources of those before it are struck off.  A source that is in the list
  twice can have failed before: then a part of the frame precedes the frame on it.
\<close>

lemma try_sources_first:
  assumes "payload_len f \<le> MaxPayloadSize" "a < length (cs_states cs)" "s < length (cs_srcs cs)"
    and "out (length pre) = WroteAll" "\<forall>k < length pre. out k \<noteq> WroteAll"
  shows "\<exists>cs' torn. try_sources out f a (pre @ s # post) cs = (True, cs')
    \<and> sc_out (cs_srcs cs' ! s) = sc_out (cs_srcs cs ! s) @ torn @ encode_frame f \<and> (s \<notin> set pre \<longrightarrow> torn = [])
    \<and> (\<forall>t. t \<notin> set pre \<longrightarrow> t \<noteq> s \<longrightarrow> cs_srcs cs' ! t = cs_srcs cs ! t)
    \<and> state_at cs' a = (state_at cs a)\<lparr>st_sources := fold remove1 pre (st_sources (state_at cs a))\<rparr>
    \<and> cs_conns cs' = cs_conns cs"
  using assms(2-)
proof (induction pre arbitrary: cs out)
  case Nil
  then show ?case using assms(1) by (simp add: sourceConn_WriteFrame_ok)
next
  case (Cons t pre)
  have "out 0 \<noteq> WroteAll" using Cons.prems(4) by auto
  then obtain e sc where w: "sourceConn_WriteFrame (out 0) f (cs_srcs cs ! t) = (Some e, sc)"
    using sourceConn_WriteFrame_fails by blast
  obtain torn0 where torn0: "sc_out sc = sc_out (cs_srcs cs ! t) @ torn0"
    using sourceConn_WriteFrame_grows [of "out 0" f "cs_srcs cs ! t"] w by auto
  define cs1 where "cs1 = put_state a ((state_at cs a)\<lparr>st_sources := remove1 t (st_sources (state_at cs a))\<rparr>)
    (cs\<lparr>cs_srcs := (cs_srcs cs)[t := sc]\<rparr>)"
  have step: "try_sources out f a ((t # pre) @ s # post) cs = try_sources (\<lambda>k. out (Suc k)) f a (pre @ s # post) cs1"
    using w by (simp add: cs1_def Let_def)
  have p: "a < length (cs_states cs1)" "s < length (cs_srcs cs1)" "cs_conns cs1 = cs_conns cs"
      "state_at cs1 a = (state_at cs a)\<lparr>st_sources := remove1 t (st_sources (state_at cs a))\<rparr>"
      "\<forall>u. u \<noteq> t \<longrightarrow> cs_srcs cs1 ! u = cs_srcs cs ! u"
    using Cons.prems by (simp_all add: cs1_def)
  have s1: "sc_out (cs_srcs cs1 ! s) = sc_out (cs_srcs cs ! s) @ (if s = t then torn0 else [])"
    using Cons.prems(2) torn0 by (simp add: cs1_def)
  have "(\<lambda>k. out (Suc k)) (length pre) = WroteAll" "\<forall>k < length pre. (\<lambda>k. out (Suc k)) k \<noteq> WroteAll"
    using Cons.prems(3,4) by auto
  from Cons.IH [OF p(1,2) this] obtain cs' torn where r: "try_sources (\<lambda>k. out (Suc k)) f a (pre @ s # post) cs1 = (True, cs')"
      "sc_out (cs_srcs cs' ! s) = sc_out (cs_srcs cs1 ! s) @ torn @ encode_frame f" "s \<notin> set pre \<longrightarrow> torn = []"
      "\<forall>t. t \<notin> set pre \<longrightarrow> t \<noteq> s \<longrightarrow> cs_srcs cs' ! t = cs_srcs cs1 ! t"
      "state_at cs' a = (state_at cs1 a)\<lparr>st_sources := fold remove1 pre (st_sources (state_at cs1 a))\<rparr>" "cs_conns cs' = cs_conns cs1"
    by (elim exE conjE)
  show ?case unfolding step
    by (rule exI [of _ cs'], rule exI [of _ "(if s = t then torn0 else []) @ torn"]) (use r s1 p(3-5) in auto)
qed

lemma try_sources_none:
  assumes "\<forall>k < length scs. out k \<noteq> WroteAll"
  shows "fst (try_sources out f a scs cs) = False"
  using assms
proof (induction scs arbitrary: cs out)
  case (Cons t scs)
  have "out 0 \<noteq> WroteAll" "\<forall>k < length scs. out (Suc k) \<noteq> WroteAll" using Cons.prems by auto
  moreover from this(1) obtain e sc where "sourceConn_WriteFrame (out 0) f (cs_srcs cs ! t) = (Some e, sc)"
    using sourceConn_WriteFrame_fails by blast
  ultimately show ?case using Cons.IH [of "\<lambda>k. out (Suc k)"] by (simp add: Let_def)
qed simp

text \<open>
  While every write succeeds, the relay numbers what it reads consecutively and distributes the frames over the
  sources: each goes to exactly one, and each source carries its share in order.
\<close>

fun reverse_frames :: "u32 \<Rightarrow> u32 \<Rightarrow> bytes list \<Rightarrow> Frame list" where
  "reverse_frames c q [] = []"
| "reverse_frames c q (d # ds) =
     \<lparr>ConnID = c, SeqNum = q, Flags = FlagReverse, Payload = Some d\<rparr> # reverse_frames c (q + 1) ds"

definition share :: "nat \<Rightarrow> nat list \<Rightarrow> Frame list \<Rightarrow> Frame list" where
  "share s tgt fs = map snd (filter (\<lambda>(t, f). t = s) (zip tgt fs))"

definition relay_ready :: "u32 \<Rightarrow> nat \<Rightarrow> nat \<Rightarrow> centralServer \<Rightarrow> bool" where
  "relay_ready c a n cs \<longleftrightarrow> central_inv cs \<and> gm_get (cs_conns cs) c = Some a \<and> st_sources (state_at cs a) \<noteq> []
     \<and> 0 \<le> st_sourceIdx (state_at cs a)
     \<and> st_sourceIdx (state_at cs a) + int n + int (length (st_sources (state_at cs a))) < 2 ^ 63"

definition good_round :: "up_round \<Rightarrow> bool" where
  "good_round r \<longleftrightarrow> ur_data r \<noteq> [] \<and> length (ur_data r) \<le> MaxPayloadSize \<and> \<not> ur_err r \<and> (\<forall>s. ur_out r s = WroteAll)"

lemma relay_chunk_sends:
  assumes ready: "relay_ready c a (Suc n) cs" and r: "good_round r"
  shows "\<exists>cs' t. relay_chunk now (ur_out r) c a (ur_data r) cs = Some (True, cs') \<and> relay_ready c a n cs'
    \<and> t \<in> set (st_sources (state_at cs a)) \<and> length (cs_srcs cs') = length (cs_srcs cs)
    \<and> st_sources (state_at cs' a) = st_sources (state_at cs a) \<and> st_txSeq (state_at cs' a) = st_txSeq (state_at cs a) + 1
    \<and> (\<forall>s < length (cs_srcs cs). sc_out (cs_srcs cs' ! s) = sc_out (cs_srcs cs ! s)
         @ (if s = t then encode_frame \<lparr>ConnID = c, SeqNum = st_txSeq (state_at cs a), Flags = FlagReverse, Payload = Some (ur_data r)\<rparr> else []))"
proof -
  let ?st = "state_at cs a"
  define f where "f = \<lparr>ConnID = c, SeqNum = st_txSeq ?st, Flags = FlagReverse, Payload = Some (ur_data r)\<rparr>"
  define st where "st = ?st\<lparr>st_txSeq := st_txSeq ?st + 1, st_lastActive := now, st_sourceIdx := st_sourceIdx ?st + 1\<rparr>"
  have p: "central_inv cs" "gm_get (cs_conns cs) c = Some a" "st_sources ?st \<noteq> []" "0 \<le> st_sourceIdx ?st"
      "st_sourceIdx ?st + int (Suc n) + int (length (st_sources ?st)) < 2 ^ 63"
    using ready by (simp_all add: relay_ready_def)
  note at = central_inv_at [OF p(1,2)]
  obtain t ts where t: "rotate (nat (st_sourceIdx ?st)) (st_sources ?st) = t # ts"
    using p(3) by (cases "rotate (nat (st_sourceIdx ?st)) (st_sources ?st)") auto
  then have tm: "t \<in> set (st_sources ?st)" by (metis list.set_intros(1) set_rotate)
  then have tl: "t < length (cs_srcs cs)" using at(3) by (simp add: state_ok_def)
  have wf: "payload_len f \<le> MaxPayloadSize" using r by (simp add: f_def good_round_def)
  have wr: "ur_out r 0 = WroteAll" using r by (simp add: good_round_def)
  have "i64 (st_sourceIdx ?st + 1) = st_sourceIdx ?st + 1" using p(4,5) by (intro i64_id) linarith+
  then have "relay_chunk now (ur_out r) c a (ur_data r) cs
      = Some (try_sources (ur_out r) f a (t # ts) (put_state a st cs))"
    using p(2-5) at(1) source_order_rotate [of "st_sourceIdx ?st" "st_sources ?st"] t
    by (simp add: relay_chunk_def sendFrame_def Let_def st_def f_def put_state_def)
  also have "\<dots> = Some (True, (put_state a st cs)\<lparr>cs_srcs := (cs_srcs cs)[t := (cs_srcs cs ! t)\<lparr>sc_out := sc_out (cs_srcs cs ! t) @ encode_frame f\<rparr>]\<rparr>)"
    using wr wf by (simp add: sourceConn_WriteFrame_ok)
  finally have rel: "relay_chunk now (ur_out r) c a (ur_data r) cs = \<dots>" .
  have "central_inv (put_state a st cs)"
    using p(1) at by (intro central_inv_put) (auto simp: st_def state_ok_def)
  from central_inv_srcs [OF this] rel p(2-5) at(1) tm tl show ?thesis
    by (intro exI conjI) (rule rel, auto simp: relay_ready_def st_def f_def nth_update_if)
qed

lemma relay_partition:
  assumes "relay_ready c a (length rs) cs" "list_all good_round rs"
  shows "\<exists>cs' tgt. relayUpstreamToTunnel rs c a cs = Some (False, cs') \<and> length tgt = length rs
    \<and> set tgt \<subseteq> set (st_sources (state_at cs a)) \<and> length (cs_srcs cs') = length (cs_srcs cs)
    \<and> (\<forall>s < length (cs_srcs cs). sc_out (cs_srcs cs' ! s) = sc_out (cs_srcs cs ! s)
         @ concat (map encode_frame (share s tgt (reverse_frames c (st_txSeq (state_at cs a)) (map ur_data rs)))))"
  using assms
proof (induction rs arbitrary: cs)
  case Nil
  then show ?case by (simp add: share_def)
next
  case (Cons r rs)
  have r: "good_round r" "list_all good_round rs" using Cons.prems(2) by simp_all
  have nc: "\<not> st_cancelled (state_at cs a)"
    using Cons.prems(1) central_inv_at(2) by (auto simp: relay_ready_def)
  obtain cs1 t where s1: "relay_chunk (ur_now r) (ur_out r) c a (ur_data r) cs = Some (True, cs1)" "relay_ready c a (length rs) cs1"
      "t \<in> set (st_sources (state_at cs a))" "length (cs_srcs cs1) = length (cs_srcs cs)"
      "st_sources (state_at cs1 a) = st_sources (state_at cs a)" "st_txSeq (state_at cs1 a) = st_txSeq (state_at cs a) + 1"
      "\<forall>s < length (cs_srcs cs). sc_out (cs_srcs cs1 ! s) = sc_out (cs_srcs cs ! s)
         @ (if s = t then encode_frame \<lparr>ConnID = c, SeqNum = st_txSeq (state_at cs a), Flags = FlagReverse, Payload = Some (ur_data r)\<rparr> else [])"
    using relay_chunk_sends [of c a "length rs" cs r "ur_now r"] Cons.prems(1) r(1) by auto
  obtain cs' tgt where s2: "relayUpstreamToTunnel rs c a cs1 = Some (False, cs')" "length tgt = length rs"
      "set tgt \<subseteq> set (st_sources (state_at cs a))" "length (cs_srcs cs') = length (cs_srcs cs)"
      "\<forall>s < length (cs_srcs cs). sc_out (cs_srcs cs' ! s) = sc_out (cs_srcs cs1 ! s)
         @ concat (map encode_frame (share s tgt (reverse_frames c (st_txSeq (state_at cs a) + 1) (map ur_data rs))))"
    using Cons.IH [OF s1(2) r(2)] unfolding s1(4-6) by (elim exE conjE)
  have "relayUpstreamToTunnel (r # rs) c a cs = Some (False, cs')"
    using nc r(1) s1(1) s2(1) by (simp add: good_round_def)
  then show ?case
    using s1(3,7) s2(2-5) by (intro exI [of _ cs'] exI [of _ "t # tgt"]) (auto simp: share_def)
qed

subsection \<open>A tunnel connection is the sequence of its frames\<close>

fun dispatch_all :: "(nat \<Rightarrow> nat \<Rightarrow> time) \<Rightarrow> nat \<Rightarrow> Frame list \<Rightarrow> centralServer \<Rightarrow> centralServer" where
  "dispatch_all clk sc [] cs = cs"
| "dispatch_all clk sc (f # fs) cs = dispatch_all (\<lambda>k. clk (Suc k)) sc fs (dispatchFrame (clk 0) f sc cs)"

lemma frame_loop_ReadFrames:
  "frame_loop clk sc r served cs =
     (fold add_served (map ConnID (fst (ReadFrames r))) served, dispatch_all clk sc (fst (ReadFrames r)) cs)"
proof (induction clk sc r served cs rule: frame_loop.induct)
  case (1 clk sc r served cs)
  obtain x r' where x: "ReadFrame r = (x, r')" by fastforce
  show ?case
  proof (cases x)
    case (Inl e)
    with x show ?thesis by (simp add: frame_loop.simps [of clk sc r] ReadFrames.simps [of r])
  next
    case (Inr f)
    with x 1 [OF x [unfolded Inr, symmetric] refl] show ?thesis
      by (simp add: frame_loop.simps [of clk sc r] ReadFrames.simps [of r] split_beta)
  qed
qed

lemma ReadFull_split:
  assumes "ReadFull r (Suc n) = (Inr (b # hdr), r')"
  shows "\<exists>r1. ReadFull r 1 = (Inr [b], r1) \<and> ReadFull r1 n = (Inr hdr, r')"
  using assms by (cases r; cases "rd_data r") (auto simp: ReadFull_def split: if_splits)

text \<open>The first frame, whose header is read in two parts, is the one \<^verbatim>\<open>ReadFrame\<close> would read.\<close>

lemma first_frame:
  assumes "ReadFrame r = (Inr f, r')"
  shows "\<exists>b r1 hdr r2. ReadFull r 1 = (Inr [b], r1) \<and> ReadFull r1 (HeaderSize - 1) = (Inr hdr, r2)
    \<and> parseHeader (b # hdr) r2 = (Some f, r')"
proof -
  obtain h r2 where h: "ReadFull r HeaderSize = (Inr h, r2)"
    using assms by (auto simp: ReadFrame_def split: prod.splits sum.splits)
  then obtain b hdr where b: "h = b # hdr"
    using ReadFull_InrD by (cases h) (force simp: HeaderSize_def)+
  then obtain r1 where "ReadFull r 1 = (Inr [b], r1)" "ReadFull r1 (HeaderSize - 1) = (Inr hdr, r2)"
    using ReadFull_split [of r "HeaderSize - 1"] h by (auto simp: HeaderSize_def)
  moreover have "parseHeader (b # hdr) r2 = (Some f, r')"
    using assms h b
    by (auto simp: ReadFrame_def parseHeader_def Let_def split: if_splits prod.splits sum.splits)
  ultimately show ?thesis by blast
qed

subsection \<open>The sweep\<close>

definition sweep :: "time \<Rightarrow> (u32, nat) gomap \<Rightarrow> centralServer \<Rightarrow> centralServer" where
  "sweep now m cs = fold (\<lambda>(c, a) cs. if stale_conn now (state_at cs a) then drop_conn c a cs else cs) m cs"

lemma cleanup_tick_sweep: "cleanup_tick now cs = sweep now (cs_conns cs) cs"
  by (simp add: cleanup_tick_def sweep_def)

lemma sweep_untouched:
  assumes "a \<notin> snd ` set m" "c \<notin> fst ` set m"
  shows "state_at (sweep now m cs) a = state_at cs a" "gm_get (cs_conns (sweep now m cs)) c = gm_get (cs_conns cs) c"
  using assms by (induction m arbitrary: cs) (auto simp: sweep_def drop_conn_def)

lemma sweep_entry:
  assumes "(c, a) \<in> set m" "distinct (map fst m)" "distinct (map snd m)" "a < length (cs_states cs)"
    and "gm_get (cs_conns cs) c = Some a"
  shows "if stale_conn now (state_at cs a)
    then gm_get (cs_conns (sweep now m cs)) c = None
      \<and> state_at (sweep now m cs) a = close_target (cancel_state (state_at cs a))
    else gm_get (cs_conns (sweep now m cs)) c = Some a \<and> state_at (sweep now m cs) a = state_at cs a"
  using assms
proof (induction m arbitrary: cs)
  case (Cons e m)
  obtain c' a' where e: "e = (c', a')" by fastforce
  let ?cs = "if stale_conn now (state_at cs a') then drop_conn c' a' cs else cs"
  have sw: "sweep now (e # m) cs = sweep now m ?cs" by (simp add: sweep_def e)
  show ?case
  proof (cases "(c, a) = e")
    case True
    then have "a \<notin> snd ` set m" "c \<notin> fst ` set m" using Cons.prems(2,3) e by auto
    from sweep_untouched [OF this] True e Cons.prems(4,5) show ?thesis
      unfolding sw by (auto simp: drop_conn_def)
  next
    case False
    then have m: "(c, a) \<in> set m" using Cons.prems(1) by auto
    then have ne: "c' \<noteq> c" "a' \<noteq> a" using Cons.prems(2,3) e by (auto simp: image_iff)
    then have same: "state_at ?cs a = state_at cs a" "gm_get (cs_conns ?cs) c = Some a" "length (cs_states ?cs) = length (cs_states cs)"
      using Cons.prems(5) by (auto simp: drop_conn_def)
    from Cons.IH [OF m, of ?cs] same Cons.prems(2-4) show ?thesis unfolding sw by simp
  qed
qed simp

lemma central_conns_distinct:
  assumes "central_inv cs"
  shows "distinct (map fst (cs_conns cs))" "distinct (map snd (cs_conns cs))"
proof -
  have ok: "gm_ok (cs_conns cs)" using assms by (simp add: central_inv_def)
  then show d: "distinct (map fst (cs_conns cs))" by (simp add: gm_ok_def)
  have "inj_on snd (set (cs_conns cs))"
  proof (rule inj_onI)
    fix x y assume "x \<in> set (cs_conns cs)" "y \<in> set (cs_conns cs)" "snd x = snd y"
    with gm_get_member [OF ok] show "x = y"
      using central_inv_uniq [OF assms] by (metis prod.collapse)
  qed
  then show "distinct (map snd (cs_conns cs))" using d by (simp add: distinct_map)
qed

subsection \<open>Properties\<close>

text \<open>
  C5. Reassembly at the server.  The SYN of a new connection has been handled in a reachable server.  From then on its data
  frames may arrive over any tunnels, in any order and repeatedly, the upstream may answer at any time, each handler may be
  interrupted between collecting chunks and queueing each of them, the writer may run at any time, and any other part of the
  server may do its steps in between.  If no frame is missing for more than the grace period of two seconds, the write queue never
  overflows, the handlers queue in the order in which they collected, no write to the upstream fails, and nothing closes the
  connection, then what has been written to the upstream, what is queued and what the handlers still hold is at any time a
  prefix of the client's stream, in order and without repetition; it is the whole stream once all frames have
  arrived and the upstream is connected; and once handlers and writer have also caught up, the whole stream has been written to
  the upstream.  The last conditions are needed: data that overtakes the SYN is lost (\<open>early_data_lost\<close>), and handlers that
  overtake each other swap chunks (\<open>handleData_race_swaps_chunks\<close>).
\<close>

theorem central_reassembles:
  assumes "central_step\<^sup>*\<^sup>* new_server cs" "src < length (cs_srcs cs)" "gm_get (cs_conns cs) c = None"
    and "DecodeSYNPayload p = Inr x" "unat (s + 1) + N < 2 ^ 32" "a = length (cs_states cs)"
    and start: "start = (dispatchFrame clk \<lparr>ConnID = c, SeqNum = s, Flags = FlagSYN, Payload = Some p\<rparr> src cs, [])"
    and frames: "always (of_stream N) c a (s + 1) dat es start"
    and timely: "always (no_long_gap a) c a (s + 1) dat es start"
    and room: "always (queue_room a) c a (s + 1) dat es start"
    and order: "always queue_in_turn c a (s + 1) dat es start"
    and connect: "always (connects_once a) c a (s + 1) dat es start"
    and writes: "always upstream_takes c a (s + 1) dat es start"
    and others: "always (undisturbed c a) c a (s + 1) dat es start"
    and run: "conn_events c a (s + 1) dat es start = (cs', pend)"
  shows "(\<exists>m \<le> N. st_upstream (state_at cs' a) @ st_queue (state_at cs' a) @ concat pend = map dat [0..<m]
      \<and> (arrived es = {..<N} \<and> connects es \<longrightarrow> m = N))
    \<and> (arrived es = {..<N} \<and> connects es \<and> st_queue (state_at cs' a) = [] \<and> pend = []
        \<longrightarrow> st_upstream (state_at cs' a) = map dat [0..<N])"
proof -
  have inv: "central_inv cs" using central.reachable_inv assms(1) by blast
  note fair = always_fair [OF frames timely room order connect writes others]
  have "conn_holds c a (s + 1) dat N {} 0 start" "\<not> writing a start"
    using conn_holds_syn [OF inv assms(2-5) refl] unfolding start assms(6) by simp_all
  with conn_events_holds [OF _ fair, of "{}"] obtain m where
      m: "conn_holds c a (s + 1) dat N ({} \<union> arrived es) m (cs', pend)" "writing a (cs', pend) \<longleftrightarrow> connects es"
    unfolding run by blast
  have c: "m \<le> N" "arrived es = {..<N} \<and> connects es \<longrightarrow> m = N"
    using conn_holds_complete [OF m(1)] m(2) by simp_all
  have w: "st_upstream (state_at cs' a) @ st_queue (state_at cs' a) @ concat pend = map dat [0..<m]"
    using m(1) by (simp add: conn_holds_def)
  show ?thesis
  proof
    show "\<exists>m \<le> N. st_upstream (state_at cs' a) @ st_queue (state_at cs' a) @ concat pend = map dat [0..<m]
      \<and> (arrived es = {..<N} \<and> connects es \<longrightarrow> m = N)" using c w by blast
    show "arrived es = {..<N} \<and> connects es \<and> st_queue (state_at cs' a) = [] \<and> pend = []
      \<longrightarrow> st_upstream (state_at cs' a) = map dat [0..<N]"
    proof
      assume h: "arrived es = {..<N} \<and> connects es \<and> st_queue (state_at cs' a) = [] \<and> pend = []"
      then have "m = N" using c(2) by blast
      with w h show "st_upstream (state_at cs' a) = map dat [0..<N]" by simp
    qed
  qed
qed

definition sample_server :: centralServer where
  "sample_server = snd (getSourceConn 7 new_server)"

lemma sample_server_reachable: "central_step\<^sup>*\<^sup>* new_server sample_server"
  unfolding sample_server_def by (rule r_into_rtranclp, rule accept [of 7 _ "fst (getSourceConn 7 new_server)"]) simp

text \<open>
  Two frames in the wrong order, the first before the upstream answers, a second SYN in between, and all steps of the
  handlers and the writer.
\<close>

definition sample_events :: "conn_event list" where
  "sample_events = [Data (\<lambda>_. 0) 1 0,
     Other (\<lambda>cs. snd (handleSYN 0 \<lparr>ConnID = 9, SeqNum = 0, Flags = FlagSYN, Payload = None\<rparr> 0 cs)),
     Connected (\<lambda>_. 0), Data (\<lambda>_. 0) 0 0, Queued 0, Written False (\<lambda>_. WroteAll), Queued 0, Written False (\<lambda>_. WroteAll)]"

lemmas central_eval =
  sample_server_def getSourceConn_def new_server_def dispatchFrame_def handleSYN_def handleData_def handleData_collect_def
  read_reply_def ReadFull_def upstream_ready_def queue_next_def collected_def enqueue_def chan_trysend_def write_cap_def
  upstreamWriter_step_def inner_write_def add_source_def put_state_def stream_frame_def NewReordererAt_def
  Reorderer_Insert_def Reorderer_drain.simps Reorderer_Next_def ro_timely_def ro_expired_def gm_get_def gm_put_def
  gm_del_def gm_len_def second_def Let_def go_simps

lemma sample_syn_payload: "DecodeSYNPayload [1, 10, 0, 0, 1, 0, 80] = Inr (1, [10, 0, 0, 1], [0, 80])"
  by (simp add: DecodeSYNPayload_def go_slice_def)

definition sample_syn :: "u32 \<Rightarrow> Frame" where
  "sample_syn c = \<lparr>ConnID = c, SeqNum = 0, Flags = FlagSYN, Payload = Some [1, 10, 0, 0, 1, 0, 80]\<rparr>"

definition open_server :: centralServer where
  "open_server = dispatchFrame (\<lambda>_. 0) (sample_syn 9) 0 sample_server"

lemma open_server_eq: "open_server =
    \<lparr>cs_conns = [(9, 0)],
     cs_states = [\<lparr>st_target = False, st_targetClosed = False, st_reorderer = NewReordererAt 1, st_txSeq = 0, st_cancelled = False,
       st_created = 0, st_lastActive = 0, st_sources = [0], st_sourceIdx = 0, st_writeCh = False, st_queue = [], st_upstream = []\<rparr>],
     cs_srcs = [\<lparr>sc_out = []\<rparr>], cs_sourceMap = [(7, 0)]\<rparr>"
  by (simp add: open_server_def sample_syn_def sample_syn_payload central_eval)

lemma syn_undisturbed:
  "gm_get (cs_conns cs) 9 = Some 0 \<Longrightarrow> cs_srcs cs \<noteq> [] \<Longrightarrow> cs_states cs \<noteq> [] \<Longrightarrow> ConnID f = 9 \<Longrightarrow>
     undisturbed 9 0 (Other (\<lambda>cs. snd (handleSYN 0 f 0 cs))) (cs, pend)"
  using undisturbed_syn [of cs 9 0 f 0 0] central_step.syn [of 0 cs 0 f] by simp

lemma sample_syn_undisturbed:
  "undisturbed 9 0 (Other (\<lambda>cs. snd (handleSYN 0 \<lparr>ConnID = 9, SeqNum = 0, Flags = FlagSYN, Payload = None\<rparr> 0 cs)))
     (apply_event 9 0 (0 + 1) (\<lambda>i. [word_of_nat i]) (Data (\<lambda>_. 0) 1 0) (open_server, []))"
proof -
  obtain cs pend where "apply_event 9 0 (0 + 1) (\<lambda>i. [word_of_nat i]) (Data (\<lambda>_. 0) 1 0) (open_server, []) = (cs, pend)"
      "gm_get (cs_conns cs) 9 = Some 0" "cs_srcs cs \<noteq> []" "cs_states cs \<noteq> []"
    by (simp add: open_server_eq central_eval)
  then show ?thesis using syn_undisturbed [of cs _ pend] by simp
qed

theorem central_reassembles_witness:
  "st_upstream (state_at (fst (conn_events 9 0 1 (\<lambda>i. [word_of_nat i]) sample_events (open_server, []))) 0) = [[0], [1]]"
proof -
  let ?dat = "\<lambda>i. [word_of_nat i] :: bytes"
  have start: "(open_server, []) = (dispatchFrame (\<lambda>_. 0) \<lparr>ConnID = 9, SeqNum = 0, Flags = FlagSYN,
      Payload = Some [1, 10, 0, 0, 1, 0, 80]\<rparr> 0 sample_server, [])"
    by (simp add: open_server_def sample_syn_def)
  obtain cs' where run: "conn_events 9 0 (0 + 1) ?dat sample_events (open_server, []) = (cs', [])" "st_queue (state_at cs' 0) = []"
    by (simp add: sample_events_def open_server_eq central_eval)
  have "arrived sample_events = {..<2}" by (auto simp: arrived_def sample_events_def numeral_eq_Suc less_Suc_eq)
  moreover have "connects sample_events" by (simp add: connects_def sample_events_def)
  moreover have "((\<exists>m \<le> 2. st_upstream (state_at cs' 0) @ st_queue (state_at cs' 0) @ concat [] = map ?dat [0..<m]
      \<and> (arrived sample_events = {..<2} \<and> connects sample_events \<longrightarrow> m = 2))
    \<and> (arrived sample_events = {..<2} \<and> connects sample_events \<and> st_queue (state_at cs' 0) = [] \<and> [] = ([] :: bytes list list)
        \<longrightarrow> st_upstream (state_at cs' 0) = map ?dat [0..<2]))"
  proof (rule central_reassembles [OF sample_server_reachable _ _ sample_syn_payload _ _ start _ _ _ _ _ _ _ run(1)])
    show "always (undisturbed 9 0) 9 0 (0 + 1) ?dat sample_events (open_server, [])"
      unfolding sample_events_def always.simps undisturbed.simps simp_thms by (rule sample_syn_undisturbed)
  qed (simp_all add: sample_events_def open_server_eq central_eval)
  ultimately have "st_upstream (state_at cs' 0) = map ?dat [0..<2]" using run(2) by blast
  then show ?thesis using run(1) by (simp add: numeral_eq_Suc)
qed

text \<open>
  C10. The connection table.  However the handlers, the relays, the writers and the sweeps interleave, every connection
  of the table has a state of its own whose context is not cancelled, no write queue holds more
  than 256 chunks, chunks are only queued for an established upstream, and every tunnel a state refers to
  exists.
\<close>

theorem central_table_sound:
  assumes "central_step\<^sup>*\<^sup>* new_server cs"
  shows "(\<forall>c a. gm_get (cs_conns cs) c = Some a \<longrightarrow> a < length (cs_states cs) \<and> \<not> st_cancelled (state_at cs a)
      \<and> (\<forall>c'. gm_get (cs_conns cs) c' = Some a \<longrightarrow> c' = c))
    \<and> (\<forall>a < length (cs_states cs). length (st_queue (state_at cs a)) \<le> 256
      \<and> (st_writeCh (state_at cs a) \<longrightarrow> st_target (state_at cs a))
      \<and> (\<forall>s \<in> set (st_sources (state_at cs a)). s < length (cs_srcs cs)))"
  using central.reachable_inv [OF refl assms] by (auto simp: central_inv_def state_ok_def write_cap_def)

text \<open>
  The connections multiplexed over a tunnel do not disturb each other: dispatching a frame leaves the
  table entry and the whole state of every other connection as they are.
\<close>

theorem dispatch_isolates:
  assumes "central_step\<^sup>*\<^sup>* new_server cs" "gm_get (cs_conns cs) c = Some a" "ConnID f \<noteq> c"
  shows "gm_get (cs_conns (dispatchFrame clk f s cs)) c = Some a \<and> state_at (dispatchFrame clk f s cs) a = state_at cs a"
  using dispatch_other [OF central.reachable_inv [OF refl assms(1)] assms(2,3)] by (simp add: same_conn_def)

lemma open_server_reachable: "central_step\<^sup>*\<^sup>* new_server open_server"
proof -
  have "central_step sample_server open_server"
    unfolding open_server_def dispatchFrame_def
    by (simp add: sample_syn_def go_simps) (rule syn, simp add: central_eval)
  with sample_server_reachable show ?thesis by (rule rtranclp.rtrancl_into_rtrancl)
qed

lemma open_server_conn: "gm_get (cs_conns open_server) 9 = Some 0"
  by (simp add: open_server_eq gm_get_def)

theorem central_table_sound_witness:
  "gm_get (cs_conns open_server) 9 = Some 0 \<and> \<not> st_cancelled (state_at open_server 0)
    \<and> length (st_queue (state_at open_server 0)) \<le> 256"
proof -
  note s = central_table_sound [OF open_server_reachable]
  have "0 < length (cs_states open_server) \<and> \<not> st_cancelled (state_at open_server 0)"
    using s [THEN conjunct1, THEN spec, THEN spec, THEN mp, OF open_server_conn] by blast
  then show ?thesis using s [THEN conjunct2] open_server_conn by blast
qed

theorem dispatch_isolates_witness:
  "gm_get (cs_conns (dispatchFrame (\<lambda>_. 0) (sample_syn 4) 0 open_server)) 9 = Some 0"
  using dispatch_isolates [OF open_server_reachable open_server_conn, of "sample_syn 4"] by (simp add: sample_syn_def)

lemma sendFrame_tries:
  assumes "gm_get (cs_conns cs) c = Some a" "st = state_at cs a" "st_sources st \<noteq> []" "0 \<le> st_sourceIdx st"
    and "st_sourceIdx st + int (length (st_sources st)) < 2 ^ 63"
  shows "sendFrame out c f cs = Some (try_sources out f a (rotate (nat (st_sourceIdx st)) (st_sources st))
    (put_state a (st\<lparr>st_sourceIdx := st_sourceIdx st + 1\<rparr>) cs))"
proof -
  have "0 < length (st_sources st)" using assms(3) by simp
  then have "i64 (st_sourceIdx st + 1) = st_sourceIdx st + 1" by (intro i64_id) (use assms(4,5) in linarith)+
  then show ?thesis
    using source_order_rotate assms(1,3-5) by (simp add: sendFrame_def Let_def assms(2) [symmetric])
qed

text \<open>
  C16. The reverse direction.  \<^verbatim>\<open>sendFrame\<close> tries the tunnels of a connection in round-robin order from its index, and
  succeeds exactly when one of the attempts does.  Then the frame is, whole, on the tunnel of the first such attempt; the
  tunnels of the failed attempts before it are struck off the connection's list and no other tunnel is touched.  Nothing but the frame is written to
  its tunnel, unless the tunnel is in the list twice (as after two SYNs over it) and an earlier attempt on it failed half-way.
\<close>

theorem sendFrame_round_robin:
  assumes "central_step\<^sup>*\<^sup>* new_server cs" "gm_get (cs_conns cs) c = Some a" "payload_len f \<le> MaxPayloadSize"
    and st: "st = state_at cs a" and "st_sources st \<noteq> []" "0 \<le> st_sourceIdx st"
    and "st_sourceIdx st + int (length (st_sources st)) < 2 ^ 63"
  shows "\<exists>ok cs'. sendFrame out c f cs = Some (ok, cs') \<and> (ok \<longleftrightarrow> (\<exists>k < length (st_sources st). out k = WroteAll))
    \<and> (ok \<longrightarrow> (\<exists>pre s post torn. rotate (nat (st_sourceIdx st)) (st_sources st) = pre @ s # post
          \<and> (\<forall>k < length pre. out k \<noteq> WroteAll) \<and> out (length pre) = WroteAll
          \<and> sc_out (cs_srcs cs' ! s) = sc_out (cs_srcs cs ! s) @ torn @ encode_frame f \<and> (s \<notin> set pre \<longrightarrow> torn = [])
          \<and> (\<forall>t. t \<notin> set pre \<longrightarrow> t \<noteq> s \<longrightarrow> cs_srcs cs' ! t = cs_srcs cs ! t)
          \<and> st_sources (state_at cs' a) = fold remove1 pre (st_sources st)
          \<and> st_sourceIdx (state_at cs' a) = st_sourceIdx st + 1))"
proof -
  have inv: "central_inv cs" using central.reachable_inv assms(1) by blast
  note at = central_inv_at [OF inv assms(2)]
  define scs where "scs = rotate (nat (st_sourceIdx st)) (st_sources st)"
  define cs1 where "cs1 = put_state a (st\<lparr>st_sourceIdx := st_sourceIdx st + 1\<rparr>) cs"
  have send: "sendFrame out c f cs = Some (try_sources out f a scs cs1)"
    unfolding scs_def cs1_def by (rule sendFrame_tries [OF assms(2) st assms(5-7)])
  have set: "set scs = set (st_sources st)" "length scs = length (st_sources st)" by (simp_all add: scs_def)
  show ?thesis
  proof (cases "\<exists>k < length (st_sources st). out k = WroteAll")
    case True
    then obtain k where k: "k < length scs" "out k = WroteAll" using set(2) by auto
    define n where "n = (LEAST k. out k = WroteAll)"
    have n: "n < length scs" "out n = WroteAll"
      using k Least_le [of "\<lambda>k. out k = WroteAll" k] LeastI [of "\<lambda>k. out k = WroteAll" k] by (simp_all add: n_def)
    have first_n: "\<forall>k < n. out k \<noteq> WroteAll" using not_less_Least [of _ "\<lambda>k. out k = WroteAll"] unfolding n_def by blast
    define pre s post where "pre = take n scs" and "s = scs ! n" and "post = drop (Suc n) scs"
    have sp: "scs = pre @ s # post" "out (length pre) = WroteAll" "\<forall>k < length pre. out k \<noteq> WroteAll"
      using n first_n by (simp_all add: pre_def s_def post_def id_take_nth_drop [symmetric])
    have "s \<in> set (st_sources st)" using sp(1) set(1) by auto
    then have s: "s < length (cs_srcs cs1)" using at(3) by (simp add: state_ok_def cs1_def st)
    have a: "a < length (cs_states cs1)" using at(1) by (simp add: cs1_def)
    from try_sources_first [OF assms(3) a s sp(2,3), of post] obtain cs' torn where
      "try_sources out f a scs cs1 = (True, cs')" "sc_out (cs_srcs cs' ! s) = sc_out (cs_srcs cs1 ! s) @ torn @ encode_frame f"
      "s \<notin> set pre \<longrightarrow> torn = []" "\<forall>t. t \<notin> set pre \<longrightarrow> t \<noteq> s \<longrightarrow> cs_srcs cs' ! t = cs_srcs cs1 ! t"
      "state_at cs' a = (state_at cs1 a)\<lparr>st_sources := fold remove1 pre (st_sources (state_at cs1 a))\<rparr>"
      unfolding sp(1) [symmetric] by (elim exE conjE)
    moreover have "state_at cs1 a = st\<lparr>st_sourceIdx := st_sourceIdx st + 1\<rparr>" "cs_srcs cs1 = cs_srcs cs"
      using at(1) by (simp_all add: cs1_def)
    ultimately have send': "sendFrame out c f cs = Some (True, cs')" and
      first: "scs = pre @ s # post \<and> (\<forall>k < length pre. out k \<noteq> WroteAll) \<and> out (length pre) = WroteAll
          \<and> sc_out (cs_srcs cs' ! s) = sc_out (cs_srcs cs ! s) @ torn @ encode_frame f \<and> (s \<notin> set pre \<longrightarrow> torn = [])
          \<and> (\<forall>t. t \<notin> set pre \<longrightarrow> t \<noteq> s \<longrightarrow> cs_srcs cs' ! t = cs_srcs cs ! t)
          \<and> st_sources (state_at cs' a) = fold remove1 pre (st_sources st)
          \<and> st_sourceIdx (state_at cs' a) = st_sourceIdx st + 1"
      using send sp by simp_all
    show ?thesis
      by (rule exI [of _ True], rule exI [of _ cs'])
        (use True in \<open>simp only: send' scs_def [symmetric] simp_thms\<close>, rule exI [of _ pre], rule exI [of _ s],
          rule exI [of _ post], rule exI [of _ torn], rule first)
  next
    case False
    then have "fst (try_sources out f a scs cs1) = False" using set(2) by (intro try_sources_none) simp
    then have "sendFrame out c f cs = Some (False, snd (try_sources out f a scs cs1))"
      using send by (metis prod.collapse)
    then show ?thesis
      by (intro exI [of _ False] exI [of _ "snd (try_sources out f a scs cs1)"]) (use False in simp)
  qed
qed

theorem sendFrame_round_robin_witness:
  "\<exists>ok cs'. sendFrame (\<lambda>_. WroteAll) 9 (fin_frame 9) open_server = Some (ok, cs') \<and> ok"
proof -
  have st: "st_sources (state_at open_server 0) = [0]" "st_sourceIdx (state_at open_server 0) = 0"
    by (simp_all add: open_server_def sample_syn_def sample_syn_payload central_eval)
  show ?thesis
    using sendFrame_round_robin [OF open_server_reachable open_server_conn _ refl, of "fin_frame 9" "\<lambda>_. WroteAll"]
    by (auto simp: st fin_frame_def)
qed

text \<open>
  C13. A tunnel connection.  When the first byte is not the SOCKS version, handling a connection amounts to decoding
  the whole stream with \<^verbatim>\<open>ReadFrame\<close>, dispatching its frames in order, and then removing the tunnel from
  every connection it served; reading the first header in two parts makes no difference.
\<close>

theorem handleIncoming_dispatches:
  assumes "ReadFrames r = (f # fs, e)" "hd (rd_data r) \<noteq> 0x05" "getSourceConn conn cs = (sc, cs1)"
  shows "handleIncoming clk conn r cs =
    (Frames, cleanupSource sc (fold add_served (map ConnID (f # fs)) [])
               (removeSourceConn conn (dispatch_all clk sc (f # fs) cs1)))"
proof -
  obtain r' where r': "ReadFrame r = (Inr f, r')" "ReadFrames r' = (fs, e)"
    using assms(1) by (subst (asm) ReadFrames.simps) (auto split: prod.splits sum.splits)
  obtain b r1 hdr r2 where f: "ReadFull r 1 = (Inr [b], r1)" "ReadFull r1 (HeaderSize - 1) = (Inr hdr, r2)"
      "parseHeader (b # hdr) r2 = (Some f, r')"
    using first_frame [OF r'(1)] by (elim exE conjE)
  have "b \<noteq> 0x05" using f(1) assms(2) ReadFull_InrD by fastforce
  moreover have "fold add_served (map ConnID (f # fs)) [] = fold add_served (map ConnID fs) [ConnID f]"
    by (simp add: add_served_def)
  ultimately show ?thesis
    using f r'(2) assms(3) by (simp add: handleIncoming_def handleFrameConn_def frame_loop_ReadFrames Let_def)
qed

lemma sample_stream:
  "ReadFrames \<lparr>rd_data = concat (map encode_frame [sample_syn 9]), rd_end = EOF\<rparr> = ([sample_syn 9], IOError EOF)"
  using frames.dec_all_concat [of "[sample_syn 9]" EOF] by (simp add: sample_syn_def MaxPayloadSize_def norm_frame_def)

lemma hd_encode_frame: "hd (encode_frame f @ xs) = ucast (drop_bit 24 (ConnID f))"
  by (simp add: encode_frame_def frame_header_def PutUint32_def)

theorem handleIncoming_dispatches_witness:
  "fst (handleIncoming (\<lambda>_ _. 0) 7 \<lparr>rd_data = concat (map encode_frame [sample_syn 9]), rd_end = EOF\<rparr> new_server) = Frames"
  using handleIncoming_dispatches [OF sample_stream _ prod.collapse [symmetric], where conn = 7 and cs = new_server and clk = "\<lambda>_ _. 0"]
    hd_encode_frame [of "sample_syn 9" "[]"] by (simp add: sample_syn_def)

text \<open>
  The protocol is guessed from the first byte, which is the top byte of the first connection id.  The id generator
  can hand out an id with top byte 5; a tunnel whose first frame has such an id is taken for a SOCKS
  client: all its frames go to the upstream proxy as raw bytes and none is dispatched.
\<close>

theorem socks_lookalike_misrouted:
  "\<exists>seed c. fst (ConnIDGenerator_Next (NewConnIDGenerator (Some seed))) = c
    \<and> (\<forall>f fs e clk conn cs.
         handleIncoming clk conn \<lparr>rd_data = concat (map encode_frame (f\<lparr>ConnID := c\<rparr> # fs)), rd_end = e\<rparr> cs
           = (Passthrough (concat (map encode_frame (f\<lparr>ConnID := c\<rparr> # fs))), cs))"
proof -
  have gen: "fst (ConnIDGenerator_Next (NewConnIDGenerator (Some [5, 0, 0, 0]))) = 0x05000001"
    by (simp add: ConnIDGenerator_Next_def NewConnIDGenerator_def Uint32_def)
  have "handleIncoming clk conn \<lparr>rd_data = concat (map encode_frame (f\<lparr>ConnID := 0x05000001\<rparr> # fs)), rd_end = e\<rparr> cs
      = (Passthrough (concat (map encode_frame (f\<lparr>ConnID := 0x05000001\<rparr> # fs))), cs)" for f fs e clk conn cs
  proof -
    obtain xs where "concat (map encode_frame (f\<lparr>ConnID := 0x05000001\<rparr> # fs)) = 5 # xs"
      by (simp add: encode_frame_def frame_header_def PutUint32_def)
    then show ?thesis by (simp add: handleIncoming_def ReadFull_def)
  qed
  with gen show ?thesis by blast
qed

text \<open>
  C23. The periodic sweep removes exactly the stale connections: one that waits more than sixty seconds for its upstream, has had
  no tunnel since thirty seconds after its creation, or has been idle for more than sixty seconds is
  removed, its context cancelled and its upstream closed; every other connection is left as it is.
\<close>

theorem cleanup_tick_exact:
  assumes "central_step\<^sup>*\<^sup>* new_server cs" "gm_get (cs_conns cs) c = Some a"
  shows "if stale_conn now (state_at cs a)
    then gm_get (cs_conns (cleanup_tick now cs)) c = None
      \<and> state_at (cleanup_tick now cs) a = close_target (cancel_state (state_at cs a))
    else gm_get (cs_conns (cleanup_tick now cs)) c = Some a \<and> state_at (cleanup_tick now cs) a = state_at cs a"
proof -
  have inv: "central_inv cs" using central.reachable_inv assms(1) by blast
  have "(c, a) \<in> set (cs_conns cs)" using assms(2) by (simp add: gm_get_def map_of_SomeD)
  from sweep_entry [OF this central_conns_distinct [OF inv] central_inv_at(1) [OF inv assms(2)] assms(2)]
  show ?thesis unfolding cleanup_tick_sweep .
qed

theorem cleanup_tick_exact_witness:
  "gm_get (cs_conns (cleanup_tick (61 * second) open_server)) 9 = None"
proof -
  have "stale_conn (61 * second) (state_at open_server 0)"
    by (simp add: stale_conn_def open_server_def sample_syn_def sample_syn_payload central_eval time_sub_def)
  with cleanup_tick_exact [OF open_server_reachable open_server_conn, of "61 * second"] show ?thesis by simp
qed

text \<open>
  The end of a stream is not ordered with its data.  \<^verbatim>\<open>handleFIN\<close> does not look at the sequence number of the
  FIN: from then on every data frame of the connection is dropped, also those numbered before
  the FIN that are still on their way through another tunnel.
\<close>

theorem data_behind_FIN_dropped:
  "handleFIN clk (f\<lparr>SeqNum := q\<rparr>) cs = handleFIN clk f cs
   \<and> handleData clk' (g\<lparr>ConnID := ConnID f\<rparr>) s (handleFIN clk f cs) = (True, handleFIN clk f cs)"
proof -
  have "gm_get (cs_conns (handleFIN clk f cs)) (ConnID f) = None"
    by (auto simp: handleFIN_def removeConn_def enqueue_def Let_def split: option.split prod.split)
  moreover have "handleFIN clk (f\<lparr>SeqNum := q\<rparr>) cs = handleFIN clk f cs"
    by (cases "gm_get (cs_conns cs) (ConnID f)") (simp_all add: handleFIN_def Let_def)
  ultimately show ?thesis by (simp add: handleData_def handleData_collect_def)
qed

definition live_server :: centralServer where
  "live_server = snd (upstream_ready (\<lambda>_. 0) 0 open_server)"

lemmas live_eval = live_server_def open_server_eq central_eval

text \<open>
  Concurrent tunnels can swap bytes.  \<^verbatim>\<open>handleData\<close> collects the ready chunks under the lock of the connection but
  queues them after releasing it; when two tunnels deliver consecutive frames and the second handler
  overtakes the first between the two parts, the upstream receives the chunks in the wrong order.
\<close>

theorem handleData_race_swaps_chunks:
  "\<exists>cs1 cs2. handleData_collect clk (stream_frame 9 1 dat 0) 0 live_server = (Some (0, [dat 0]), cs1)
    \<and> handleData_collect clk' (stream_frame 9 1 dat 1) 0 cs1 = (Some (0, [dat 1]), cs2)
    \<and> st_queue (state_at (snd (enqueue 0 [dat 0] (snd (enqueue 0 [dat 1] cs2)))) 0) = [dat 1, dat 0]"
  by (simp add: live_eval)

text \<open>
  Data that overtakes the SYN is lost.  A frame of a connection the server does not know yet is dropped without a
  trace; since the SYN and the data may travel on different tunnels, the stream then starts with a gap that the
  reorderer skips after its grace period: the upstream receives the later chunks only.
\<close>

theorem early_data_lost:
  assumes "gm_get (cs_conns cs) (ConnID f) = None"
  shows "handleData clk f s cs = (True, cs)
    \<and> st_queue (state_at (snd (handleData (\<lambda>_. 3 * second) (stream_frame 9 1 dat 2) 0
         (snd (handleData (\<lambda>_. 0) (stream_frame 9 1 dat 1) 0 live_server)))) 0) = [dat 1, dat 2]"
proof -
  have "handleData clk f s cs = (True, cs)"
    using assms by (simp add: handleData_def handleData_collect_def)
  moreover have "st_queue (state_at (snd (handleData (\<lambda>_. 3 * second) (stream_frame 9 1 dat 2) 0
      (snd (handleData (\<lambda>_. 0) (stream_frame 9 1 dat 1) 0 live_server)))) 0) = [dat 1, dat 2]"
    by (simp add: live_eval time_sub_def skipToLowest_def gm_keys_def lower_seq_def)
  ultimately show ?thesis by simp
qed

theorem early_data_lost_witness:
  "handleData (\<lambda>_. 0) (stream_frame 9 1 (\<lambda>_. [1]) 0) 0 new_server = (True, new_server)"
  using early_data_lost [of new_server "stream_frame 9 1 (\<lambda>_. [1]) 0" "\<lambda>_. 0" 0] by (simp add: new_server_def)

end
