(* ===== verification/CentralMain.thy ===== *)
theory CentralMain
  imports Central
begin

text \<open>
  \<^verbatim>\<open>cmd/centralserver/main.go\<close>: flags, the listener, the accept loop and the signal handler.  The goroutines it starts are the steps of
  \<open>central_step\<close>; a handler can only be at work on a connection that the loop has accepted.
\<close>

datatype central_phase = Serving | ShutDown | Exited

record central_prog =
  cm_listenAddr :: string
  cm_socksAddr :: string
  cm_server :: centralServer
  cm_accepted :: "nat list"
  cm_phase :: central_phase

text \<open>The flags with their defaults; \<open>None\<close> when the address cannot be listened on, which is fatal.\<close>

definition central_main :: "string option \<Rightarrow> string option \<Rightarrow> bool \<Rightarrow> central_prog option" where
  "central_main listen socksUpstream listening =
     (if \<not> listening then None
      else Some \<lparr>cm_listenAddr = (case listen of None \<Rightarrow> ''0.0.0.0:9500'' | Some a \<Rightarrow> a),
                 cm_socksAddr = (case socksUpstream of None \<Rightarrow> ''127.0.0.1:1080'' | Some a \<Rightarrow> a),
                 cm_server = new_server, cm_accepted = [], cm_phase = Serving\<rparr>)"

inductive main_step :: "central_prog \<Rightarrow> central_prog \<Rightarrow> bool" where
  accept_error: "cm_phase p \<noteq> Exited \<Longrightarrow> main_step p p"
| accepted: "cm_phase p \<noteq> Exited \<Longrightarrow> conn \<notin> set (cm_accepted p) \<Longrightarrow> main_step p (p\<lparr>cm_accepted := conn # cm_accepted p\<rparr>)"
| serve: "cm_phase p \<noteq> Exited \<Longrightarrow> conn \<in> set (cm_accepted p) \<Longrightarrow>
    handleIncoming clk conn r (cm_server p) = (route, cs) \<Longrightarrow> main_step p (p\<lparr>cm_server := cs\<rparr>)"
| work: "cm_phase p \<noteq> Exited \<Longrightarrow> cm_accepted p \<noteq> [] \<Longrightarrow> central_step (cm_server p) cs \<Longrightarrow> main_step p (p\<lparr>cm_server := cs\<rparr>)"
| sweep: "cm_phase p \<noteq> Exited \<Longrightarrow> main_step p (p\<lparr>cm_server := cleanup_tick now (cm_server p)\<rparr>)"
| signal: "cm_phase p = Serving \<Longrightarrow> main_step p (p\<lparr>cm_server := closeAll (cm_server p), cm_phase := ShutDown\<rparr>)"
| exits: "cm_phase p = ShutDown \<Longrightarrow> main_step p (p\<lparr>cm_phase := Exited\<rparr>)"

subsection \<open>A handler is a run of steps\<close>

lemma dispatchFrame_steps:
  assumes "central_inv cs" "s < length (cs_srcs cs)"
  shows "central_step\<^sup>*\<^sup>* cs (dispatchFrame clk f s cs)"
proof -
  have "central_step\<^sup>*\<^sup>* cs (snd (handleData clk f s cs))"
  proof -
    obtain o1 cs1 where c: "handleData_collect clk f s cs = (o1, cs1)" by fastforce
    have step: "central_step cs cs1" using central_step.collect [OF assms(2), of clk f] c by simp
    show ?thesis
    proof (cases o1)
      case None
      with c step show ?thesis by (simp add: handleData_def)
    next
      case (Some x)
      obtain a chunks where x: "x = (a, chunks)" by fastforce
      have "a < length (cs_states cs1)"
        using c Some x assms(1)
        by (auto simp: handleData_collect_def Let_def put_state_def central_inv_def split: option.splits if_splits prod.splits)
      from central_step.queue [OF this, of chunks] step c Some x show ?thesis by (simp add: handleData_def)
    qed
  qed
  with assms(2) show ?thesis
    by (auto simp: dispatchFrame_def intro: central_step.syn central_step.fin central_step.rst)
qed

lemma frame_loop_steps:
  "central_inv cs \<Longrightarrow> s < length (cs_srcs cs) \<Longrightarrow> central_step\<^sup>*\<^sup>* cs (snd (frame_loop clk s r served cs))"
proof (induction clk s r served cs rule: frame_loop.induct)
  case (1 clk s r served cs)
  obtain x r' where x: "ReadFrame r = (x, r')" by fastforce
  show ?case
  proof (cases x)
    case (Inl e)
    with x show ?thesis by (simp add: frame_loop.simps [of clk s r])
  next
    case (Inr f)
    have "central_step\<^sup>*\<^sup>* (dispatchFrame (clk 0) f s cs)
        (snd (frame_loop (\<lambda>k. clk (Suc k)) s r' (add_served (ConnID f) served) (dispatchFrame (clk 0) f s cs)))"
      using "1.IH" [OF x [symmetric] Inr] "1.prems" central_inv_dispatch by simp
    with dispatchFrame_steps [OF "1.prems", of "clk 0" f] x Inr show ?thesis by (simp add: frame_loop.simps [of clk s r])
  qed
qed

lemma getSourceConn_valid:
  "central_inv cs \<Longrightarrow> getSourceConn conn cs = (s, cs1) \<Longrightarrow> s < length (cs_srcs cs1)"
  by (auto simp: getSourceConn_def central_inv_def split: option.splits)

lemma handleFrameConn_steps:
  assumes "central_inv cs"
  shows "central_step\<^sup>*\<^sup>* cs (handleFrameConn clk conn b r cs)"
proof -
  obtain s cs1 where sc: "getSourceConn conn cs = (s, cs1)" by fastforce
  have a: "central_step cs cs1" by (rule central_step.accept [OF sc])
  have inv: "central_inv cs1" "s < length (cs_srcs cs1)"
    using central.inv_step [OF assms a] getSourceConn_valid [OF assms sc] by simp_all
  have fin: "central_step\<^sup>*\<^sup>* cs (cleanupSource s ids (removeSourceConn conn cs2))" if "central_step\<^sup>*\<^sup>* cs1 cs2" for ids cs2
    using a that central_step.gone [of cs2 s ids conn] by simp
  have run: "central_step\<^sup>*\<^sup>* cs1 (snd (frame_loop k s r2 served (dispatchFrame (clk 0) f s cs1)))" for k r2 served f
    using dispatchFrame_steps [OF inv, of "clk 0" f] frame_loop_steps [of "dispatchFrame (clk 0) f s cs1" s k r2 served] inv
      central_inv_dispatch [OF inv, of "clk 0" f] by simp
  have "central_step\<^sup>*\<^sup>* cs1 (snd (frame_loop k s r2 [] cs1))" for k r2 by (rule frame_loop_steps [OF inv])
  with run show ?thesis
    by (auto simp: handleFrameConn_def sc Let_def split_def split: sum.split option.split intro!: fin)
qed

lemma handleIncoming_steps:
  "central_inv cs \<Longrightarrow> handleIncoming clk conn r cs = (route, cs') \<Longrightarrow> central_step\<^sup>*\<^sup>* cs cs'"
  using handleFrameConn_steps [of cs clk conn] by (auto simp: handleIncoming_def split: sum.splits prod.splits if_splits)

subsection \<open>The server of the running program\<close>

definition main_inv :: "central_prog \<Rightarrow> bool" where
  "main_inv p \<longleftrightarrow> central_step\<^sup>*\<^sup>* new_server (cm_server p) \<and> central_inv (cm_server p)"

lemma main_inv_step:
  assumes "main_inv p" "main_step p q"
  shows "main_inv q"
proof -
  have "central_step\<^sup>*\<^sup>* (cm_server p) (cm_server q)"
    using assms(2)
  proof (cases rule: main_step.cases)
    case (serve conn clk r route cs)
    with handleIncoming_steps assms(1) show ?thesis by (simp add: main_inv_def)
  qed (auto intro: central_step.tick central_step.closed)
  with assms(1) central.inv_steps show ?thesis by (auto simp: main_inv_def)
qed

interpretation main: invariant_system "\<lambda>p. \<exists>l u. central_main l u True = Some p" main_step main_inv
proof unfold_locales
  fix p assume "\<exists>l u. central_main l u True = Some p"
  then show "main_inv p" by (auto simp: central_main_def main_inv_def central_inv_new)
qed (rule main_inv_step)

lemma closeAll_conns: "cs_conns (fold (\<lambda>(c, a) s. drop_conn c a s) m cs) = fold (\<lambda>(c, a). gm_del c) m (cs_conns cs)"
  by (induction m arbitrary: cs) (auto simp: drop_conn_def put_state_def)

lemma fold_del_get: "gm_get (fold (\<lambda>(c, a). gm_del c) m n) k = (if k \<in> fst ` set m then None else gm_get n k)"
  by (induction m arbitrary: n) auto

lemma closeAll_empty: "gm_get (cs_conns (closeAll cs)) c = None"
proof (cases "gm_get (cs_conns cs) c")
  case (Some a)
  from gm_get_entry [OF this] have "c \<in> fst ` set (cs_conns cs)" by force
  then show ?thesis by (simp add: closeAll_def closeAll_conns fold_del_get)
qed (simp add: closeAll_def closeAll_conns fold_del_get)

text \<open>
  The central server as a program: with the flags' defaults it listens and serves with an empty table, whatever connections it
  accepts and however their handlers, the sweep and the signal handler interleave, its table is one that the step relation of the server
  reaches, so that everything shown about those holds of it; and the signal handler leaves no connection in the table.
\<close>

theorem central_main_sound:
  assumes "central_main l u True = Some p" "main_step\<^sup>*\<^sup>* p q"
  shows "central_step\<^sup>*\<^sup>* new_server (cm_server q) \<and> central_inv (cm_server q)
    \<and> (\<forall>c. gm_get (cs_conns (closeAll (cm_server q))) c = None)"
  using main.reachable_inv [of p q] assms closeAll_empty by (auto simp: main_inv_def)

definition sample_central :: central_prog where
  "sample_central = \<lparr>cm_listenAddr = ''0.0.0.0:9500'', cm_socksAddr = ''127.0.0.1:1080'', cm_server = new_server,
     cm_accepted = [], cm_phase = Serving\<rparr>"

theorem central_main_sound_witness:
  "central_inv (cm_server (sample_central\<lparr>cm_accepted := [7]\<rparr>))"
proof -
  have "central_main None None True = Some sample_central" by (simp add: central_main_def sample_central_def)
  moreover have "main_step\<^sup>*\<^sup>* sample_central (sample_central\<lparr>cm_accepted := [7]\<rparr>)"
    using main_step.accepted [of sample_central 7] by (simp add: sample_central_def r_into_rtranclp)
  ultimately show ?thesis using central_main_sound by blast
qed

end
