(* ===== verification/Socks.thy ===== *)
theory Socks
  imports Users Protocol
begin

text \<open>
  The SOCKS5 side of \<^verbatim>\<open>internal/proxy\<close>: what the handlers of \<^verbatim>\<open>socks5.go\<close> and \<^verbatim>\<open>ssh.go\<close> read from a client and answer
  before they connect it.  The client is the reader of what it sends; the answers are the list of
  buffers that are written (the code does not look at the outcome of these writes).  The user table
  is the state; \<open>now\<close> is the clock at the admission check.
\<close>

subsection \<open>Answers\<close>

definition socks_reply :: "byte \<Rightarrow> bytes" where
  "socks_reply code = [0x05, code, 0x00, 0x01, 0, 0, 0, 0, 0, 0]"

definition put_user :: "string \<Rightarrow> User \<Rightarrow> UserManager \<Rightarrow> UserManager" where
  "put_user name u m = m\<lparr>um_users := gm_put name u (um_users m)\<rparr>"

definition requireAuth :: "UserManager option \<Rightarrow> bool" where
  "requireAuth um \<longleftrightarrow> (case um of None \<Rightarrow> False | Some m \<Rightarrow> HasUsers m)"

subsection \<open>Negotiation\<close>

text \<open>The user name and password of RFC 1929.\<close>

definition read_userpass :: "reader \<Rightarrow> (string \<times> string) option \<times> reader" where
  "read_userpass r =
     (case ReadFull r 2 of
        (Inl e, r1) \<Rightarrow> (None, r1)
      | (Inr b, r1) \<Rightarrow>
     (case ReadFull r1 (unat (b ! 1)) of
        (Inl e, r2) \<Rightarrow> (None, r2)
      | (Inr username, r2) \<Rightarrow>
     (case ReadFull r2 1 of
        (Inl e, r3) \<Rightarrow> (None, r3)
      | (Inr p, r3) \<Rightarrow>
     (case ReadFull r3 (unat (p ! 0)) of
        (Inl e, r4) \<Rightarrow> (None, r4)
      | (Inr password, r4) \<Rightarrow> (Some (go_string username, go_string password), r4)))))"

text \<open>
  Greeting, authentication and admission.  The first component is \<open>None\<close> when the handler returns, otherwise the user
  (\<open>None\<close> without authentication), who is then marked as connected.
\<close>

definition negotiate ::
  "time \<Rightarrow> string \<Rightarrow> reader \<Rightarrow> UserManager option
    \<Rightarrow> string option option \<times> bytes list \<times> reader \<times> UserManager option" where
  "negotiate now clientIP r um =
     (case ReadFull r 2 of
        (Inl e, r1) \<Rightarrow> (None, [], r1, um)
      | (Inr b, r1) \<Rightarrow>
     if b ! 0 \<noteq> 0x05 then (None, [], r1, um)
     else case ReadFull r1 (unat (b ! 1)) of
        (Inl e, r2) \<Rightarrow> (None, [], r2, um)
      | (Inr methods, r2) \<Rightarrow>
     (case um of
        None \<Rightarrow> (Some None, [[0x05, 0x00]], r2, um)
      | Some m \<Rightarrow>
     if \<not> HasUsers m then (Some None, [[0x05, 0x00]], r2, um)
     else if 0x02 \<notin> set methods then (None, [[0x05, 0xFF]], r2, um)
     else case read_userpass r2 of
        (None, r3) \<Rightarrow> (None, [[0x05, 0x02]], r3, um)
      | (Some (username, password), r3) \<Rightarrow>
     (case Authenticate username password m of
        None \<Rightarrow> (None, [[0x05, 0x02], [0x01, 0x01]], r3, um)
      | Some u \<Rightarrow>
     (case CheckConnect now clientIP u of
        (Some reason, u1) \<Rightarrow>
          (None, [[0x05, 0x02], [0x01, 0x00], socks_reply 0x02], snd (ReadFull r3 4), Some (put_user username u1 m))
      | (None, u1) \<Rightarrow>
          (Some (Some username), [[0x05, 0x02], [0x01, 0x00]], r3,
           Some (put_user username (MarkConnect clientIP u1) m))))))"

subsection \<open>The request\<close>

text \<open>The address, raw, of the given type; \<open>None\<close> for an unknown type.\<close>

definition read_addr :: "byte \<Rightarrow> reader \<Rightarrow> (io_error + bytes) option \<times> reader" where
  "read_addr atyp r =
     (if atyp = 0x01 then (case ReadFull r 4 of (a, r1) \<Rightarrow> (Some a, r1))
      else if atyp = 0x03 then
        (case ReadFull r 1 of
           (Inl e, r1) \<Rightarrow> (Some (Inl e), r1)
         | (Inr b, r1) \<Rightarrow>
             (case ReadFull r1 (unat (b ! 0)) of
                (Inl e, r2) \<Rightarrow> (Some (Inl e), r2)
              | (Inr d, r2) \<Rightarrow> (Some (Inr (b @ d)), r2)))
      else if atyp = 0x04 then (case ReadFull r 16 of (a, r1) \<Rightarrow> (Some a, r1))
      else (None, r))"

type_synonym target = "byte \<times> bytes \<times> bytes"

definition read_request :: "reader \<Rightarrow> target option \<times> bytes list \<times> reader" where
  "read_request r =
     (case ReadFull r 4 of
        (Inl e, r1) \<Rightarrow> (None, [], r1)
      | (Inr b, r1) \<Rightarrow>
     if b ! 1 \<noteq> 0x01 then (None, [socks_reply 0x07], r1)
     else case read_addr (b ! 3) r1 of
        (None, r2) \<Rightarrow> (None, [socks_reply 0x08], r2)
      | (Some (Inl e), r2) \<Rightarrow> (None, [], r2)
      | (Some (Inr addr), r2) \<Rightarrow>
     (case ReadFull r2 2 of
        (Inl e, r3) \<Rightarrow> (None, [], r3)
      | (Inr port, r3) \<Rightarrow> (Some (b ! 3, addr, port), [], r3)))"

subsection \<open>What a client sends\<close>

text \<open>The messages of RFC 1928 and RFC 1929, from the client.\<close>

definition greeting :: "bytes \<Rightarrow> bytes" where
  "greeting methods = [0x05, word_of_nat (length methods)] @ methods"

definition userpass :: "byte \<Rightarrow> bytes \<Rightarrow> bytes \<Rightarrow> bytes" where
  "userpass ver name pw = [ver, word_of_nat (length name)] @ name @ [word_of_nat (length pw)] @ pw"

definition connect_message :: "byte \<Rightarrow> byte \<Rightarrow> byte \<Rightarrow> bytes \<Rightarrow> bytes \<Rightarrow> bytes" where
  "connect_message ver rsv atyp addr port = [ver, 0x01, rsv, atyp] @ addr @ port"

lemma ReadFull_Inr_iff:
  "ReadFull r n = (Inr xs, r') \<longleftrightarrow> rd_data r = xs @ rd_data r' \<and> length xs = n \<and> rd_end r' = rd_end r"
  by (cases r; cases r') (auto simp: ReadFull_def append_eq_conv_conj)

lemma byte_length: "n < 256 \<Longrightarrow> unat (word_of_nat n :: byte) = n"
  by (simp add: unat_of_nat)

lemma byte_bound: "unat (b :: byte) < 256"
  using unsigned_less [of b] by simp

lemma word_of_nat_unat_length: "length xs = unat (b :: byte) \<Longrightarrow> word_of_nat (length xs) = b \<and> length xs < 256"
  using byte_bound [of b] by simp

lemma read_userpass_iff:
  "read_userpass r = (Some (username, password), r') \<longleftrightarrow>
     (\<exists>ver name pw. rd_data r = userpass ver name pw @ rd_data r' \<and> length name < 256 \<and> length pw < 256
        \<and> username = go_string name \<and> password = go_string pw \<and> rd_end r' = rd_end r)"
    (is "?l \<longleftrightarrow> ?r")
proof
  assume ?l
  then obtain b r1 name r2 p r3 pw where "ReadFull r 2 = (Inr b, r1)" "ReadFull r1 (unat (b ! 1)) = (Inr name, r2)"
      "ReadFull r2 1 = (Inr p, r3)" "ReadFull r3 (unat (p ! 0)) = (Inr pw, r')"
      "username = go_string name" "password = go_string pw"
    by (auto simp: read_userpass_def split: prod.splits sum.splits)
  note rd = this
  then obtain v l k where "b = [v, l]" "p = [k]"
    by (auto simp: ReadFull_Inr_iff length_Suc_conv numeral_2_eq_2)
  with rd have "rd_data r = userpass v name pw @ rd_data r'" "length name < 256" "length pw < 256" "rd_end r' = rd_end r"
    by (auto simp: ReadFull_Inr_iff userpass_def word_of_nat_unat_length byte_bound)
  with rd(5,6) show ?r by blast
next
  assume ?r
  then obtain ver name pw where r: "rd_data r = userpass ver name pw @ rd_data r'" "length name < 256" "length pw < 256"
    "username = go_string name" "password = go_string pw" "rd_end r' = rd_end r" by (elim exE conjE)
  then have "r = \<lparr>rd_data = userpass ver name pw @ rd_data r', rd_end = rd_end r'\<rparr>" by (cases r) simp
  with r show ?l by (cases r') (simp add: read_userpass_def userpass_def ReadFull_def byte_length)
qed

text \<open>The request is accepted exactly when it is a CONNECT to a well-formed address.\<close>

lemma read_addr_iff:
  "read_addr atyp r = (Some (Inr addr), r') \<longleftrightarrow>
     rd_data r = addr @ rd_data r' \<and> valid_addr atyp addr \<and> rd_end r' = rd_end r"
proof (cases "atyp = 0x03")
  case True
  have "read_addr 0x03 r = (Some (Inr addr), r') \<longleftrightarrow>
      (\<exists>b r1 d. ReadFull r 1 = (Inr b, r1) \<and> ReadFull r1 (unat (b ! 0)) = (Inr d, r') \<and> addr = b @ d)"
    by (auto simp: read_addr_def split: prod.splits sum.splits)
  also have "\<dots> \<longleftrightarrow> (\<exists>l d. rd_data r = (l # d) @ rd_data r' \<and> length d = unat l \<and> addr = l # d \<and> rd_end r' = rd_end r)"
    (is "?a \<longleftrightarrow> ?b")
  proof
    assume ?a
    then show ?b by (auto simp: ReadFull_Inr_iff length_Suc_conv)
  next
    assume ?b
    then obtain l d where d: "rd_data r = (l # d) @ rd_data r'" "length d = unat l" "addr = l # d" "rd_end r' = rd_end r"
      by (elim exE conjE)
    then have "ReadFull r 1 = (Inr [l], \<lparr>rd_data = d @ rd_data r', rd_end = rd_end r\<rparr>)"
        "ReadFull \<lparr>rd_data = d @ rd_data r', rd_end = rd_end r\<rparr> (unat ([l] ! 0)) = (Inr d, r')"
      by (simp_all add: ReadFull_Inr_iff)
    moreover have "addr = [l] @ d" using d(3) by simp
    ultimately show ?a by blast
  qed
  finally show ?thesis using True by (cases addr) (auto simp: valid_addr_def)
next
  case False
  have "(case ReadFull r n of (a, r1) \<Rightarrow> (Some a, r1)) = (Some (Inr addr), r') \<longleftrightarrow> ReadFull r n = (Inr addr, r')" for n
    by (simp split: prod.split)
  with False show ?thesis by (auto simp: read_addr_def valid_addr_def ReadFull_Inr_iff)
qed

lemma read_request_iff:
  "read_request r = (Some (atyp, addr, port), out, r') \<longleftrightarrow>
     (\<exists>ver rsv. rd_data r = connect_message ver rsv atyp addr port @ rd_data r') \<and> valid_addr atyp addr
       \<and> length port = 2 \<and> out = [] \<and> rd_end r' = rd_end r" (is "?l \<longleftrightarrow> ?r")
proof
  assume ?l
  then obtain b r1 r2 where rd: "ReadFull r 4 = (Inr b, r1)" "b ! 1 = 0x01" "read_addr (b ! 3) r1 = (Some (Inr addr), r2)"
      "ReadFull r2 2 = (Inr port, r')" "atyp = b ! 3" "out = []"
    by (auto simp: read_request_def split: prod.splits sum.splits option.splits if_splits)
  then obtain v c s a where "b = [v, c, s, a]" by (auto simp: ReadFull_Inr_iff length_Suc_conv numeral_eq_Suc)
  with rd show ?r by (auto simp: ReadFull_Inr_iff read_addr_iff connect_message_def)
next
  assume ?r
  then obtain ver rsv where r: "rd_data r = connect_message ver rsv atyp addr port @ rd_data r'" "valid_addr atyp addr"
      "length port = 2" "out = []" "rd_end r' = rd_end r" by (elim exE conjE)
  let ?r1 = "\<lparr>rd_data = addr @ port @ rd_data r', rd_end = rd_end r\<rparr>"
  let ?r2 = "\<lparr>rd_data = port @ rd_data r', rd_end = rd_end r\<rparr>"
  have "ReadFull r 4 = (Inr [ver, 0x01, rsv, atyp], ?r1)" using r by (simp add: ReadFull_Inr_iff connect_message_def)
  moreover have "read_addr atyp ?r1 = (Some (Inr addr), ?r2)" using r by (simp add: read_addr_iff)
  moreover have "ReadFull ?r2 2 = (Inr port, r')" using r by (simp add: ReadFull_Inr_iff)
  ultimately show ?l using r(4) by (simp add: read_request_def)
qed

text \<open>Who gets past the negotiation, and what that leaves behind.\<close>

definition greeted :: "bytes \<Rightarrow> reader \<Rightarrow> reader \<Rightarrow> bool" where
  "greeted methods r r' \<longleftrightarrow> rd_data r = greeting methods @ rd_data r' \<and> length methods < 256 \<and> rd_end r' = rd_end r"

lemma greeted_iff:
  "(\<exists>b r1. ReadFull r 2 = (Inr b, r1) \<and> b ! 0 = 0x05 \<and> ReadFull r1 (unat (b ! 1)) = (Inr methods, r2))
     \<longleftrightarrow> greeted methods r r2" (is "?l \<longleftrightarrow> ?r")
proof
  assume ?l
  then show ?r
    by (auto simp: greeted_def greeting_def ReadFull_Inr_iff length_Suc_conv numeral_2_eq_2 word_of_nat_unat_length byte_bound)
next
  assume r: ?r
  let ?b = "[0x05, word_of_nat (length methods)] :: bytes" and ?r1 = "\<lparr>rd_data = methods @ rd_data r2, rd_end = rd_end r\<rparr>"
  have "ReadFull r 2 = (Inr ?b, ?r1)" "ReadFull ?r1 (unat (?b ! 1)) = (Inr methods, r2)"
    using r by (simp_all add: greeted_def greeting_def ReadFull_Inr_iff byte_length)
  then show ?l by (intro exI [of _ ?b] exI [of _ ?r1]) simp
qed

lemma negotiate_open:
  assumes "\<not> requireAuth um"
  shows "negotiate now ip r um = (Some user, out, r', um') \<longleftrightarrow>
    (\<exists>methods. greeted methods r r') \<and> user = None \<and> out = [[0x05, 0x00]] \<and> um' = um"
proof -
  have "negotiate now ip r um = (Some user, out, r', um') \<longleftrightarrow>
      (\<exists>methods b r1. ReadFull r 2 = (Inr b, r1) \<and> b ! 0 = 0x05 \<and> ReadFull r1 (unat (b ! 1)) = (Inr methods, r'))
      \<and> user = None \<and> out = [[0x05, 0x00]] \<and> um' = um"
    using assms by (auto simp: negotiate_def requireAuth_def split: prod.splits sum.splits option.splits if_splits)
  then show ?thesis by (simp only: greeted_iff)
qed

lemma negotiate_auth:
  assumes "HasUsers m"
  shows "negotiate now ip r (Some m) = (Some user, out, r', um') \<longleftrightarrow>
    (\<exists>methods r2 username password u u1. greeted methods r r2 \<and> 0x02 \<in> set methods
      \<and> read_userpass r2 = (Some (username, password), r') \<and> Authenticate username password m = Some u
      \<and> CheckConnect now ip u = (None, u1) \<and> user = Some username \<and> out = [[0x05, 0x02], [0x01, 0x00]]
      \<and> um' = Some (put_user username (MarkConnect ip u1) m))" (is "?l \<longleftrightarrow> ?r")
proof -
  have "?l \<longleftrightarrow> (\<exists>methods r2 username password u u1.
      (\<exists>b r1. ReadFull r 2 = (Inr b, r1) \<and> b ! 0 = 0x05 \<and> ReadFull r1 (unat (b ! 1)) = (Inr methods, r2)) \<and> 0x02 \<in> set methods
      \<and> read_userpass r2 = (Some (username, password), r') \<and> Authenticate username password m = Some u
      \<and> CheckConnect now ip u = (None, u1) \<and> user = Some username \<and> out = [[0x05, 0x02], [0x01, 0x00]]
      \<and> um' = Some (put_user username (MarkConnect ip u1) m))"
    using assms by (auto simp: negotiate_def split: prod.splits sum.splits option.splits if_splits)
  then show ?thesis by (simp only: greeted_iff)
qed

end
