(* ===== verification/Proxy.thy ===== *)
theory Proxy
  imports Socks Splitter Balancer
begin

text \<open>
  \<^verbatim>\<open>internal/proxy\<close>: the SOCKS5 proxy (\<^verbatim>\<open>socks5.go\<close>), its two ways to connect a client and the relay
  (\<^verbatim>\<open>relay.go\<close>, \<^verbatim>\<open>idle.go\<close>).  The handler of a connection is cut at the start of the relay: \<open>conn_open\<close> runs from the
  greeting to the answer that reports success, or to the end when the connection is refused, and
  \<open>level_done\<close> and \<open>split_done\<close> run the relay and the deferred calls, so that connections interleave.  What a peer
  sends, the outcome of each dial and write, and the clock are arguments; an idle timeout is an error of the read or
  write it ends.
\<close>

subsection \<open>The server\<close>

text \<open>The fields of the packet-split mode are set together, by \<^verbatim>\<open>EnablePacketSplit\<close>.\<close>

record split_mode =
  sm_tunnelPool :: TunnelPool
  sm_connIDGen :: ConnIDGenerator
  sm_chunkSize :: int

record Server =
  sv_listenAddr :: string
  sv_bufferSize :: int
  sv_maxConnections :: int
  sv_manager :: Manager
  sv_balancer :: Balancer
  sv_userMgr :: "UserManager option"
  sv_activeConns :: int
  sv_connID :: u64
  sv_split :: "split_mode option"

definition NewServer ::
  "string \<Rightarrow> int \<Rightarrow> int \<Rightarrow> Manager \<Rightarrow> Balancer \<Rightarrow> UserManager option \<Rightarrow> Server" where
  "NewServer addr bsize maxConns mgr bal umgr =
     \<lparr>sv_listenAddr = addr, sv_bufferSize = bsize, sv_maxConnections = maxConns, sv_manager = mgr,
      sv_balancer = bal, sv_userMgr = umgr, sv_activeConns = 0, sv_connID = 0, sv_split = None\<rparr>"

definition EnablePacketSplit :: "bytes option \<Rightarrow> TunnelPool \<Rightarrow> int \<Rightarrow> Server \<Rightarrow> Server" where
  "EnablePacketSplit rnd pool chunkSize s =
     s\<lparr>sv_split := Some \<lparr>sm_tunnelPool = pool, sm_connIDGen = NewConnIDGenerator rnd, sm_chunkSize = chunkSize\<rparr>\<rparr>"

definition ActiveConnections :: "Server \<Rightarrow> int" where
  "ActiveConnections s = sv_activeConns s"

text \<open>One round of the accept loop: \<open>None\<close> when the connection is closed at once, otherwise its number.\<close>

definition accept_conn :: "Server \<Rightarrow> u64 option \<times> Server" where
  "accept_conn s =
     (if sv_activeConns s \<ge> sv_maxConnections s then (None, s)
      else let s1 = s\<lparr>sv_activeConns := i64 (sv_activeConns s + 1), sv_connID := sv_connID s + 1\<rparr>
           in (Some (sv_connID s1), s1))"

subsection \<open>Connecting a client\<close>

text \<open>A relaying connection: its user and address, the instance that counts it, and the splitter in packet-split mode.\<close>

record session =
  se_user :: "string option"
  se_ip :: string
  se_inst :: nat
  se_split :: "PacketSplitter option"

datatype opened = Refused | Opened session | Crashed

definition upd_inst :: "nat \<Rightarrow> (Instance \<Rightarrow> Instance) \<Rightarrow> Manager \<Rightarrow> Manager" where
  "upd_inst i f m = m\<lparr>mgr_instances := map (\<lambda>inst. if inst_id inst = i then f inst else inst) (mgr_instances m)\<rparr>"

definition socksHealthy :: "Manager \<Rightarrow> Instance list" where
  "socksHealthy m = filter (\<lambda>inst. ei_Mode (inst_Config inst) \<noteq> ''ssh'') (HealthyInstances m)"

text \<open>What the connection meets: the environment of the sends of packet-split mode, of the dial and the negotiation upstream.\<close>

record route_env =
  re_syn :: "nat \<Rightarrow> (nat \<Rightarrow> write_outcome) \<times> int"
  re_fin :: "nat \<Rightarrow> (nat \<Rightarrow> write_outcome) \<times> int"
  re_rnd :: "nat \<Rightarrow> nat"
  re_dial :: bool
  re_out :: write_outcome
  re_up :: reader

definition open_split ::
  "route_env \<Rightarrow> target \<Rightarrow> string option \<Rightarrow> string \<Rightarrow> split_mode \<Rightarrow> Server \<Rightarrow> opened \<times> bytes list \<times> Server" where
  "open_split e tgt user ip sm s =
     (case tgt of (atyp, addr, port) \<Rightarrow>
      if \<not> HasTunnels (sm_tunnelPool sm) then (Refused, [socks_reply 0x01], s)
      else case socksHealthy (sv_manager s) of
        [] \<Rightarrow> (Refused, [socks_reply 0x01], s)
      | track # rest \<Rightarrow>
          let m1 = upd_inst (inst_id track) IncrConns (sv_manager s);
              (cid, gen) = ConnIDGenerator_Next (sm_connIDGen sm);
              (ps, p1) = NewPacketSplitter cid (sm_tunnelPool sm) (track # rest) (sm_chunkSize sm)
          in case SendSYN pool_send (re_syn e) atyp addr port ps p1 of
               (True, ps2, p2) \<Rightarrow>
                 (Opened \<lparr>se_user = user, se_ip = ip, se_inst = inst_id track, se_split = Some ps2\<rparr>, [socks_reply 0x00],
                  s\<lparr>sv_manager := m1, sv_split := Some (sm\<lparr>sm_tunnelPool := p2, sm_connIDGen := gen\<rparr>)\<rparr>)
             | (False, ps2, p2) \<Rightarrow>
                 (Refused, [socks_reply 0x01],
                  s\<lparr>sv_manager := upd_inst (inst_id track) DecrConns m1,
                    sv_split := Some (sm\<lparr>sm_tunnelPool := snd (PacketSplitter_Close pool_send UnregisterConn (re_fin e) ps2 p2),
                                         sm_connIDGen := gen\<rparr>)\<rparr>))"

definition pipelined :: "byte \<Rightarrow> bytes \<Rightarrow> bytes \<Rightarrow> bytes" where
  "pipelined atyp addr port = [0x05, 0x01, 0x00] @ [0x05, 0x01, 0x00, atyp] @ addr @ port"

text \<open>
  The negotiation with the upstream proxy: the status it answered and what it sends after the answer, \<open>None\<close> when the
  negotiation breaks down.
\<close>

definition upstream_status :: "write_outcome \<Rightarrow> reader \<Rightarrow> target \<Rightarrow> (byte \<times> reader) option" where
  "upstream_status out r tgt =
     (case tgt of (atyp, addr, port) \<Rightarrow>
      if snd (inner_write out (pipelined atyp addr port)) \<noteq> None then None
      else case ReadFull r 6 of
        (Inl err, r1) \<Rightarrow> None
      | (Inr resp, r1) \<Rightarrow>
          let r2 = (if resp ! 5 = 0x03 then
                      (case ReadFull r1 1 of
                         (Inr lenBuf, r2) \<Rightarrow> snd (ReadFull r2 (unat (lenBuf ! 0) + 2))
                       | (Inl err, r2) \<Rightarrow> snd (ReadFull r2 2))
                    else if resp ! 5 = 0x04 then snd (ReadFull r1 18)
                    else snd (ReadFull r1 6))
          in Some (resp ! 3, r2))"

definition open_level ::
  "route_env \<Rightarrow> target \<Rightarrow> string option \<Rightarrow> string \<Rightarrow> Server \<Rightarrow> opened \<times> bytes list \<times> Server" where
  "open_level e tgt user ip s =
     (if socksHealthy (sv_manager s) = [] then (Refused, [socks_reply 0x01], s)
      else case Pick (re_rnd e) (sv_balancer s) (socksHealthy (sv_manager s)) of
        (p, bal) \<Rightarrow>
          let s1 = s\<lparr>sv_balancer := bal\<rparr>
          in case p of
               Panic \<Rightarrow> (Crashed, [], s1)
             | NoInstance \<Rightarrow> (Refused, [socks_reply 0x01], s1)
             | Picked inst \<Rightarrow>
                 if \<not> re_dial e then (Refused, [socks_reply 0x05], s1)
                 else case upstream_status (re_out e) (re_up e) tgt of
                        None \<Rightarrow> (Refused, [socks_reply 0x01], s1)
                      | Some (status, r) \<Rightarrow>
                          if status \<noteq> 0x00 then (Refused, [socks_reply status], s1)
                          else (Opened \<lparr>se_user = user, se_ip = ip, se_inst = inst_id inst, se_split = None\<rparr>,
                                [socks_reply 0x00],
                                s1\<lparr>sv_manager := upd_inst (inst_id inst) IncrConns (sv_manager s1)\<rparr>))"

subsection \<open>The handler\<close>

definition update_user :: "string option \<Rightarrow> (User \<Rightarrow> User) \<Rightarrow> UserManager option \<Rightarrow> UserManager option" where
  "update_user user f um =
     (case (user, um) of
        (Some name, Some m) \<Rightarrow>
          (case GetUser name m of None \<Rightarrow> um | Some u \<Rightarrow> Some (put_user name (f u) m))
      | _ \<Rightarrow> um)"

text \<open>The deferred calls of the handler: the user leaves and the connection is no longer counted.\<close>

definition hang_up :: "time \<Rightarrow> string option \<Rightarrow> string \<Rightarrow> Server \<Rightarrow> Server" where
  "hang_up now user ip s =
     s\<lparr>sv_userMgr := update_user user (MarkDisconnect now ip) (sv_userMgr s),
       sv_activeConns := i64 (sv_activeConns s - 1)\<rparr>"

record conn_env =
  ce_in :: reader
  ce_remote :: string
  ce_now :: time
  ce_end :: time
  ce_route :: route_env

definition ce_ip :: "conn_env \<Rightarrow> string" where
  "ce_ip e = ExtractIP (ce_remote e)"

definition conn_open :: "conn_env \<Rightarrow> Server \<Rightarrow> opened \<times> bytes list \<times> Server" where
  "conn_open e s =
     (case negotiate (ce_now e) (ce_ip e) (ce_in e) (sv_userMgr s) of
        (None, out, r1, um) \<Rightarrow> (Refused, out, hang_up (ce_end e) None (ce_ip e) (s\<lparr>sv_userMgr := um\<rparr>))
      | (Some user, out, r1, um) \<Rightarrow>
          let s1 = s\<lparr>sv_userMgr := um\<rparr>
          in case read_request r1 of
               (None, out2, r2) \<Rightarrow> (Refused, out @ out2, hang_up (ce_end e) user (ce_ip e) s1)
             | (Some tgt, out2, r2) \<Rightarrow>
                 (case (case sv_split s1 of
                          Some sm \<Rightarrow> open_split (ce_route e) tgt user (ce_ip e) sm s1
                        | None \<Rightarrow> open_level (ce_route e) tgt user (ce_ip e) s1) of
                    (Refused, out3, s2) \<Rightarrow> (Refused, out @ out2 @ out3, hang_up (ce_end e) user (ce_ip e) s2)
                  | (res, out3, s2) \<Rightarrow> (res, out @ out2 @ out3, s2)))"

subsection \<open>Relaying\<close>

text \<open>
  \<^verbatim>\<open>io.CopyBuffer\<close>: one round per read, which returns at most the buffer.  The reader and the writer may be wrapped
  for a rate-limited user; \<open>wr\<close> also returns the pieces that went out.  A list that ends stands for a connection that is
  closed.
\<close>

record copy_round =
  cr_data :: bytes
  cr_err :: "io_error option"
  cr_out :: "nat \<Rightarrow> write_outcome"

fun CopyBuffer ::
  "(bytes \<Rightarrow> io_error option \<Rightarrow> nat \<Rightarrow> 'u \<Rightarrow> (bytes \<times> io_error option) \<times> 'u)
    \<Rightarrow> ((nat \<Rightarrow> write_outcome) \<Rightarrow> bytes \<Rightarrow> 'u \<Rightarrow> (nat \<times> io_error option) \<times> bytes list \<times> 'u)
    \<Rightarrow> nat \<Rightarrow> copy_round list \<Rightarrow> int \<Rightarrow> bytes list \<Rightarrow> 'u \<Rightarrow> int \<times> bytes list \<times> 'u" where
  "CopyBuffer rd wr cap [] n sent u = (n, sent, u)"
| "CopyBuffer rd wr cap (r # rs) n sent u =
     (case rd (cr_data r) (cr_err r) cap u of
        ((p, er), u1) \<Rightarrow>
          if p = [] then
            (if er \<noteq> None then (n, sent, u1) else CopyBuffer rd wr cap rs n sent u1)
          else case wr (cr_out r) p u1 of
            ((k, ew), pieces, u2) \<Rightarrow>
              let n' = i64 (n + int k); sent' = sent @ pieces
              in if ew \<noteq> None \<or> k \<noteq> length p \<or> er \<noteq> None then (n', sent', u2)
                 else CopyBuffer rd wr cap rs n' sent' u2)"

definition plain_read :: "bytes \<Rightarrow> io_error option \<Rightarrow> nat \<Rightarrow> 'u \<Rightarrow> (bytes \<times> io_error option) \<times> 'u" where
  "plain_read available err cap u = ((take cap available, err), u)"

definition plain_write :: "(nat \<Rightarrow> write_outcome) \<Rightarrow> bytes \<Rightarrow> 'u \<Rightarrow> (nat \<times> io_error option) \<times> bytes list \<times> 'u" where
  "plain_write out p u = (inner_write (out 0) p, [take (fst (inner_write (out 0) p)) p], u)"

definition limited_write ::
  "Limiter \<Rightarrow> (nat \<Rightarrow> write_outcome) \<Rightarrow> bytes \<Rightarrow> User \<Rightarrow> (nat \<times> io_error option) \<times> bytes list \<times> User" where
  "limited_write lim out p u = rateLimitedWriter_Write (lim_burst lim) out 0 p [] 0 u"

lemma Wrap_limited:
  "user_limiter u = Some lim \<Longrightarrow> WrapReader u = rateLimitedReader_Read lim"
  "user_limiter u = Some lim \<Longrightarrow> WrapWriter u = limited_write lim"
  by (simp_all add: WrapReader_def WrapWriter_def limited_write_def fun_eq_iff)

text \<open>
  \<^verbatim>\<open>relay\<close>: the bytes that went up and down, their numbers, and the user.  The two directions run at the same time; they
  share only the user's counter.  A plain copy uses a buffer of 32768 bytes.
\<close>

definition relay ::
  "nat \<Rightarrow> copy_round list \<Rightarrow> copy_round list \<Rightarrow> User option \<Rightarrow> (int \<times> bytes list) \<times> (int \<times> bytes list) \<times> User option" where
  "relay bsize up down user =
     (case user of
        Some u \<Rightarrow>
          (case user_limiter u of
             Some lim \<Rightarrow>
               (case CopyBuffer (WrapReader u) plain_write bsize up 0 [] u of
                  (tx, us, u1) \<Rightarrow>
                    case CopyBuffer plain_read (WrapWriter u) bsize down 0 [] u1 of
                      (rx, ds, u2) \<Rightarrow> ((tx, us), (rx, ds), Some u2))
           | None \<Rightarrow>
               (case (CopyBuffer plain_read plain_write 32768 up 0 [] (), CopyBuffer plain_read plain_write 32768 down 0 [] ()) of
                  ((tx, us, _), (rx, ds, _)) \<Rightarrow> ((tx, us), (rx, ds), Some (AddUsedBytes (i64 (tx + rx)) u))))
      | None \<Rightarrow>
          (case (CopyBuffer plain_read plain_write 32768 up 0 [] (), CopyBuffer plain_read plain_write 32768 down 0 [] ()) of
             ((tx, us, _), (rx, ds, _)) \<Rightarrow> ((tx, us), (rx, ds), None)))"

definition session_user :: "session \<Rightarrow> Server \<Rightarrow> User option" where
  "session_user ses s =
     (case (se_user ses, sv_userMgr s) of (Some name, Some m) \<Rightarrow> GetUser name m | _ \<Rightarrow> None)"

text \<open>The buffers of a wrapped copy come from the instance.\<close>

definition buf_size :: "nat \<Rightarrow> Manager \<Rightarrow> nat" where
  "buf_size i m = (case find (\<lambda>inst. inst_id inst = i) (mgr_instances m) of None \<Rightarrow> 0 | Some inst \<Rightarrow> nat (inst_bufferSize inst))"

text \<open>The end of a connection that is relayed through one instance.\<close>

definition level_done :: "copy_round list \<Rightarrow> copy_round list \<Rightarrow> time \<Rightarrow> session \<Rightarrow> Server \<Rightarrow> Server" where
  "level_done up down now ses s =
     (case relay (buf_size (se_inst ses) (sv_manager s)) up down (session_user ses s) of
        ((tx, us), (rx, ds), user') \<Rightarrow>
          hang_up now (se_user ses) (se_ip ses)
            (s\<lparr>sv_manager := upd_inst (se_inst ses) (DecrConns \<circ> AddRx rx \<circ> AddTx tx) (sv_manager s),
               sv_userMgr := (case user' of None \<Rightarrow> sv_userMgr s | Some u \<Rightarrow> update_user (se_user ses) (\<lambda>_. u) (sv_userMgr s))\<rparr>))"

text \<open>
  The end of a connection in packet-split mode.  The wrappers of a rate-limited user charge every byte they read
  (the relay adds the same numbers to its total) and every byte that went to the client.
\<close>

definition split_charge :: "int \<Rightarrow> rx_state \<Rightarrow> User \<Rightarrow> User" where
  "split_charge tx rx u =
     (let u1 = (if NeedsRateLimit u then AddUsedBytes (int (length (concat (rx_client rx)))) (AddUsedBytes tx u) else u)
      in AddUsedBytes (i64 (tx + rx_total rx)) u1)"

definition spread_traffic :: "int \<Rightarrow> int \<Rightarrow> Instance list \<Rightarrow> Manager \<Rightarrow> Manager" where
  "spread_traffic tx rx xs m =
     (let n = int (length xs)
      in foldl (\<lambda>m inst. upd_inst (inst_id inst) (AddRx (rx sdiv n) \<circ> AddTx (tx sdiv n)) m) m xs)"

definition split_done ::
  "((nat \<Rightarrow> write_outcome) \<times> int) tx_round list \<Rightarrow> rx_event list \<Rightarrow> time
    \<Rightarrow> (nat \<Rightarrow> (nat \<Rightarrow> write_outcome) \<times> int) \<Rightarrow> time \<Rightarrow> session \<Rightarrow> PacketSplitter \<Rightarrow> split_mode \<Rightarrow> Server \<Rightarrow> Server" where
  "split_done up down start fin now ses ps sm s =
     (case RelayClientToUpstream pool_send up 0 [] ps (sm_tunnelPool sm) of
        (st, tx, sent, ps1, p1) \<Rightarrow>
          let rx = snd (RelayUpstreamToClient down (rx_init start));
              m1 = spread_traffic tx (rx_total rx) (ps_instances ps) (sv_manager s)
          in hang_up now (se_user ses) (se_ip ses)
               (s\<lparr>sv_manager := upd_inst (se_inst ses) DecrConns m1,
                  sv_userMgr := update_user (se_user ses) (split_charge tx rx) (sv_userMgr s),
                  sv_split := Some (sm\<lparr>sm_tunnelPool := snd (PacketSplitter_Close pool_send UnregisterConn fin ps1 p1)\<rparr>)\<rparr>))"

record traffic =
  tf_up :: "copy_round list"
  tf_down :: "copy_round list"
  tf_tx :: "((nat \<Rightarrow> write_outcome) \<times> int) tx_round list"
  tf_rx :: "rx_event list"
  tf_start :: time
  tf_fin :: "nat \<Rightarrow> (nat \<Rightarrow> write_outcome) \<times> int"
  tf_now :: time

definition conn_done :: "traffic \<Rightarrow> session \<Rightarrow> Server \<Rightarrow> Server" where
  "conn_done t ses s =
     (case (se_split ses, sv_split s) of
        (Some ps, Some sm) \<Rightarrow> split_done (tf_tx t) (tf_rx t) (tf_start t) (tf_fin t) (tf_now t) ses ps sm s
      | _ \<Rightarrow> level_done (tf_up t) (tf_down t) (tf_now t) ses s)"

subsection \<open>Accounting\<close>

lemma i64_idem [simp]: "i64 (i64 x) = i64 x"
  using i64_add_left [of x 0] by simp

text \<open>What a copy moves when every write succeeds: the reads up to the first that reports an error.\<close>

fun copied :: "nat \<Rightarrow> copy_round list \<Rightarrow> bytes" where
  "copied sz [] = []"
| "copied sz (r # rs) = take sz (cr_data r) @ (if cr_err r \<noteq> None then [] else copied sz rs)"

definition all_written :: "copy_round list \<Rightarrow> bool" where
  "all_written rs \<longleftrightarrow> (\<forall>r \<in> set rs. \<forall>k. cr_out r k = WroteAll)"

text \<open>
  The contract of the two ends of a copy: a read returns at most \<open>sz\<close> bytes and charges \<open>a\<close> for each, a write that
  does not fail passes everything on and charges \<open>b\<close> for each byte.  \<open>used\<close> is the counter that is charged.
\<close>

locale copier =
  fixes rd :: "bytes \<Rightarrow> io_error option \<Rightarrow> nat \<Rightarrow> 'u \<Rightarrow> (bytes \<times> io_error option) \<times> 'u"
    and wr :: "(nat \<Rightarrow> write_outcome) \<Rightarrow> bytes \<Rightarrow> 'u \<Rightarrow> (nat \<times> io_error option) \<times> bytes list \<times> 'u"
    and used :: "'u \<Rightarrow> int" and cap sz :: nat and a b :: int
  assumes rd_law: "used v = i64 (used v) \<Longrightarrow>
      \<exists>v1. rd d e cap v = ((take sz d, e), v1) \<and> used v1 = i64 (used v + a * int (length (take sz d)))"
    and wr_law: "used v = i64 (used v) \<Longrightarrow> p \<noteq> [] \<Longrightarrow> \<forall>k. out k = WroteAll \<Longrightarrow>
      \<exists>ps v1. wr out p v = ((length p, None), ps, v1) \<and> concat ps = p \<and> used v1 = i64 (used v + b * int (length p))"
begin

lemma copies:
  assumes "used u = i64 (used u)" "all_written rs"
  shows "\<exists>n' sent' u'. CopyBuffer rd wr cap rs n sent u = (n', sent', u') \<and> concat sent' = concat sent @ copied sz rs
    \<and> i64 n' = i64 (n + int (length (copied sz rs))) \<and> (n = i64 n \<longrightarrow> n' = i64 n')
    \<and> used u' = i64 (used u + (a + b) * int (length (copied sz rs)))"
  using assms
proof (induction rs arbitrary: n sent u)
  case (Cons r rs)
  let ?p = "take sz (cr_data r)"
  obtain u1 where r: "rd (cr_data r) (cr_err r) cap u = ((?p, cr_err r), u1)" "used u1 = i64 (used u + a * int (length ?p))"
    using rd_law [OF Cons.prems(1)] by blast
  have m1: "used u1 = i64 (used u1)" using r(2) by simp
  have all: "\<forall>k. cr_out r k = WroteAll" "all_written rs" using Cons.prems(2) by (simp_all add: all_written_def)
  show ?case
  proof (cases "?p = []")
    case True
    show ?thesis
    proof (cases "cr_err r = None")
      case none: True
      have "used u1 = used u" using r(2) Cons.prems(1) unfolding True by simp
      moreover have "copied sz (r # rs) = copied sz rs" "CopyBuffer rd wr cap (r # rs) n sent u = CopyBuffer rd wr cap rs n sent u1"
        using r(1) none unfolding copied.simps CopyBuffer.simps True by simp_all
      ultimately show ?thesis using Cons.IH [OF m1 all(2), of n sent] by (simp only:)
    next
      case False
      have "used u1 = used u" using r(2) Cons.prems(1) unfolding True by simp
      moreover have eq: "copied sz (r # rs) = []" "CopyBuffer rd wr cap (r # rs) n sent u = (n, sent, u1)"
        using r(1) False unfolding copied.simps CopyBuffer.simps True by simp_all
      ultimately show ?thesis using Cons.prems(1) unfolding eq by simp
    qed
  next
    case False
    obtain ps u2 where w: "wr (cr_out r) ?p u1 = ((length ?p, None), ps, u2)" "concat ps = ?p"
        "used u2 = i64 (used u1 + b * int (length ?p))"
      using wr_law [OF m1 False all(1)] by blast
    have u2: "used u2 = i64 (used u + (a + b) * int (length ?p))"
      unfolding w(3) r(2) i64_add_left by (simp add: algebra_simps)
    show ?thesis
    proof (cases "cr_err r = None")
      case True
      have m2: "used u2 = i64 (used u2)" using u2 by simp
      from Cons.IH [OF m2 all(2), of "i64 (n + int (length ?p))" "sent @ ps"]
      obtain n' sent' u' where IH: "CopyBuffer rd wr cap rs (i64 (n + int (length ?p))) (sent @ ps) u2 = (n', sent', u')"
        "concat sent' = concat (sent @ ps) @ copied sz rs" "i64 n' = i64 (i64 (n + int (length ?p)) + int (length (copied sz rs)))"
        "n' = i64 n'" "used u' = i64 (used u2 + (a + b) * int (length (copied sz rs)))" by auto
      have "CopyBuffer rd wr cap (r # rs) n sent u = (n', sent', u')" using True False r(1) w(1) IH(1) by (simp add: Let_def)
      moreover have "used u' = i64 (used u + (a + b) * int (length (copied sz (r # rs))))"
        unfolding IH(5) u2 i64_add_left using True by (simp add: algebra_simps)
      moreover have "i64 n' = i64 (n + int (length (copied sz (r # rs))))"
        unfolding IH(3) i64_add_left using True by (simp add: algebra_simps)
      ultimately show ?thesis using IH(2,4) w(2) True by simp
    qed (use False r(1) w u2 in \<open>simp add: Let_def\<close>)
  qed
qed simp

end

definition limited_size :: "Limiter \<Rightarrow> nat \<Rightarrow> nat" where
  "limited_size lim cap = (if lim_burst lim > 0 \<and> int cap > lim_burst lim then nat (lim_burst lim) else cap)"

lemma limited_write_law:
  assumes "user_usedBytes v = i64 (user_usedBytes v)" "\<forall>k. out k = WroteAll"
  shows "\<exists>ps v1. limited_write lim out p v = ((length p, None), ps, v1) \<and> concat ps = p
    \<and> user_usedBytes v1 = i64 (user_usedBytes v + int (length p))"
proof -
  obtain n e ps v1 where w: "limited_write lim out p v = ((n, e), ps, v1)" by (metis surj_pair)
  have "e = None" if "rateLimitedWriter_Write burst out i q acc tot u = ((n', e), ps', u')" for burst i q acc tot u n' e ps' u'
    using that assms(2)
    by (induction burst out i q acc tot u rule: rateLimitedWriter_Write.induct)
      (subst (asm) rateLimitedWriter_Write.simps, auto simp: inner_write_def Let_def split: if_splits)
  with w have "e = None" by (simp add: limited_write_def)
  with rateLimitedWriter_Write_spec [OF w [unfolded limited_write_def] assms(1)] w show ?thesis by auto
qed

interpretation up_limited: copier "rateLimitedReader_Read lim" plain_write user_usedBytes cap "limited_size lim cap" 1 0
  for lim cap
proof
  fix v :: User and d e
  assume "user_usedBytes v = i64 (user_usedBytes v)"
  then show "\<exists>v1. rateLimitedReader_Read lim d e cap v = ((take (limited_size lim cap) d, e), v1)
      \<and> user_usedBytes v1 = i64 (user_usedBytes v + 1 * int (length (take (limited_size lim cap) d)))"
    by (auto simp: rateLimitedReader_Read_def limited_size_def AddUsedBytes_def Let_def)
next
  fix v :: User and p :: bytes and out :: "nat \<Rightarrow> write_outcome"
  assume v: "user_usedBytes v = i64 (user_usedBytes v)" "p \<noteq> []" "\<forall>k. out k = WroteAll"
  then show "\<exists>ps v1. plain_write out p v = ((length p, None), ps, v1) \<and> concat ps = p
      \<and> user_usedBytes v1 = i64 (user_usedBytes v + 0 * int (length p))"
    using v(1) by (simp add: plain_write_def inner_write_def)
qed

interpretation down_limited: copier plain_read "limited_write lim" user_usedBytes cap cap 0 1
  for lim cap
  by unfold_locales (auto simp: plain_read_def intro: limited_write_law)

interpretation plain_copy: copier plain_read plain_write "\<lambda>u :: unit. 0" cap cap 0 0
  for cap
  by unfold_locales (simp_all add: plain_read_def plain_write_def inner_write_def i64_id)

text \<open>The buffers of the two directions of a relay.\<close>

definition relay_sizes :: "nat \<Rightarrow> User option \<Rightarrow> nat \<times> nat" where
  "relay_sizes bsize user =
     (case user of
        Some u \<Rightarrow> (case user_limiter u of Some lim \<Rightarrow> (limited_size lim bsize, bsize) | None \<Rightarrow> (32768, 32768))
      | None \<Rightarrow> (32768, 32768))"

lemma plain_copies:
  assumes "all_written rs"
  shows "\<exists>sent'. CopyBuffer plain_read plain_write cap rs 0 [] () = (i64 (int (length (copied cap rs))), sent', ())
    \<and> concat sent' = copied cap rs"
  using plain_copy.copies [OF _ assms, of cap 0 "[]"] by (auto simp: i64_id)

lemma limited_copies:
  assumes "all_written up" "all_written down" "user_usedBytes u = i64 (user_usedBytes u)"
  shows "\<exists>us u1 ds u2. CopyBuffer (rateLimitedReader_Read lim) plain_write cap up 0 [] u
      = (i64 (int (length (copied (limited_size lim cap) up))), us, u1) \<and> concat us = copied (limited_size lim cap) up
    \<and> CopyBuffer plain_read (limited_write lim) cap down 0 [] u1 = (i64 (int (length (copied cap down))), ds, u2)
    \<and> concat ds = copied cap down
    \<and> user_usedBytes u2 = i64 (user_usedBytes u + int (length (copied (limited_size lim cap) up)) + int (length (copied cap down)))"
proof -
  obtain tx us u1 where up: "CopyBuffer (rateLimitedReader_Read lim) plain_write cap up 0 [] u = (tx, us, u1)"
      "concat us = copied (limited_size lim cap) up" "tx = i64 (int (length (copied (limited_size lim cap) up)))"
      "user_usedBytes u1 = i64 (user_usedBytes u + int (length (copied (limited_size lim cap) up)))"
    using up_limited.copies [OF assms(3,1), of lim cap 0 "[]"] by (auto simp: i64_id)
  have "user_usedBytes u1 = i64 (user_usedBytes u1)" using up(4) by simp
  from down_limited.copies [OF this assms(2), of lim cap 0 "[]"] obtain rx ds u2
    where down: "CopyBuffer plain_read (limited_write lim) cap down 0 [] u1 = (rx, ds, u2)"
      "concat ds = copied cap down" "rx = i64 (int (length (copied cap down)))"
      "user_usedBytes u2 = i64 (user_usedBytes u1 + int (length (copied cap down)))" by (auto simp: i64_id)
  have "user_usedBytes u2 = i64 (user_usedBytes u + int (length (copied (limited_size lim cap) up)) + int (length (copied cap down)))"
    unfolding down(4) up(4) i64_add_left ..
  with up down show ?thesis by blast
qed

text \<open>The relay when no write fails.\<close>

lemma relay_copies:
  assumes "all_written up" "all_written down" "\<forall>u. user = Some u \<longrightarrow> user_usedBytes u = i64 (user_usedBytes u)"
    and "relay_sizes bsize user = (su, sd)"
  shows "\<exists>us ds user'. relay bsize up down user
      = ((i64 (int (length (copied su up))), us), (i64 (int (length (copied sd down))), ds), user')
    \<and> concat us = copied su up \<and> concat ds = copied sd down
    \<and> map_option user_usedBytes user' =
        map_option (\<lambda>u. i64 (user_usedBytes u + int (length (copied su up)) + int (length (copied sd down)))) user"
proof -
  obtain us where up: "CopyBuffer plain_read plain_write 32768 up 0 [] () = (i64 (int (length (copied 32768 up))), us, ())"
      "concat us = copied 32768 up" using plain_copies [OF assms(1)] by blast
  obtain ds where down: "CopyBuffer plain_read plain_write 32768 down 0 [] () = (i64 (int (length (copied 32768 down))), ds, ())"
      "concat ds = copied 32768 down" using plain_copies [OF assms(2)] by blast
  have sum: "i64 (x + i64 (i64 a + i64 b)) = i64 (x + a + b)" for x a b
    using i64_add_left [of "i64 a + i64 b" x] i64_add_left [of a "x + i64 b"] i64_add_left [of b "x + a"]
    by (simp add: algebra_simps)
  show ?thesis
  proof (cases "\<exists>u lim. user = Some u \<and> user_limiter u = Some lim")
    case True
    then obtain u lim where u: "user = Some u" "user_limiter u = Some lim" by blast
    with assms(3,4) have m: "user_usedBytes u = i64 (user_usedBytes u)" "su = limited_size lim bsize" "sd = bsize"
      by (auto simp: relay_sizes_def)
    from limited_copies [OF assms(1,2) m(1), of lim bsize] show ?thesis
      by (elim exE conjE) (simp add: relay_def u m(2,3) Wrap_limited [OF u(2)])
  next
    case False
    then have "su = 32768" "sd = 32768" using assms(4) by (auto simp: relay_sizes_def split: option.splits)
    then show ?thesis
      using False up down by (cases user) (auto simp: relay_def AddUsedBytes_def sum split: option.splits)
  qed
qed

text \<open>In packet-split mode the total of the reverse direction is what the client got, when no write fails.\<close>

fun event_written :: "rx_event \<Rightarrow> bool" where
  "event_written RxDone \<longleftrightarrow> True"
| "event_written (RxTick now clk out) \<longleftrightarrow> (\<forall>k. out k = WroteAll)"
| "event_written (RxFrame now f clk out) \<longleftrightarrow> (\<forall>k. out k = WroteAll)"

definition rx_counted :: "rx_state \<Rightarrow> bool" where
  "rx_counted s \<longleftrightarrow> rx_total s = i64 (int (length (concat (rx_client s))))"

lemma rx_counted_deliver:
  "rx_counted s \<Longrightarrow> rx_counted (snd (deliver touch clk out s))"
proof (induction touch clk out s rule: deliver.induct)
  case (1 touch clk out s)
  obtain res ro where n: "Reorderer_Next (clk 0) (rx_reorderer s) = (res, ro)" by fastforce
  show ?case
  proof (cases res)
    case None
    with n 1(2) show ?thesis by (subst deliver.simps) (simp add: rx_counted_def)
  next
    case (Some data)
    obtain k err where w: "inner_write (out 0) data = (k, err)" by fastforce
    then have k: "k \<le> length data" by (auto simp: inner_write_def split: write_outcome.splits)
    let ?s = "s\<lparr>rx_reorderer := ro, rx_total := i64 (rx_total s + int k), rx_client := rx_client s @ [take k data],
                rx_lastActivity := (if touch then clk 0 else rx_lastActivity s)\<rparr>"
    have c: "rx_counted ?s" using 1(2) k by (simp add: rx_counted_def i64_add_left)
    show ?thesis
    proof (cases err)
      case None
      have "rx_counted (snd (deliver touch (\<lambda>k. clk (Suc k)) (\<lambda>k. out (Suc k)) ?s))"
        using 1(1) [OF n [symmetric] Some w [symmetric] refl _ c] None by simp
      then show ?thesis using n Some w None by (subst deliver.simps) (simp add: Let_def)
    next
      case e: (Some a)
      then show ?thesis using n Some w c by (subst deliver.simps) (simp add: Let_def)
    qed
  qed
qed

lemma foldl_total: "foldl (\<lambda>t d. i64 (t + int (length d))) (i64 n) ds = i64 (n + int (length (concat ds)))"
  by (induction ds arbitrary: n) (simp_all add: i64_add_left algebra_simps)

lemma rx_counted_flush:
  assumes "rx_counted s" "\<forall>k. out k = WroteAll"
  shows "rx_counted (flush_rx clk out s)"
proof -
  obtain ds ro where d: "Reorderer_drain clk (rx_reorderer s) = (ds, ro)" by fastforce
  have "map (\<lambda>(i, d). take (fst (inner_write (out i) d)) d) (enumerate 0 ds) = map snd (enumerate 0 ds)"
    using assms(2) by (simp add: inner_write_def case_prod_unfold)
  also have "\<dots> = ds" by simp
  finally show ?thesis
    using assms(1) d foldl_total by (simp add: rx_counted_def flush_rx_def)
qed

lemma rx_counted_round: "rx_counted s \<Longrightarrow> event_written e \<Longrightarrow> rx_counted (snd (rx_round e s))"
proof (cases "(e, s)" rule: rx_round.cases)
  case (2 now clk out s')
  assume "rx_counted s"
  then have "rx_counted (snd (deliver True clk out s'))" using 2 rx_counted_deliver by simp
  then show ?thesis using 2 by (auto split: prod.splits bool.splits)
next
  case (4 now f clk out s')
  assume s: "rx_counted s" and e: "event_written e"
  have 1: "rx_counted (s'\<lparr>rx_lastActivity := now\<rparr>)" using s 4 by (simp add: rx_counted_def)
  let ?s2 = "s'\<lparr>rx_lastActivity := now, rx_reorderer := Reorderer_Insert (SeqNum f) (Payload f) (rx_reorderer s')\<rparr>"
  have "rx_counted ?s2" using 1 by (simp add: rx_counted_def)
  then have 2: "rx_counted (snd (deliver False clk out ?s2))" by (rule rx_counted_deliver)
  show ?thesis using 1 2 rx_counted_flush [OF 1] e 4 by (auto simp: Let_def split: prod.splits bool.splits)
qed simp_all

lemma rx_counted_relay:
  "rx_counted s \<Longrightarrow> list_all event_written es \<Longrightarrow> rx_counted (snd (RelayUpstreamToClient es s))"
proof (induction es arbitrary: s)
  case (Cons e es)
  obtain st s1 where r: "rx_round e s = (st, s1)" by fastforce
  then have "rx_counted s1" using rx_counted_round [of s e] Cons.prems by simp
  with Cons r show ?case by (cases st) auto
qed simp

subsection \<open>Connections that interleave\<close>

text \<open>
  A running proxy: the server, the number of connections between accept and relay, and the relaying ones.  Whatever else
  happens to instances, users and tunnels in the meantime (health checks, traffic counters, resets, the pool) is one step
  that leaves the counters of connections alone.
\<close>

record proxy_sys =
  px_server :: Server
  px_opening :: nat
  px_live :: "session list"

definition same_counts :: "Server \<Rightarrow> Server \<Rightarrow> bool" where
  "same_counts s t \<longleftrightarrow>
     sv_activeConns t = sv_activeConns s \<and> sv_maxConnections t = sv_maxConnections s
     \<and> map (\<lambda>inst. (inst_id inst, inst_activeConns inst)) (mgr_instances (sv_manager t))
         = map (\<lambda>inst. (inst_id inst, inst_activeConns inst)) (mgr_instances (sv_manager s))
     \<and> rel_option (\<lambda>m m'. \<forall>name. rel_option (\<lambda>u u'. user_activeIPs u' = user_activeIPs u
          \<and> gm_ok (user_cooldownIPs u')) (GetUser name m) (GetUser name m')) (sv_userMgr s) (sv_userMgr t)"

inductive proxy_step :: "proxy_sys \<Rightarrow> proxy_sys \<Rightarrow> bool" where
  accept: "accept_conn (px_server x) = (Some i, s') \<Longrightarrow>
    proxy_step x (x\<lparr>px_server := s', px_opening := Suc (px_opening x)\<rparr>)"
| turn_away: "accept_conn (px_server x) = (None, s') \<Longrightarrow> proxy_step x (x\<lparr>px_server := s'\<rparr>)"
| refuse: "0 < px_opening x \<Longrightarrow> conn_open e (px_server x) = (Refused, out, s') \<Longrightarrow>
    proxy_step x (x\<lparr>px_server := s', px_opening := px_opening x - 1\<rparr>)"
| connect: "0 < px_opening x \<Longrightarrow> conn_open e (px_server x) = (Opened ses, out, s') \<Longrightarrow>
    proxy_step x (x\<lparr>px_server := s', px_opening := px_opening x - 1, px_live := ses # px_live x\<rparr>)"
| finish: "ses \<in> set (px_live x) \<Longrightarrow>
    proxy_step x (x\<lparr>px_server := conn_done t ses (px_server x), px_live := remove1 ses (px_live x)\<rparr>)"
| other: "same_counts (px_server x) s' \<Longrightarrow> proxy_step x (x\<lparr>px_server := s'\<rparr>)"

text \<open>The connections an instance and an address of a user should be counting.\<close>

definition on_inst :: "nat \<Rightarrow> session list \<Rightarrow> nat" where
  "on_inst i live = length (filter (\<lambda>ses. se_inst ses = i) live)"

definition on_user :: "string \<Rightarrow> string \<Rightarrow> session list \<Rightarrow> nat" where
  "on_user name ip live = length (filter (\<lambda>ses. se_user ses = Some name \<and> se_ip ses = ip) live)"

definition inst_counts :: "Manager \<Rightarrow> (nat \<Rightarrow> nat) \<Rightarrow> bool" where
  "inst_counts m f \<longleftrightarrow> (\<forall>inst \<in> set (mgr_instances m). inst_activeConns inst = int (f (inst_id inst)))"

definition user_counts :: "UserManager option \<Rightarrow> (string \<Rightarrow> string \<Rightarrow> nat) \<Rightarrow> bool" where
  "user_counts um f \<longleftrightarrow> (\<forall>m name u. um = Some m \<longrightarrow> GetUser name m = Some u \<longrightarrow> user_ok u \<and> user_active u = f name)"

definition proxy_inv :: "proxy_sys \<Rightarrow> bool" where
  "proxy_inv x \<longleftrightarrow>
     (let s = px_server x; n = px_opening x + length (px_live x)
      in sv_activeConns s = int n \<and> int n \<le> max 0 (sv_maxConnections s) \<and> sv_maxConnections s < 2 ^ 63
         \<and> inst_counts (sv_manager s) (\<lambda>i. on_inst i (px_live x))
         \<and> user_counts (sv_userMgr s) (\<lambda>name ip. on_user name ip (px_live x)))"

definition proxy_init :: "proxy_sys \<Rightarrow> bool" where
  "proxy_init x \<longleftrightarrow> px_opening x = 0 \<and> px_live x = [] \<and> sv_activeConns (px_server x) = 0
     \<and> sv_maxConnections (px_server x) < 2 ^ 63 \<and> inst_counts (sv_manager (px_server x)) (\<lambda>i. 0)
     \<and> user_counts (sv_userMgr (px_server x)) (\<lambda>name ip. 0)"

subsection \<open>The counters are exact\<close>

lemma user_counts_put:
  "user_counts (Some m) f \<Longrightarrow> user_ok u \<Longrightarrow> user_active u = g \<Longrightarrow> user_counts (Some (put_user name u m)) (f(name := g))"
  by (auto simp: user_counts_def put_user_def GetUser_def)

lemma user_counts_update:
  assumes "user_counts um f" "\<And>u. user_ok u \<Longrightarrow> user_active u = f name \<Longrightarrow> user_ok (h u) \<and> user_active (h u) = g"
  shows "user_counts (update_user (Some name) h um) (f(name := g))"
proof (cases um)
  case (Some m)
  show ?thesis
  proof (cases "GetUser name m")
    case None
    then show ?thesis using assms(1) Some by (auto simp: user_counts_def update_user_def)
  next
    case u: (Some u)
    then have "user_ok u" "user_active u = f name" using assms(1) Some by (auto simp: user_counts_def)
    then show ?thesis using user_counts_put [of m f "h u" g name] assms Some u by (simp add: update_user_def)
  qed
qed (simp add: user_counts_def update_user_def)

lemma update_user_None [simp]: "update_user None h um = um"
  by (simp add: update_user_def)

text \<open>One more connection of a user, if there is one.\<close>

definition bump :: "string option \<Rightarrow> string \<Rightarrow> (string \<Rightarrow> string \<Rightarrow> nat) \<Rightarrow> string \<Rightarrow> string \<Rightarrow> nat" where
  "bump user ip f = (case user of None \<Rightarrow> f | Some name \<Rightarrow> f(name := (f name)(ip := Suc (f name ip))))"

lemma negotiate_effect:
  assumes "negotiate now ip r um = (res, out, r', um')"
  obtains (same) "um' = um" "res = None \<or> res = Some None"
    | (checked) m name pw u reason u1 where "um = Some m" "Authenticate name pw m = Some u" "CheckConnect now ip u = (reason, u1)"
        "res = (if reason = None then Some (Some name) else None)"
        "um' = Some (put_user name (if reason = None then MarkConnect ip u1 else u1) m)"
  using assms
  by (auto simp: negotiate_def split: prod.splits sum.splits option.splits if_splits)

lemma user_counts_negotiate:
  assumes "negotiate now ip r um = (res, out, r', um')" "user_counts um f" "\<And>name. int (f name ip) < max_i64"
  shows "user_counts um' (case res of None \<Rightarrow> f | Some user \<Rightarrow> bump user ip f)"
  using assms(1)
proof (cases rule: negotiate_effect)
  case same
  then show ?thesis using assms(2) by (auto simp: bump_def)
next
  case (checked m name pw u reason u1)
  have "GetUser name m = Some u" using checked(2) by (auto simp: Authenticate_def GetUser_def split: option.splits if_splits)
  then have u: "user_ok u" "user_active u = f name" using assms(2) checked(1) by (auto simp: user_counts_def)
  from CheckConnect_keeps [OF u(1) checked(3)] have "user_ok u1" "user_activeIPs u1 = user_activeIPs u" by blast+
  then have u1: "user_ok u1" "user_active u1 = f name" using u(2) by (auto simp: user_active_def activeCount_def fun_eq_iff)
  show ?thesis
  proof (cases reason)
    case None
    have "user_ok (MarkConnect ip u1)" "user_active (MarkConnect ip u1) = (f name)(ip := Suc (f name ip))"
      using MarkConnect_counts [OF u1(1), of ip] u1(2) assms(3) by simp_all
    then show ?thesis using user_counts_put [of m f] assms(2) checked(1,4,5) None by (simp add: bump_def)
  next
    case (Some d)
    then show ?thesis using user_counts_put [of m f u1 "f name" name] u1 assms(2) checked(1,4,5) by simp
  qed
qed

lemma inst_counts_upd:
  assumes "inst_counts m f" "\<And>inst. inst_activeConns inst = int (f i) \<Longrightarrow> inst_activeConns (h inst) = int k \<and> inst_id (h inst) = inst_id inst"
  shows "inst_counts (upd_inst i h m) (f(i := k))"
  using assms by (auto simp: inst_counts_def upd_inst_def)

lemma counts_IncrConns:
  "inst_activeConns inst = int n \<Longrightarrow> int n < max_i64 \<Longrightarrow>
     inst_activeConns (IncrConns inst) = int (Suc n) \<and> inst_id (IncrConns inst) = inst_id inst"
  by (simp add: IncrConns_def i64_id max_i64_def)

lemma counts_DecrConns:
  "inst_activeConns inst = int (Suc n) \<Longrightarrow> int n < max_i64 \<Longrightarrow>
     inst_activeConns (DecrConns inst) = int n \<and> inst_id (DecrConns inst) = inst_id inst"
  by (simp add: DecrConns_def i64_id max_i64_def)

text \<open>What opening a route does to the counters.\<close>

definition route_counts :: "string option \<Rightarrow> string \<Rightarrow> (nat \<Rightarrow> nat) \<Rightarrow> opened \<Rightarrow> Server \<Rightarrow> Server \<Rightarrow> bool" where
  "route_counts user ip f res s s' \<longleftrightarrow>
     sv_userMgr s' = sv_userMgr s \<and> sv_activeConns s' = sv_activeConns s \<and> sv_maxConnections s' = sv_maxConnections s
     \<and> (case res of
          Opened ses \<Rightarrow> se_user ses = user \<and> se_ip ses = ip \<and> inst_counts (sv_manager s') (f(se_inst ses := Suc (f (se_inst ses))))
        | _ \<Rightarrow> inst_counts (sv_manager s') f)"

lemma open_split_counts:
  assumes "open_split e tgt user ip sm s = (res, out, s')" "inst_counts (sv_manager s) f" "\<And>i. int (f i) < max_i64"
  shows "route_counts user ip f res s s'"
proof (cases "HasTunnels (sm_tunnelPool sm) \<and> socksHealthy (sv_manager s) \<noteq> []")
  case False
  then show ?thesis using assms(1,2) by (auto simp: open_split_def route_counts_def split: prod.splits list.splits if_splits)
next
  case True
  obtain atyp addr port where tgt: "tgt = (atyp, addr, port)" by (cases tgt)
  from True obtain track rest where h: "socksHealthy (sv_manager s) = track # rest" "HasTunnels (sm_tunnelPool sm)"
    by (cases "socksHealthy (sv_manager s)") auto
  obtain cid gen where g: "ConnIDGenerator_Next (sm_connIDGen sm) = (cid, gen)" by fastforce
  obtain ps p1 where n: "NewPacketSplitter cid (sm_tunnelPool sm) (track # rest) (sm_chunkSize sm) = (ps, p1)" by fastforce
  obtain ok ps2 p2 where syn: "SendSYN pool_send (re_syn e) atyp addr port ps p1 = (ok, ps2, p2)" by (metis prod_cases3)
  let ?i = "inst_id track"
  have inc: "inst_counts (upd_inst ?i IncrConns (sv_manager s)) (f(?i := Suc (f ?i)))"
    by (rule inst_counts_upd [OF assms(2)]) (rule counts_IncrConns [OF _ assms(3)])
  have "inst_counts (upd_inst ?i DecrConns (upd_inst ?i IncrConns (sv_manager s))) ((f(?i := Suc (f ?i)))(?i := f ?i))"
    by (rule inst_counts_upd [OF inc]) (rule counts_DecrConns [OF _ assms(3)], simp)
  then have "inst_counts (upd_inst ?i DecrConns (upd_inst ?i IncrConns (sv_manager s))) f" by simp
  with inc assms(1) h g n syn show ?thesis
    by (cases ok) (auto simp: open_split_def route_counts_def tgt Let_def)
qed

lemma open_level_counts:
  assumes "open_level e tgt user ip s = (res, out, s')" "inst_counts (sv_manager s) f" "\<And>i. int (f i) < max_i64"
  shows "route_counts user ip f res s s'"
proof -
  have inc: "inst_counts (upd_inst i IncrConns (sv_manager s)) (f(i := Suc (f i)))" for i
    by (rule inst_counts_upd [OF assms(2)]) (rule counts_IncrConns [OF _ assms(3)])
  show ?thesis using assms(1,2) inc
    by (auto simp: open_level_def route_counts_def Let_def split: prod.splits if_splits pick.splits option.splits)
qed

lemma hang_up_counts:
  assumes "user_counts (sv_userMgr s) (bump user ip f)" "\<And>name. int (f name ip) < max_i64"
    and "sv_activeConns s = int (Suc n)" "int n < max_i64"
  shows "user_counts (sv_userMgr (hang_up now user ip s)) f \<and> sv_activeConns (hang_up now user ip s) = int n
    \<and> sv_manager (hang_up now user ip s) = sv_manager s \<and> sv_maxConnections (hang_up now user ip s) = sv_maxConnections s"
proof -
  have "user_counts (update_user user (MarkDisconnect now ip) (sv_userMgr s)) f"
  proof (cases user)
    case (Some name)
    have "user_ok (MarkDisconnect now ip u) \<and> user_active (MarkDisconnect now ip u) = f name"
      if "user_ok u" "user_active u = bump user ip f name" for u
      using MarkDisconnect_counts [OF that(1), of ip] that(2) assms(2) [of name] Some by (simp add: bump_def max_i64_def)
    from user_counts_update [OF assms(1), of name, OF this] Some show ?thesis by (simp add: bump_def)
  qed (use assms(1) in \<open>simp add: bump_def\<close>)
  then show ?thesis using assms(3,4) by (simp add: hang_up_def i64_id max_i64_def)
qed

lemma conn_open_counts:
  assumes "conn_open e s = (res, out, s')" "inst_counts (sv_manager s) f" "user_counts (sv_userMgr s) g"
    and "\<And>i. int (f i) < max_i64" "\<And>name ip. int (g name ip) < max_i64"
    and "sv_activeConns s = int (Suc n)" "int n < max_i64"
  shows "sv_maxConnections s' = sv_maxConnections s
    \<and> (res = Refused \<longrightarrow> inst_counts (sv_manager s') f \<and> user_counts (sv_userMgr s') g \<and> sv_activeConns s' = int n)
    \<and> (\<forall>ses. res = Opened ses \<longrightarrow> inst_counts (sv_manager s') (f(se_inst ses := Suc (f (se_inst ses))))
         \<and> user_counts (sv_userMgr s') (bump (se_user ses) (se_ip ses) g) \<and> sv_activeConns s' = int (Suc n))"
proof -
  let ?ip = "ce_ip e"
  obtain res1 out1 r1 um where n: "negotiate (ce_now e) ?ip (ce_in e) (sv_userMgr s) = (res1, out1, r1, um)" by (metis prod_cases4)
  note um = user_counts_negotiate [OF n assms(3,5)]
  let ?s1 = "s\<lparr>sv_userMgr := um\<rparr>"
  show ?thesis
  proof (cases res1)
    case None
    then have s': "res = Refused" "s' = hang_up (ce_end e) None ?ip ?s1" using assms(1) n by (simp_all add: conn_open_def)
    have "user_counts (sv_userMgr ?s1) (bump None ?ip g)" using um None by (simp add: bump_def)
    from hang_up_counts [OF this assms(5), of n "ce_end e"] s' assms(2,6,7) show ?thesis by simp
  next
    case (Some user)
    have u1: "user_counts (sv_userMgr ?s1) (bump user ?ip g)" using um Some by simp
    obtain tgt out2 r2 where q: "read_request r1 = (tgt, out2, r2)" by (metis prod_cases3)
    show ?thesis
    proof (cases tgt)
      case None
      then have s': "res = Refused" "s' = hang_up (ce_end e) user ?ip ?s1" using assms(1) n q Some by (simp_all add: conn_open_def)
      from hang_up_counts [OF u1 assms(5), of n "ce_end e"] s' assms(2,6,7) show ?thesis by simp
    next
      case tgt: (Some g')
      obtain res3 out3 s2 where r: "(case sv_split ?s1 of Some sm \<Rightarrow> open_split (ce_route e) g' user ?ip sm ?s1
          | None \<Rightarrow> open_level (ce_route e) g' user ?ip ?s1) = (res3, out3, s2)" by (metis prod_cases3)
      have i1: "inst_counts (sv_manager ?s1) f" using assms(2) by simp
      have rc: "route_counts user ?ip f res3 ?s1 s2"
        using r open_split_counts [OF _ i1 assms(4)] open_level_counts [OF _ i1 assms(4)] by (auto split: option.splits)
      have s': "res = res3" "s' = (if res3 = Refused then hang_up (ce_end e) user ?ip s2 else s2)"
        using assms(1) n q Some tgt r by (auto simp: conn_open_def Let_def split: opened.splits)
      have u2: "user_counts (sv_userMgr s2) (bump user ?ip g)" "sv_activeConns s2 = int (Suc n)"
          "sv_maxConnections s2 = sv_maxConnections s"
        using rc u1 assms(6) by (simp_all add: route_counts_def)
      from hang_up_counts [OF u2(1) assms(5) u2(2) assms(7), of "ce_end e"] s' rc u2 show ?thesis
        by (cases res3) (simp_all add: route_counts_def)
    qed
  qed
qed

text \<open>Traffic changes no connection count.\<close>

definition same_ips :: "User \<Rightarrow> User \<Rightarrow> bool" where
  "same_ips u v \<longleftrightarrow> user_activeIPs v = user_activeIPs u \<and> user_cooldownIPs v = user_cooldownIPs u"

lemma same_ips_refl [simp]: "same_ips u u" and same_ips_trans: "same_ips u v \<Longrightarrow> same_ips v w \<Longrightarrow> same_ips u w"
  by (simp_all add: same_ips_def)

lemma same_ips_add [simp]: "same_ips u (AddUsedBytes n v) \<longleftrightarrow> same_ips u v"
  by (simp add: same_ips_def AddUsedBytes_def)

lemma same_ips_counts: "same_ips u v \<Longrightarrow> user_ok u \<Longrightarrow> user_ok v \<and> user_active v = user_active u"
  by (auto simp: same_ips_def user_ok_def user_active_def activeCount_def fun_eq_iff)

lemma same_ips_writer: "rateLimitedWriter_Write burst out i p sent tot u = (r, sent', u') \<Longrightarrow> same_ips u u'"
proof (induction burst out i p sent tot u rule: rateLimitedWriter_Write.induct)
  case (1 burst out i p sent tot u)
  show ?case
  proof (cases "p = []")
    case True
    with "1.prems" show ?thesis by (simp add: rateLimitedWriter_Write.simps)
  next
    case False
    obtain n err where w: "inner_write (out i) (take (next_chunk burst p) p) = (n, err)" by fastforce
    let ?u = "if 0 < n then AddUsedBytes (int n) u else u"
    have u: "same_ips u ?u" by simp
    show ?thesis
    proof (cases err)
      case None
      have "rateLimitedWriter_Write burst out (Suc i) (drop n p) (sent @ [take n p]) (tot + n) ?u = (r, sent', u')"
        using "1.prems" False w None by (subst (asm) rateLimitedWriter_Write.simps) (simp add: Let_def)
      from "1.IH" [OF False refl w [symmetric] refl refl refl None this] u same_ips_trans show ?thesis by blast
    next
      case (Some e)
      then have "u' = ?u" using "1.prems" False w by (subst (asm) rateLimitedWriter_Write.simps) (simp add: Let_def)
      with u show ?thesis by simp
    qed
  qed
qed

lemma same_ips_copy:
  assumes "\<And>d e c v p e' v'. rd d e c v = ((p, e'), v') \<Longrightarrow> same_ips v v'"
    and "\<And>o' p v r ps v'. wr o' p v = (r, ps, v') \<Longrightarrow> same_ips v v'"
    and "CopyBuffer rd wr cap rs n sent u = (n', sent', u')"
  shows "same_ips u u'"
  using assms(3)
proof (induction rs arbitrary: n sent u)
  case (Cons r rs)
  obtain p er u1 where rd: "rd (cr_data r) (cr_err r) cap u = ((p, er), u1)" by (metis surj_pair)
  obtain k ew ps u2 where wr: "wr (cr_out r) p u1 = ((k, ew), ps, u2)" by (metis surj_pair)
  have s: "same_ips u u1" "same_ips u1 u2" using assms(1) [OF rd] assms(2) [OF wr] .
  note s2 = same_ips_trans [OF s]
  show ?case
  proof (cases "p = []")
    case True
    then show ?thesis using Cons.prems Cons.IH [of n sent u1] rd s(1) by (auto split: if_splits intro: same_ips_trans)
  next
    case False
    then show ?thesis
      using Cons.prems Cons.IH [of "i64 (n + int k)" "sent @ ps" u2] rd wr s2
      by (auto simp: Let_def split: if_splits intro: same_ips_trans)
  qed
qed simp

lemma same_ips_relay:
  assumes "relay bsize up down (Some u) = (a, b, user')"
  shows "\<exists>v. user' = Some v \<and> same_ips u v"
proof (cases "user_limiter u")
  case None
  then show ?thesis using assms by (auto simp: relay_def split: prod.splits)
next
  case (Some lim)
  obtain tx us u1 where up: "CopyBuffer (rateLimitedReader_Read lim) plain_write bsize up 0 [] u = (tx, us, u1)" by (metis prod_cases3)
  obtain rx ds u2 where down: "CopyBuffer plain_read (limited_write lim) bsize down 0 [] u1 = (rx, ds, u2)" by (metis prod_cases3)
  have "same_ips u u1"
    by (rule same_ips_copy [OF _ _ up]) (auto simp: rateLimitedReader_Read_def plain_write_def Let_def)
  moreover have "same_ips u1 u2"
    by (rule same_ips_copy [OF _ _ down]) (auto simp: plain_read_def limited_write_def intro: same_ips_writer)
  ultimately show ?thesis using assms Some up down same_ips_trans by (auto simp: relay_def Wrap_limited)
qed

lemma inst_counts_traffic: "inst_counts m f \<Longrightarrow> inst_counts (upd_inst i (AddRx rx \<circ> AddTx tx) m) f"
  using inst_counts_upd [of m f i "AddRx rx \<circ> AddTx tx" "f i"] by (simp add: AddRx_def AddTx_def)

lemma inst_counts_spread: "inst_counts m f \<Longrightarrow> inst_counts (spread_traffic tx rx xs m) f"
proof -
  have "inst_counts m f \<Longrightarrow> inst_counts (foldl (\<lambda>m inst. upd_inst (inst_id inst) (AddRx b \<circ> AddTx a) m) m ys) f" for a b ys
    by (induction ys arbitrary: m) (simp_all add: inst_counts_traffic)
  then show "inst_counts m f \<Longrightarrow> ?thesis" by (simp add: spread_traffic_def Let_def)
qed

lemma inst_counts_release:
  assumes "inst_counts m (f(i := Suc (f i)))" "int (f i) < max_i64"
    and "\<And>x. inst_activeConns (h x) = inst_activeConns (DecrConns x) \<and> inst_id (h x) = inst_id x"
  shows "inst_counts (upd_inst i h m) f"
  using inst_counts_upd [OF assms(1), of i h "f i"] assms(3) counts_DecrConns [OF _ assms(2)] by auto

text \<open>Changing a session's user without touching its addresses.\<close>

lemma session_user_counts:
  assumes "user_counts (sv_userMgr s) g" "\<And>u. session_user ses s = Some u \<Longrightarrow> same_ips u (h u)"
  shows "user_counts (update_user (se_user ses) h (sv_userMgr s)) g"
proof (cases "session_user ses s")
  case None
  then have "update_user (se_user ses) h (sv_userMgr s) = sv_userMgr s"
    by (auto simp: session_user_def update_user_def split: option.splits)
  with assms(1) show ?thesis by simp
next
  case (Some u)
  then obtain name m where nm: "se_user ses = Some name" "sv_userMgr s = Some m" "GetUser name m = Some u"
    by (auto simp: session_user_def split: option.splits)
  have "user_ok u" "user_active u = g name" using assms(1) nm(2,3) by (auto simp: user_counts_def)
  with same_ips_counts [OF assms(2) [OF Some]] have "user_ok (h u)" "user_active (h u) = g name" by auto
  from user_counts_put [OF assms(1) [unfolded nm(2)] this, of name] nm show ?thesis by (simp add: update_user_def)
qed

lemma conn_done_counts:
  assumes "inst_counts (sv_manager s) (f(se_inst ses := Suc (f (se_inst ses))))"
    and "user_counts (sv_userMgr s) (bump (se_user ses) (se_ip ses) g)"
    and "\<And>i. int (f i) < max_i64" "\<And>name ip. int (g name ip) < max_i64"
    and "sv_activeConns s = int (Suc n)" "int n < max_i64"
  shows "inst_counts (sv_manager (conn_done t ses s)) f \<and> user_counts (sv_userMgr (conn_done t ses s)) g
    \<and> sv_activeConns (conn_done t ses s) = int n \<and> sv_maxConnections (conn_done t ses s) = sv_maxConnections s"
proof -
  let ?i = "se_inst ses"
  note dec = inst_counts_release [of _ f ?i, OF _ assms(3) [of ?i]]
  have end_ok: "inst_counts (sv_manager (hang_up now (se_user ses) (se_ip ses) s2)) f
      \<and> user_counts (sv_userMgr (hang_up now (se_user ses) (se_ip ses) s2)) g
      \<and> sv_activeConns (hang_up now (se_user ses) (se_ip ses) s2) = int n
      \<and> sv_maxConnections (hang_up now (se_user ses) (se_ip ses) s2) = sv_maxConnections s"
    if "inst_counts (sv_manager s2) f" "user_counts (sv_userMgr s2) (bump (se_user ses) (se_ip ses) g)"
      "sv_activeConns s2 = sv_activeConns s" "sv_maxConnections s2 = sv_maxConnections s" for s2 now
    using hang_up_counts [OF that(2) assms(4) _ assms(6), of now] that assms(5) by simp
  note upd = session_user_counts [OF assms(2)]
  show ?thesis
  proof (cases "\<exists>ps sm. se_split ses = Some ps \<and> sv_split s = Some sm")
    case True
    then obtain ps sm where sp: "se_split ses = Some ps" "sv_split s = Some sm" by blast
    obtain st tx sent ps1 p1 where r: "RelayClientToUpstream pool_send (tf_tx t) 0 [] ps (sm_tunnelPool sm) = (st, tx, sent, ps1, p1)"
      by (metis prod_cases5)
    have "user_counts (update_user (se_user ses) (split_charge tx rx) (sv_userMgr s)) (bump (se_user ses) (se_ip ses) g)" for rx
      by (rule upd) (simp add: split_charge_def Let_def)
    moreover have "inst_counts (upd_inst ?i DecrConns (spread_traffic tx rx xs (sv_manager s))) f" for rx xs
      by (rule dec [OF inst_counts_spread [OF assms(1)]]) (simp add: DecrConns_def)
    ultimately show ?thesis unfolding conn_done_def split_done_def by (simp add: sp r Let_def end_ok)
  next
    case False
    then have d: "conn_done t ses s = level_done (tf_up t) (tf_down t) (tf_now t) ses s"
      by (auto simp: conn_done_def split: option.splits)
    obtain tx us rx ds user' where r: "relay (buf_size ?i (sv_manager s)) (tf_up t) (tf_down t) (session_user ses s) = ((tx, us), (rx, ds), user')"
      by (metis surj_pair)
    have "user_counts (case user' of None \<Rightarrow> sv_userMgr s | Some u \<Rightarrow> update_user (se_user ses) (\<lambda>_. u) (sv_userMgr s))
        (bump (se_user ses) (se_ip ses) g)"
    proof (cases user')
      case (Some v)
      have "same_ips u v" if "session_user ses s = Some u" for u
        using same_ips_relay [OF r [unfolded that]] Some by simp
      with Some show ?thesis by (simp add: upd)
    qed (use assms(2) in simp)
    moreover have "inst_counts (upd_inst ?i (DecrConns \<circ> AddRx rx \<circ> AddTx tx) (sv_manager s)) f"
      by (rule dec [OF assms(1)]) (simp add: DecrConns_def AddRx_def AddTx_def)
    ultimately show ?thesis unfolding d level_done_def by (simp add: r end_ok)
  qed
qed

lemma on_counts_Cons:
  "(\<lambda>i. on_inst i (ses # live)) = (\<lambda>i. on_inst i live)(se_inst ses := Suc (on_inst (se_inst ses) live))"
  "(\<lambda>name ip. on_user name ip (ses # live)) = bump (se_user ses) (se_ip ses) (\<lambda>name ip. on_user name ip live)"
  by (auto simp: on_inst_def on_user_def bump_def fun_eq_iff split: option.splits)

lemma filter_remove1: "filter P (remove1 x xs) = (if P x then remove1 x (filter P xs) else filter P xs)"
  by (induction xs) auto

lemma on_counts_remove:
  assumes "ses \<in> set live"
  shows "(\<lambda>i. on_inst i live) = (\<lambda>i. on_inst i (ses # remove1 ses live))"
    "(\<lambda>name ip. on_user name ip live) = (\<lambda>name ip. on_user name ip (ses # remove1 ses live))"
proof -
  have "length (filter P live) = length (filter P (ses # remove1 ses live))" for P
    using assms length_pos_if_in_set [of ses "filter P live"] by (auto simp: filter_remove1 length_remove1)
  then show "(\<lambda>i. on_inst i live) = (\<lambda>i. on_inst i (ses # remove1 ses live))"
    "(\<lambda>name ip. on_user name ip live) = (\<lambda>name ip. on_user name ip (ses # remove1 ses live))"
    unfolding on_inst_def on_user_def by (simp_all only:)
qed

lemma on_counts_bound: "on_inst i live \<le> length live" "on_user name ip live \<le> length live"
  by (simp_all add: on_inst_def on_user_def)

lemma same_counts_inst: "same_counts s t \<Longrightarrow> inst_counts (sv_manager s) f \<Longrightarrow> inst_counts (sv_manager t) f"
proof -
  assume "same_counts s t" and f: "inst_counts (sv_manager s) f"
  then have eq: "map (\<lambda>inst. (inst_id inst, inst_activeConns inst)) (mgr_instances (sv_manager t))
      = map (\<lambda>inst. (inst_id inst, inst_activeConns inst)) (mgr_instances (sv_manager s))" by (simp add: same_counts_def)
  have "inst_counts m f \<longleftrightarrow> (\<forall>p \<in> set (map (\<lambda>inst. (inst_id inst, inst_activeConns inst)) (mgr_instances m)). snd p = int (f (fst p)))" for m
    by (simp add: inst_counts_def)
  note iff = this
  show ?thesis using f unfolding iff eq .
qed

lemma same_counts_user: "same_counts s t \<Longrightarrow> user_counts (sv_userMgr s) f \<Longrightarrow> user_counts (sv_userMgr t) f"
proof -
  assume st: "same_counts s t" and f: "user_counts (sv_userMgr s) f"
  have "user_ok u' \<and> user_active u' = f name" if t: "sv_userMgr t = Some m'" "GetUser name m' = Some u'" for m' name u'
  proof -
    obtain m where m: "sv_userMgr s = Some m" "\<forall>name. rel_option (\<lambda>u u'. user_activeIPs u' = user_activeIPs u
        \<and> gm_ok (user_cooldownIPs u')) (GetUser name m) (GetUser name m')"
      using st unfolding same_counts_def t(1) option_rel_Some2 by (elim conjE exE)
    from m(2) [THEN spec, of name, unfolded t(2) option_rel_Some2] obtain u where u: "GetUser name m = Some u" "user_activeIPs u' = user_activeIPs u" "gm_ok (user_cooldownIPs u')"
      by blast
    then have "user_ok u" "user_active u = f name" using f m(1) by (auto simp: user_counts_def)
    with u(2,3) show ?thesis by (auto simp: user_ok_def user_active_def activeCount_def fun_eq_iff)
  qed
  then show ?thesis by (simp add: user_counts_def)
qed

lemma proxy_inv_small:
  assumes "proxy_inv x" "length live < px_opening x + length (px_live x)"
  shows "(\<forall>i. int (on_inst i live) < max_i64) \<and> (\<forall>name ip. int (on_user name ip live) < max_i64)"
proof -
  have "int (px_opening x + length (px_live x)) \<le> max 0 (sv_maxConnections (px_server x))" "sv_maxConnections (px_server x) < 2 ^ 63"
    using assms(1) by (simp_all add: proxy_inv_def Let_def)
  with assms(2) have "int (length live) < max_i64" by (simp add: max_i64_def)
  then show ?thesis using on_counts_bound(1) [of _ live] on_counts_bound(2) [of _ _ live] by (meson le_less_trans of_nat_mono)
qed

lemma proxy_inv_step:
  assumes "proxy_inv x" "proxy_step x y"
  shows "proxy_inv y"
proof -
  let ?s = "px_server x" and ?live = "px_live x"
  have i: "sv_activeConns ?s = int (px_opening x + length ?live)" "int (px_opening x + length ?live) \<le> max 0 (sv_maxConnections ?s)"
      "sv_maxConnections ?s < 2 ^ 63" "inst_counts (sv_manager ?s) (\<lambda>i. on_inst i ?live)"
      "user_counts (sv_userMgr ?s) (\<lambda>name ip. on_user name ip ?live)"
    using assms(1) by (simp_all add: proxy_inv_def Let_def)
  note small = proxy_inv_small [OF assms(1)]
  from assms(2) show ?thesis
  proof (cases rule: proxy_step.cases)
    case (accept k s')
    then show ?thesis using i by (auto simp: proxy_inv_def accept_conn_def Let_def i64_id split: if_splits)
  next
    case (turn_away s')
    then show ?thesis using i by (auto simp: proxy_inv_def accept_conn_def Let_def split: if_splits)
  next
    case (refuse e out s')
    have a: "sv_activeConns ?s = int (Suc (px_opening x - 1 + length ?live))" "int (px_opening x - 1 + length ?live) < max_i64"
      using i(1,2,3) refuse(2) by (simp_all add: max_i64_def)
    have b: "\<And>i. int (on_inst i ?live) < max_i64" "\<And>name ip. int (on_user name ip ?live) < max_i64"
      using small [of ?live] refuse(2) by simp_all
    from conn_open_counts [OF refuse(3) i(4,5) b a] refuse i show ?thesis by (simp add: proxy_inv_def Let_def)
  next
    case (connect e ses out s')
    have a: "sv_activeConns ?s = int (Suc (px_opening x - 1 + length ?live))" "int (px_opening x - 1 + length ?live) < max_i64"
      using i(1,2,3) connect(2) by (simp_all add: max_i64_def)
    have b: "\<And>i. int (on_inst i ?live) < max_i64" "\<And>name ip. int (on_user name ip ?live) < max_i64"
      using small [of ?live] connect(2) by simp_all
    from conn_open_counts [OF connect(3) i(4,5) b a] connect i show ?thesis by (simp add: proxy_inv_def Let_def on_counts_Cons)
  next
    case (finish ses t)
    let ?rest = "remove1 ses ?live"
    have len: "length ?live = Suc (length ?rest)" using finish(2) length_pos_if_in_set [OF finish(2)] by (simp add: length_remove1)
    then have a: "sv_activeConns ?s = int (Suc (px_opening x + length ?rest))" "int (px_opening x + length ?rest) < max_i64"
      using i(1,2,3) by (simp_all add: max_i64_def)
    have b: "\<And>i. int (on_inst i ?rest) < max_i64" "\<And>name ip. int (on_user name ip ?rest) < max_i64"
      using small [of ?rest] len by simp_all
    from conn_done_counts [OF i(4) [unfolded on_counts_remove(1) [OF finish(2)] on_counts_Cons(1)]
        i(5) [unfolded on_counts_remove(2) [OF finish(2)] on_counts_Cons(2)] b a] finish(1) i len
    show ?thesis by (simp add: proxy_inv_def Let_def)
  next
    case (other s')
    then show ?thesis using i same_counts_inst [OF other(2)] same_counts_user [OF other(2)]
      by (simp add: proxy_inv_def Let_def same_counts_def)
  qed
qed

lemma proxy_inv_init: "proxy_init x \<Longrightarrow> proxy_inv x"
  by (simp add: proxy_init_def proxy_inv_def Let_def on_inst_def on_user_def)

interpretation proxy: invariant_system proxy_init proxy_step proxy_inv
  using proxy_inv_init proxy_inv_step by unfold_locales

subsection \<open>Who is connected\<close>

lemma pick_at_mem: "pick_at xs i = Picked inst \<Longrightarrow> inst \<in> set xs"
  by (auto simp: pick_at_def split: option.splits dest: go_index_mem)

lemma Pick_mem: "Pick intn b xs = (Picked inst, b') \<Longrightarrow> inst \<in> set xs"
  by (cases b)
    (auto simp: RoundRobin_Pick_def Random_Pick_def LeastPing_Pick_def LeastLoad_Pick_def WeightedRoundRobin_Pick_def Let_def
      split: if_splits option.splits prod.splits wrr_result.splits dest!: least_loop_mem pick_at_mem)

lemma open_split_Opened:
  "open_split e tgt user ip sm s = (Opened ses, out, s') \<Longrightarrow>
     out = [socks_reply 0x00] \<and> se_user ses = user \<and> se_ip ses = ip
     \<and> (\<exists>inst \<in> set (socksHealthy (sv_manager s)). inst_id inst = se_inst ses)"
  by (auto simp: open_split_def Let_def split: prod.splits list.splits if_splits bool.splits)

lemma open_level_Opened:
  "open_level e tgt user ip s = (Opened ses, out, s') \<Longrightarrow>
     out = [socks_reply 0x00] \<and> se_user ses = user \<and> se_ip ses = ip
     \<and> (\<exists>inst \<in> set (socksHealthy (sv_manager s)). inst_id inst = se_inst ses)"
  by (auto simp: open_level_def Let_def split: prod.splits if_splits pick.splits option.splits dest: Pick_mem)

lemma conn_open_Opened:
  assumes "conn_open e s = (Opened ses, out, s')"
  obtains user out1 r1 um tgt r2 where "negotiate (ce_now e) (ce_ip e) (ce_in e) (sv_userMgr s) = (Some user, out1, r1, um)"
    "read_request r1 = (Some tgt, [], r2)" "out = out1 @ [socks_reply 0x00]" "se_user ses = user" "se_ip ses = ce_ip e"
    "\<exists>inst \<in> set (socksHealthy (sv_manager s)). inst_id inst = se_inst ses"
proof -
  obtain res out1 r1 um where n: "negotiate (ce_now e) (ce_ip e) (ce_in e) (sv_userMgr s) = (res, out1, r1, um)" by (metis prod_cases4)
  with assms obtain user where u: "res = Some user" by (cases res) (auto simp: conn_open_def)
  obtain t out2 r2 where q: "read_request r1 = (t, out2, r2)" by (metis prod_cases3)
  with assms n u obtain tgt where t: "t = Some tgt" by (cases t) (auto simp: conn_open_def)
  let ?s1 = "s\<lparr>sv_userMgr := um\<rparr>"
  obtain res3 out3 s2 where r: "(case sv_split ?s1 of Some sm \<Rightarrow> open_split (ce_route e) tgt user (ce_ip e) sm ?s1
      | None \<Rightarrow> open_level (ce_route e) tgt user (ce_ip e) ?s1) = (res3, out3, s2)" by (metis prod_cases3)
  have o: "res3 = Opened ses" "out = out1 @ out2 @ out3"
    using assms n u q t r by (auto simp: conn_open_def Let_def split: opened.splits)
  have "out2 = []" using q [unfolded t] by (cases tgt) (auto simp: read_request_iff)
  moreover have "out3 = [socks_reply 0x00] \<and> se_user ses = user \<and> se_ip ses = ce_ip e
      \<and> (\<exists>inst \<in> set (socksHealthy (sv_manager s)). inst_id inst = se_inst ses)"
    using r [unfolded o(1)] open_split_Opened [of _ tgt user _ _ ?s1] open_level_Opened [of _ tgt user _ ?s1]
    by (auto split: option.splits)
  ultimately show thesis using that n u q t o by auto
qed

subsection \<open>Properties\<close>

text \<open>
  C15. The relay is exact: when no write fails, the upstream gets the bytes the client sent and the client those the
  upstream sent, up to the first read that reports an error, and the quota of the user, rate-limited or not, is charged
  exactly the bytes of both directions.
\<close>

theorem relay_exact:
  assumes "all_written up" "all_written down" "- (2 ^ 63) \<le> user_usedBytes u" "user_usedBytes u < 2 ^ 63"
    and "relay_sizes bsize (Some u) = (su, sd)"
  shows "\<exists>tx us rx ds u'. relay bsize up down (Some u) = ((tx, us), (rx, ds), Some u')
    \<and> concat us = copied su up \<and> concat ds = copied sd down
    \<and> user_usedBytes u' = i64 (user_usedBytes u + int (length (copied su up)) + int (length (copied sd down)))"
proof -
  have "\<forall>v. Some u = Some v \<longrightarrow> user_usedBytes v = i64 (user_usedBytes v)" using assms(3,4) by (simp add: i64_id)
  from relay_copies [OF assms(1,2) this assms(5)] show ?thesis by (elim exE conjE) auto
qed

definition limited_user :: User where
  "limited_user = (new_user (sample_user 1))\<lparr>user_limiter := Some \<lparr>lim_limit = 10000, lim_burst = 10000\<rparr>\<rparr>"

theorem relay_exact_witness:
  "\<exists>tx us rx ds u'. relay 65536 [\<lparr>cr_data = [1, 2, 3], cr_err = Some EOF, cr_out = (\<lambda>_. WroteAll)\<rparr>]
      [\<lparr>cr_data = [9], cr_err = Some EOF, cr_out = (\<lambda>_. WroteAll)\<rparr>] (Some limited_user) = ((tx, us), (rx, ds), Some u')
    \<and> concat us = [1, 2, 3] \<and> concat ds = [9] \<and> user_usedBytes u' = 4"
proof -
  have "relay_sizes 65536 (Some limited_user) = (10000, 65536)"
    by (simp add: relay_sizes_def limited_user_def limited_size_def)
  moreover have "user_usedBytes limited_user = 0" by (simp add: limited_user_def new_user_def)
  ultimately show ?thesis
    using relay_exact [of "[\<lparr>cr_data = [1, 2, 3], cr_err = Some EOF, cr_out = (\<lambda>_. WroteAll)\<rparr>]"
        "[\<lparr>cr_data = [9], cr_err = Some EOF, cr_out = (\<lambda>_. WroteAll)\<rparr>]" limited_user 65536 10000 65536]
    by (simp add: all_written_def i64_id)
qed

text \<open>
  In packet-split mode a rate-limited user pays twice: the wrappers charge every byte, and the handler charges the sum
  again when the connection ends.  Other users pay once.
\<close>

theorem split_charges_limited_twice:
  assumes "list_all event_written es"
  shows "user_usedBytes (split_charge tx (snd (RelayUpstreamToClient es (rx_init t))) u) =
    i64 (user_usedBytes u + (if NeedsRateLimit u then 2 else 1) * (tx + rx_total (snd (RelayUpstreamToClient es (rx_init t)))))"
proof -
  let ?rx = "snd (RelayUpstreamToClient es (rx_init t))"
  have "rx_counted (rx_init t)" by (simp add: rx_counted_def rx_init_def i64_id)
  then have c: "rx_total ?rx = i64 (int (length (concat (rx_client ?rx))))"
    using rx_counted_relay [OF _ assms] by (simp add: rx_counted_def)
  have "i64 (i64 (i64 (x + tx) + l) + i64 (tx + i64 l)) = i64 (x + 2 * (tx + i64 l))" for x l
    using i64_add_left [of "tx + i64 l" "i64 (i64 (x + tx) + l)"] i64_add_left [of "i64 (x + tx) + l" "tx + i64 l"]
      i64_add_left [of "x + tx" "l + tx + i64 l"] i64_add_left [of l "x + 2 * tx + i64 l"]
      i64_add_left [of l "x + 2 * tx + l"]
    by (simp add: algebra_simps)
  moreover have "i64 (x + i64 (tx + i64 l)) = i64 (x + (tx + i64 l))" for x l
    using i64_add_left [of "tx + i64 l" x] by (simp add: algebra_simps)
  ultimately show ?thesis unfolding split_charge_def c by (simp add: AddUsedBytes_def Let_def)
qed

theorem split_charges_limited_twice_witness:
  "user_usedBytes (split_charge 5 (snd (RelayUpstreamToClient [RxDone] (rx_init 0))) limited_user) = 10"
  using split_charges_limited_twice [of "[RxDone]" 5 0 limited_user]
  by (simp add: limited_user_def NeedsRateLimit_def new_user_def rx_init_def i64_id)

definition sample_env :: conn_env where
  "sample_env =
     \<lparr>ce_in = \<lparr>rd_data = greeting [0x02] @ userpass 1 (string_bytes ''ann'') (string_bytes ''pw'')
         @ connect_message 0x05 0 0x01 [10, 0, 0, 1] [0, 80], rd_end = EOF\<rparr>,
      ce_remote = ''192.0.2.7:50000'', ce_now = 0, ce_end = 0,
      ce_route = \<lparr>re_syn = (\<lambda>_. (\<lambda>_. WroteAll, 0)), re_fin = (\<lambda>_. (\<lambda>_. WroteAll, 0)), re_rnd = (\<lambda>_. 0), re_dial = True,
         re_out = WroteAll, re_up = \<lparr>rd_data = [5, 0, 5, 0, 0, 1, 0, 0, 0, 0, 0, 0], rd_end = EOF\<rparr>\<rparr>\<rparr>"

definition sample_proxy :: Server where
  "sample_proxy = NewServer ''127.0.0.1:1080'' 65536 100
     \<lparr>mgr_instances = [SetState StateHealthy sample_instance], mgr_binary = ''slipstream'', mgr_bufferSize = 65536, mgr_ctxDone = False\<rparr>
     (New ''round_robin'') (Some (NewUserManager [sample_user 1]))"

definition sample_session :: session where
  "sample_session = \<lparr>se_user = Some ''ann'', se_ip = ''192.0.2.7'', se_inst = 0, se_split = None\<rparr>"

lemma sample_opens: "\<exists>out s'. conn_open sample_env (snd (accept_conn sample_proxy)) = (Opened sample_session, out, s')"
proof -
  let ?m = "NewUserManager [sample_user 1]" and ?u = "new_user (sample_user 1)"
  let ?r2 = "\<lparr>rd_data = userpass 1 (string_bytes ''ann'') (string_bytes ''pw'')
         @ connect_message 0x05 0 0x01 [10, 0, 0, 1] [0, 80], rd_end = EOF\<rparr>"
  let ?r3 = "\<lparr>rd_data = connect_message 0x05 0 0x01 [10, 0, 0, 1] [0, 80], rd_end = EOF\<rparr>"
  have m: "HasUsers ?m" "gm_get (um_users ?m) ''ann'' = Some ?u"
    by (simp_all add: NewUserManager_def HasUsers_def sample_user_def gm_len_def gm_put_def gm_get_def)
  have "greeted [0x02] (ce_in sample_env) ?r2" by (simp add: greeted_def sample_env_def)
  moreover have "read_userpass ?r2 = (Some (''ann'', ''pw''), ?r3)"
    unfolding read_userpass_iff
    by (rule exI [of _ 1], rule exI [of _ "string_bytes ''ann''"], rule exI [of _ "string_bytes ''pw''"]) simp
  moreover have "Authenticate ''ann'' ''pw'' ?m = Some ?u" using m(2) by (simp add: Authenticate_def new_user_def sample_user_def)
  moreover obtain u1 where "CheckConnect 0 ''192.0.2.7'' ?u = (None, u1)"
    by (simp add: CheckConnect_def new_user_def sample_user_def DataLimitBytes_def activeCount_def gm_filter_def gm_len_def Let_def)
  ultimately have "negotiate 0 ''192.0.2.7'' (ce_in sample_env) (Some ?m) = (Some (Some ''ann''), [[0x05, 0x02], [0x01, 0x00]], ?r3,
      Some (put_user ''ann'' (MarkConnect ''192.0.2.7'' u1) ?m))"
    unfolding negotiate_auth [OF m(1)] by (intro exI conjI refl) (assumption | simp)+
  then obtain um where n: "negotiate 0 ''192.0.2.7'' (ce_in sample_env) (Some ?m)
      = (Some (Some ''ann''), [[0x05, 0x02], [0x01, 0x00]], ?r3, um)" ..
  have q: "read_request ?r3 = (Some (1, [10, 0, 0, 1], [0, 80]), [], \<lparr>rd_data = [], rd_end = EOF\<rparr>)"
    unfolding read_request_iff by (auto simp: valid_addr_def)
  have o: "\<exists>out s'. open_level (ce_route sample_env) (1, [10, 0, 0, 1], [0, 80]) (Some ''ann'') ''192.0.2.7''
      ((snd (accept_conn sample_proxy))\<lparr>sv_userMgr := um\<rparr>) = (Opened sample_session, out, s')"
    by (simp add: open_level_def accept_conn_def sample_proxy_def NewServer_def socksHealthy_def HealthyInstances_def IsHealthy_def
      SetState_def sample_instance_def NewInstance_def New_def RoundRobin_Pick_def pick_at_def go_index_def sample_env_def
      upstream_status_def inner_write_def ReadFull_def sample_session_def Let_def)
  obtain out s' where o': "open_level (ce_route sample_env) (1, [10, 0, 0, 1], [0, 80]) (Some ''ann'') ''192.0.2.7''
      ((snd (accept_conn sample_proxy))\<lparr>sv_userMgr := um\<rparr>) = (Opened sample_session, out, s')" using o by (elim exE)
  have "ce_now sample_env = 0" "ce_ip sample_env = ''192.0.2.7''" "sv_userMgr (snd (accept_conn sample_proxy)) = Some ?m"
      "sv_split (snd (accept_conn sample_proxy)) = None"
    by (simp_all add: ce_ip_def ExtractIP_def SplitHostPort_def Let_def sample_env_def accept_conn_def sample_proxy_def NewServer_def)
  then show ?thesis by (simp add: conn_open_def n q o' Let_def)
qed

text \<open>
  C7. The counters of the proxy are exact, however its connections interleave: the number of active connections is that of
  the handlers that run and never exceeds the maximum, every instance counts the connections relayed through it,
  and every user the live connections of each address, through every refusal, failure and normal end.
\<close>

theorem proxy_counts_exact:
  assumes "proxy_init x0" "proxy_step\<^sup>*\<^sup>* x0 x"
  shows "ActiveConnections (px_server x) = int (px_opening x + length (px_live x))
    \<and> ActiveConnections (px_server x) \<le> max 0 (sv_maxConnections (px_server x))
    \<and> (\<forall>inst \<in> set (mgr_instances (sv_manager (px_server x))). inst_activeConns inst = int (on_inst (inst_id inst) (px_live x)))
    \<and> (\<forall>m name u ip. sv_userMgr (px_server x) = Some m \<and> GetUser name m = Some u \<longrightarrow> user_active u ip = on_user name ip (px_live x))"
proof -
  have "proxy_inv x" by (rule proxy.reachable_inv [OF assms])
  then show ?thesis by (auto simp: proxy_inv_def ActiveConnections_def inst_counts_def user_counts_def Let_def)
qed

definition sample_sys :: proxy_sys where
  "sample_sys = \<lparr>px_server = sample_proxy, px_opening = 0, px_live = []\<rparr>"

lemma sample_sys_init: "proxy_init sample_sys"
proof -
  have "gm_get (um_users (NewUserManager [sample_user 1])) name = Some u \<Longrightarrow> u = new_user (sample_user 1)" for name u
    by (simp add: NewUserManager_def gm_put_def gm_get_def split: if_splits)
  moreover have "user_ok (new_user (sample_user 1)) \<and> user_active (new_user (sample_user 1)) = (\<lambda>_. 0)"
    by (simp add: new_user_def user_ok_def user_active_def activeCount_def fun_eq_iff gm_ok_def)
  ultimately have "user_counts (Some (NewUserManager [sample_user 1])) (\<lambda>name ip. 0)"
    by (auto simp: user_counts_def GetUser_def)
  moreover have "inst_counts (sv_manager sample_proxy) (\<lambda>i. 0)"
    by (simp add: inst_counts_def sample_proxy_def NewServer_def SetState_def sample_instance_def NewInstance_def)
  ultimately show ?thesis by (simp add: proxy_init_def sample_sys_def) (simp add: sample_proxy_def NewServer_def)
qed

lemma sample_sys_connects:
  "\<exists>x. proxy_step\<^sup>*\<^sup>* sample_sys x \<and> px_opening x = 0 \<and> px_live x = [sample_session]"
proof -
  let ?s1 = "snd (accept_conn sample_proxy)"
  let ?x1 = "sample_sys\<lparr>px_server := ?s1, px_opening := 1\<rparr>"
  have "accept_conn sample_proxy = (Some 1, ?s1)" by (simp add: accept_conn_def sample_proxy_def NewServer_def Let_def)
  then have 1: "proxy_step sample_sys ?x1"
    using proxy_step.accept [of sample_sys 1 ?s1] by (simp add: sample_sys_def)
  obtain out s' where "conn_open sample_env ?s1 = (Opened sample_session, out, s')" using sample_opens by (elim exE)
  then have 2: "proxy_step ?x1 (?x1\<lparr>px_server := s', px_opening := px_opening ?x1 - 1, px_live := sample_session # px_live ?x1\<rparr>)"
    by (intro proxy_step.connect) simp_all
  from 1 2 show ?thesis
    by (intro exI [of _ "?x1\<lparr>px_server := s', px_opening := px_opening ?x1 - 1, px_live := sample_session # px_live ?x1\<rparr>"])
      (auto simp: sample_sys_def)
qed

theorem proxy_counts_exact_witness:
  "\<exists>x. proxy_step\<^sup>*\<^sup>* sample_sys x \<and> px_live x = [sample_session] \<and> ActiveConnections (px_server x) = 1"
proof -
  obtain x where x: "proxy_step\<^sup>*\<^sup>* sample_sys x" "px_opening x = 0" "px_live x = [sample_session]"
    using sample_sys_connects by (elim exE conjE)
  from proxy_counts_exact [OF sample_sys_init x(1)] x show ?thesis by (intro exI [of _ x]) simp
qed

text \<open>
  C14. A client that is told that it is connected has sent a well-formed greeting and a CONNECT request for a well-formed target,
  to a proxy that has a healthy SOCKS instance; when users are configured it has offered password
  authentication, given the credentials of a user, and passed that user's quota and address limits.
\<close>

theorem conn_open_admits:
  assumes "conn_open e s = (Opened ses, out, s')"
  shows "\<exists>methods r0 r1 atyp addr port.
      greeted methods (ce_in e) r0
    \<and> (if requireAuth (sv_userMgr s)
       then \<exists>m name pw u. sv_userMgr s = Some m \<and> 0x02 \<in> set methods \<and> read_userpass r0 = (Some (name, pw), r1)
         \<and> Authenticate name pw m = Some u \<and> fst (CheckConnect (ce_now e) (ce_ip e) u) = None \<and> se_user ses = Some name
       else r1 = r0 \<and> se_user ses = None)
    \<and> (\<exists>ver rsv rest. rd_data r1 = connect_message ver rsv atyp addr port @ rest)
    \<and> valid_addr atyp addr \<and> length port = 2 \<and> last out = socks_reply 0x00
    \<and> (\<exists>inst \<in> set (socksHealthy (sv_manager s)). inst_id inst = se_inst ses)"
proof -
  obtain user out1 r1 um atyp addr port r2 where
    c: "negotiate (ce_now e) (ce_ip e) (ce_in e) (sv_userMgr s) = (Some user, out1, r1, um)"
    "read_request r1 = (Some (atyp, addr, port), [], r2)" "out = out1 @ [socks_reply 0x00]" "se_user ses = user"
    "\<exists>inst \<in> set (socksHealthy (sv_manager s)). inst_id inst = se_inst ses"
    using conn_open_Opened [OF assms] by (metis prod_cases3)
  note q = c(2) [unfolded read_request_iff]
  show ?thesis
  proof (cases "requireAuth (sv_userMgr s)")
    case False
    from c(1) [unfolded negotiate_open [OF False]] obtain methods where "greeted methods (ce_in e) r1" "user = None" by blast
    with False q c(3,4,5) show ?thesis
      by - (rule exI [of _ methods], rule exI [of _ r1], rule exI [of _ r1], rule exI [of _ atyp],
        rule exI [of _ addr], rule exI [of _ port], auto)
  next
    case True
    then obtain m where m: "sv_userMgr s = Some m" "HasUsers m" by (auto simp: requireAuth_def split: option.splits)
    from c(1) [unfolded m(1) negotiate_auth [OF m(2)]] obtain methods r0 name pw u u1 where
      a: "greeted methods (ce_in e) r0" "0x02 \<in> set methods" "read_userpass r0 = (Some (name, pw), r1)"
      "Authenticate name pw m = Some u" "CheckConnect (ce_now e) (ce_ip e) u = (None, u1)" "user = Some name"
      by (elim exE conjE)
    with True m(1) q c(3,4,5) show ?thesis
      by - (rule exI [of _ methods], rule exI [of _ r0], rule exI [of _ r1], rule exI [of _ atyp],
        rule exI [of _ addr], rule exI [of _ port], auto)
  qed
qed

theorem conn_open_admits_witness:
  "\<exists>e s out s' inst. conn_open e s = (Opened sample_session, out, s') \<and> last out = socks_reply 0x00
    \<and> inst \<in> set (socksHealthy (sv_manager s)) \<and> inst_id inst = 0"
proof -
  obtain out s' where o: "conn_open sample_env (snd (accept_conn sample_proxy)) = (Opened sample_session, out, s')"
    using sample_opens by (elim exE)
  from conn_open_admits [OF o] have "last out = socks_reply 0x00"
      "\<exists>inst \<in> set (socksHealthy (sv_manager (snd (accept_conn sample_proxy)))). inst_id inst = 0"
    by (auto simp: sample_session_def)
  with o show ?thesis by blast
qed

end
