(* ===== verification/Passthrough.thy ===== *)
theory Passthrough
  imports Central Proxy "HOL-Library.Sublist"
begin

text \<open>
  \<^verbatim>\<open>handleSOCKS5Passthrough\<close> of \<^verbatim>\<open>cmd/centralserver/server.go\<close>: a connection whose first byte is that of a SOCKS5 greeting is joined with
  the upstream proxy.  Unlike the relay of \<^verbatim>\<open>internal/proxy\<close>, which waits for both directions, the handler returns when the
  first direction has ended and closes both connections.
\<close>

text \<open>Which direction ends first, and how many rounds the other has done when the connections are closed.\<close>

datatype first_done = ClientDone nat | UpstreamDone nat

definition plain_sent :: "copy_round list \<Rightarrow> bytes" where
  "plain_sent rs = (case CopyBuffer plain_read plain_write 32768 rs 0 [] () of (n, sent, u) \<Rightarrow> concat sent)"

text \<open>The bytes the upstream and the client receive; the result of writing the first byte is ignored.\<close>

definition handleSOCKS5Passthrough ::
  "bool \<Rightarrow> write_outcome \<Rightarrow> byte \<Rightarrow> copy_round list \<Rightarrow> copy_round list \<Rightarrow> first_done \<Rightarrow> bytes \<times> bytes" where
  "handleSOCKS5Passthrough dialed out firstByte up down who =
     (if \<not> dialed then ([], [])
      else
        let greeting = take (fst (inner_write out [firstByte])) [firstByte]
        in case who of
             ClientDone n \<Rightarrow> (greeting @ plain_sent up, plain_sent (take n down))
           | UpstreamDone n \<Rightarrow> (greeting @ plain_sent (take n up), plain_sent down))"

lemma plain_sent_copied: "all_written rs \<Longrightarrow> plain_sent rs = copied 32768 rs"
  using plain_copy.copies [of rs 32768 0 "[]" "()"] by (auto simp: plain_sent_def i64_id)

lemma all_written_take: "all_written rs \<Longrightarrow> all_written (take n rs)"
  by (auto simp: all_written_def dest: in_set_takeD)

lemma copied_take: "prefix (copied sz (take n rs)) (copied sz rs)"
  by (induction rs arbitrary: n) (auto simp: take_Cons split: nat.split)

text \<open>
  Passing through is transparent up to the first end of a direction: that direction is complete, in order and unchanged, the first
  byte of the client included; of the other direction the peer has received a prefix.
\<close>

theorem passthrough_prefixes:
  assumes "all_written up" "all_written down"
    and "handleSOCKS5Passthrough True WroteAll b up down who = (to_upstream, to_client)"
  shows "case who of
      ClientDone n \<Rightarrow> to_upstream = b # copied 32768 up \<and> prefix to_client (copied 32768 down)
    | UpstreamDone n \<Rightarrow> prefix to_upstream (b # copied 32768 up) \<and> to_client = copied 32768 down"
proof (cases who)
  case (ClientDone n)
  then show ?thesis
    using assms plain_sent_copied [OF assms(1)] plain_sent_copied [OF all_written_take [OF assms(2), of n]] copied_take [of 32768 n down]
    by (auto simp: handleSOCKS5Passthrough_def inner_write_def Let_def)
next
  case (UpstreamDone n)
  then show ?thesis
    using assms plain_sent_copied [OF assms(2)] plain_sent_copied [OF all_written_take [OF assms(1), of n]] copied_take [of 32768 n up]
    by (auto simp: handleSOCKS5Passthrough_def inner_write_def Let_def)
qed

definition said :: "bytes \<Rightarrow> copy_round" where
  "said d = \<lparr>cr_data = d, cr_err = None, cr_out = (\<lambda>_. WroteAll)\<rparr>"

theorem passthrough_prefixes_witness:
  "prefix (snd (handleSOCKS5Passthrough True WroteAll 5 [said [1, 0]] [said [5, 0], said [7]] (ClientDone 1))) [5, 0, 7]
     \<and> fst (handleSOCKS5Passthrough True WroteAll 5 [said [1, 0]] [said [5, 0], said [7]] (ClientDone 1)) = [5, 1, 0]"
proof -
  let ?r = "handleSOCKS5Passthrough True WroteAll 5 [said [1, 0]] [said [5, 0], said [7]] (ClientDone 1)"
  have "all_written [said [1, 0]]" "all_written [said [5, 0], said [7]]" by (simp_all add: all_written_def said_def)
  from passthrough_prefixes [OF this, of 5 "ClientDone 1" "fst ?r" "snd ?r"] show ?thesis by (simp add: said_def)
qed

text \<open>
  A client that closes its sending side after its request, which the half-close in the handler is meant to support, loses the
  reply: the first direction ends, and both connections are closed before the upstream has answered.
\<close>

theorem half_close_loses_reply:
  "\<exists>up down. all_written up \<and> all_written down \<and> copied 32768 down \<noteq> []
     \<and> snd (handleSOCKS5Passthrough True WroteAll b up down (ClientDone 0)) = []"
proof -
  have "all_written []" "all_written [said [5, 0]]" "copied 32768 [said [5, 0]] \<noteq> []"
    by (simp_all add: all_written_def said_def)
  moreover have "snd (handleSOCKS5Passthrough True WroteAll b [] [said [5, 0]] (ClientDone 0)) = []"
    by (simp add: handleSOCKS5Passthrough_def plain_sent_def Let_def)
  ultimately show ?thesis by blast
qed

end
