(* ===== verification/Idle.thy ===== *)
theory Idle
  imports Proxy
begin

text \<open>
  \<^verbatim>\<open>internal/proxy/idle.go\<close>: the connections of a relay with an idle timeout.  Every \<^verbatim>\<open>Read\<close> sets a read deadline of its own before it
  waits, every \<^verbatim>\<open>Write\<close> a write deadline.  What a peer sends is a list of reads, each with how long it lets the reader wait.
\<close>

definition idleTimeout :: duration where
  "idleTimeout = 5 * 60 * second"

text \<open>
  One round of a copy: how long the source lets the reader wait, how long the destination lets the writer wait, and what is read and
  written without a deadline.
\<close>

record idle_event =
  ie_read :: duration
  ie_write :: duration
  ie_round :: copy_round

record idleConn =
  ic_events :: "idle_event list"
  ic_timeout :: duration

definition newIdleConn :: "idle_event list \<Rightarrow> duration \<Rightarrow> idleConn" where
  "newIdleConn c timeout = \<lparr>ic_events = c, ic_timeout = timeout\<rparr>"

definition deadlineExceeded :: io_error where
  "deadlineExceeded = OtherErr ''i/o timeout''"

definition idleConn_Read :: "idleConn \<Rightarrow> idle_event \<Rightarrow> bytes \<times> io_error option" where
  "idleConn_Read c ev =
     (if ie_read ev < ic_timeout c then (cr_data (ie_round ev), cr_err (ie_round ev)) else ([], Some deadlineExceeded))"

definition idleConn_Write :: "idleConn \<Rightarrow> idle_event \<Rightarrow> nat \<Rightarrow> write_outcome" where
  "idleConn_Write c ev k = (if ie_write ev < ic_timeout c then cr_out (ie_round ev) k else WroteSome 0 deadlineExceeded)"

text \<open>The rounds of a copy from one such connection to another, and the relay of a connection without rate limit.\<close>

definition idle_round :: "idleConn \<Rightarrow> idleConn \<Rightarrow> idle_event \<Rightarrow> copy_round" where
  "idle_round dst src ev =
     \<lparr>cr_data = fst (idleConn_Read src ev), cr_err = snd (idleConn_Read src ev), cr_out = idleConn_Write dst ev\<rparr>"

definition idle_rounds :: "idleConn \<Rightarrow> idleConn \<Rightarrow> copy_round list" where
  "idle_rounds dst src = map (idle_round dst src) (ic_events src)"

definition idle_relay ::
  "idle_event list \<Rightarrow> idle_event list \<Rightarrow> (int \<times> bytes list) \<times> (int \<times> bytes list) \<times> User option" where
  "idle_relay client upstream =
     (let idleClient = newIdleConn client idleTimeout; idleUpstream = newIdleConn upstream idleTimeout
      in relay 0 (idle_rounds idleUpstream idleClient) (idle_rounds idleClient idleUpstream) None)"

subsection \<open>A direction ends with its own silence\<close>

text \<open>A round that no deadline touches and that writes everything.\<close>

definition prompt :: "idle_event \<Rightarrow> bool" where
  "prompt ev \<longleftrightarrow> ie_read ev < idleTimeout \<and> ie_write ev < idleTimeout \<and> (\<forall>k. cr_out (ie_round ev) k = WroteAll)"

lemma idle_round_prompt:
  "prompt ev \<Longrightarrow> ic_timeout src = idleTimeout \<Longrightarrow> ic_timeout dst = idleTimeout \<Longrightarrow> idle_round dst src ev = ie_round ev"
  by (cases "ie_round ev") (simp add: prompt_def idle_round_def idleConn_Read_def idleConn_Write_def fun_eq_iff)

lemma idle_rounds_prompt:
  "list_all prompt c \<Longrightarrow> ic_timeout dst = idleTimeout \<Longrightarrow> idle_rounds dst (newIdleConn c idleTimeout) = map ie_round c"
  by (simp add: idle_rounds_def newIdleConn_def list_all_iff idle_round_prompt)

lemma prompt_written: "list_all prompt c \<Longrightarrow> all_written (map ie_round c)"
  by (auto simp: all_written_def list_all_iff prompt_def)

text \<open>A copy ends with a read that has nothing but an error.\<close>

lemma CopyBuffer_cut:
  "cr_data r = [] \<Longrightarrow> cr_err r \<noteq> None \<Longrightarrow> CopyBuffer plain_read wr cap (rs @ r # rest) n sent u = CopyBuffer plain_read wr cap rs n sent u"
  by (induction rs arbitrary: n sent u) (auto simp: plain_read_def Let_def split: prod.splits)

lemma idle_rounds_silent:
  assumes "list_all prompt up" "idleTimeout \<le> ie_read ev" "ic_timeout dst = idleTimeout"
  shows "\<exists>r rest. idle_rounds dst (newIdleConn (up @ ev # later) idleTimeout) = map ie_round up @ r # rest
    \<and> cr_data r = [] \<and> cr_err r \<noteq> None"
proof -
  let ?c = "newIdleConn (up @ ev # later) idleTimeout"
  have "map (idle_round dst ?c) up = map ie_round up"
    using assms(1,3) by (simp add: list_all_iff idle_round_prompt newIdleConn_def)
  then have "idle_rounds dst ?c = map ie_round up @ idle_round dst ?c ev # map (idle_round dst ?c) later"
    by (simp add: idle_rounds_def newIdleConn_def)
  moreover have "cr_data (idle_round dst ?c ev) = []" "cr_err (idle_round dst ?c ev) \<noteq> None"
    using assms(2) by (simp_all add: idle_round_def idleConn_Read_def newIdleConn_def)
  ultimately show ?thesis by blast
qed

text \<open>
  The idle timeout works on each direction alone.  When a client has been silent for five minutes its direction ends, with what
  it had sent before, whatever it sends later and however much data flows to it in the meantime; the other direction goes on unharmed, over a
  connection whose sending side the relay then closes.
\<close>

theorem idle_direction_alone:
  assumes "list_all prompt up" "list_all prompt down" "idleTimeout \<le> ie_read ev"
  shows "\<exists>us ds. idle_relay (up @ ev # later) down =
      ((i64 (int (length (copied 32768 (map ie_round up)))), us), (i64 (int (length (copied 32768 (map ie_round down)))), ds), None)
    \<and> concat us = copied 32768 (map ie_round up) \<and> concat ds = copied 32768 (map ie_round down)"
proof -
  let ?c = "newIdleConn (up @ ev # later) idleTimeout" and ?u = "newIdleConn down idleTimeout"
  have t: "ic_timeout ?c = idleTimeout" "ic_timeout ?u = idleTimeout" by (simp_all add: newIdleConn_def)
  obtain r rest where r: "idle_rounds ?u ?c = map ie_round up @ r # rest" "cr_data r = []" "cr_err r \<noteq> None"
    using idle_rounds_silent [OF assms(1,3) t(2)] by blast
  note d = idle_rounds_prompt [OF assms(2) t(1)]
  obtain us where us: "CopyBuffer plain_read plain_write 32768 (map ie_round up) 0 [] ()
      = (i64 (int (length (copied 32768 (map ie_round up)))), us, ())" "concat us = copied 32768 (map ie_round up)"
    using plain_copies [OF prompt_written [OF assms(1)]] by blast
  obtain ds where ds: "CopyBuffer plain_read plain_write 32768 (map ie_round down) 0 [] ()
      = (i64 (int (length (copied 32768 (map ie_round down)))), ds, ())" "concat ds = copied 32768 (map ie_round down)"
    using plain_copies [OF prompt_written [OF assms(2)]] by blast
  have "idle_relay (up @ ev # later) down =
      ((i64 (int (length (copied 32768 (map ie_round up)))), us), (i64 (int (length (copied 32768 (map ie_round down)))), ds), None)"
    by (simp add: idle_relay_def relay_def d r(1) CopyBuffer_cut [OF r(2,3)] us(1) ds(1) Let_def)
  with us(2) ds(2) show ?thesis by simp
qed

definition sample_event :: "duration \<Rightarrow> bytes \<Rightarrow> idle_event" where
  "sample_event wait d = \<lparr>ie_read = wait, ie_write = 0, ie_round = \<lparr>cr_data = d, cr_err = None, cr_out = (\<lambda>_. WroteAll)\<rparr>\<rparr>"

theorem idle_direction_alone_witness:
  "\<exists>us ds. idle_relay ([sample_event second [1]] @ sample_event idleTimeout [2] # [])
      [sample_event (idleTimeout - second) [3], sample_event (idleTimeout - second) [4]] = ((1, us), (2, ds), None)
    \<and> concat us = [1] \<and> concat ds = [3, 4]"
  using idle_direction_alone [of "[sample_event second [1]]" "[sample_event (idleTimeout - second) [3], sample_event (idleTimeout - second) [4]]"
      "sample_event idleTimeout [2]" "[]"]
  by (simp add: prompt_def sample_event_def idleTimeout_def second_def i64_id)

end
