(* ===== verification/Ssh.thy ===== *)
theory Ssh
  imports Proxy
begin

text \<open>
  The SOCKS5-over-SSH proxy of \<^verbatim>\<open>internal/proxy/ssh.go\<close>, with \<^verbatim>\<open>net.IP.String\<close> of the standard
  library.  The SSH library \<^verbatim>\<open>golang.org/x/crypto/ssh\<close> is an argument: whether the keep-alive is answered, a key parses, the
  handshake with the given methods succeeds, and what dialling a target through a client returns.  A
  client is a number.
\<close>

subsection \<open>Addresses\<close>

definition join :: "string \<Rightarrow> string list \<Rightarrow> string" where
  "join sep xs = (case xs of [] \<Rightarrow> [] | y # ys \<Rightarrow> y @ concat (map (\<lambda>z. sep @ z) ys))"

definition hex_digit :: "nat \<Rightarrow> char" where
  "hex_digit n = (if n < 10 then chr (48 + n) else chr (87 + n))"

fun hex_text :: "nat \<Rightarrow> string" where
  "hex_text n = (if n < 16 then [hex_digit n] else hex_text (n div 16) @ [hex_digit (n mod 16)])"

declare hex_text.simps [simp del]

text \<open>The groups of an IPv6 address, and its longest run of at least two zeros, the first one of that length.\<close>

definition v6_groups :: "bytes \<Rightarrow> nat list" where
  "v6_groups b = map (\<lambda>i. 256 * unat (b ! (2 * i)) + unat (b ! (2 * i + 1))) [0..<8]"

definition zero_run :: "nat list \<Rightarrow> (nat \<times> nat) option" where
  "zero_run gs =
     foldl (\<lambda>best i.
         let l = length (takeWhile (\<lambda>g. g = 0) (drop i gs))
         in if 2 \<le> l \<and> (case best of None \<Rightarrow> True | Some (s, t) \<Rightarrow> t - s < l) then Some (i, i + l) else best)
       None [0..<length gs]"

definition v6_text :: "bytes \<Rightarrow> string" where
  "v6_text b =
     (let gs = v6_groups b
      in case zero_run gs of
           None \<Rightarrow> join '':'' (map hex_text gs)
         | Some (s, t) \<Rightarrow> join '':'' (map hex_text (take s gs)) @ ''::'' @ join '':'' (map hex_text (drop t gs)))"

definition v4_text :: "bytes \<Rightarrow> string" where
  "v4_text b = join ''.'' (map (\<lambda>x. Itoa (uint x)) b)"

definition IP_String :: "bytes \<Rightarrow> string" where
  "IP_String b =
     (if length b = 4 then v4_text b
      else if take 10 b = replicate 10 0 \<and> take 2 (drop 10 b) = [0xFF, 0xFF] then v4_text (drop 12 b)
      else v6_text b)"

text \<open>The target of a request, as the handler writes it.\<close>

definition target_text :: "target \<Rightarrow> string" where
  "target_text tgt =
     (case tgt of (atyp, addr, port) \<Rightarrow>
        (if atyp = 0x03 then go_string (tl addr) else IP_String addr) @ '':'' @ Itoa (uint (Uint16 port)))"

text \<open>
  What the SSH library does with it: \<^verbatim>\<open>net.SplitHostPort\<close>, and \<^verbatim>\<open>net.ParseIP\<close> for the dotted form, whose four fields are decimal
  numbers up to 255 without leading zeros.
\<close>

definition octet :: "string \<Rightarrow> byte option" where
  "octet s =
     (if s = [] \<or> \<not> list_all is_digit s \<or> hd s = CHR ''0'' \<and> tl s \<noteq> [] \<or> 255 < digits_val s then None
      else Some (word_of_int (digits_val s)))"

definition ParseIPv4 :: "string \<Rightarrow> bytes option" where
  "ParseIPv4 s =
     (case map octet (Split (CHR ''.'') s) of
        [Some a, Some b, Some c, Some d] \<Rightarrow> Some [a, b, c, d]
      | _ \<Rightarrow> None)"

subsection \<open>The clients\<close>

text \<open>The fields that \<^verbatim>\<open>SSHServer\<close> shares with \<^verbatim>\<open>Server\<close>, and its clients.  \<open>ss_closed\<close> and \<open>ss_next\<close> stand for the clients themselves.\<close>

record SSHServer =
  ss_base :: Server
  ss_sshClients :: "(nat, nat) gomap"
  ss_closed :: "nat list"
  ss_next :: nat

definition NewSSHServer ::
  "string \<Rightarrow> int \<Rightarrow> int \<Rightarrow> Manager \<Rightarrow> Balancer \<Rightarrow> UserManager option \<Rightarrow> SSHServer" where
  "NewSSHServer addr bsize maxConns mgr bal umgr =
     \<lparr>ss_base = NewServer addr bsize maxConns mgr bal umgr, ss_sshClients = [], ss_closed = [], ss_next = 0\<rparr>"

datatype ssh_auth = PublicKeys string | Password string

datatype ssh_error = DialInstance | ReadKey | ParseKey | Handshake

record ssh_env =
  sg_keepalive :: "nat \<Rightarrow> bool"
  sg_dial :: bool
  sg_readKey :: "string \<Rightarrow> string option"
  sg_parseKey :: "string \<Rightarrow> bool"
  sg_handshake :: "string \<Rightarrow> string \<Rightarrow> ssh_auth list \<Rightarrow> bool"
  sg_target :: "nat \<Rightarrow> string \<Rightarrow> bool"

definition ssh_close_client :: "nat \<Rightarrow> SSHServer \<Rightarrow> SSHServer" where
  "ssh_close_client c s = s\<lparr>ss_closed := c # ss_closed s\<rparr>"

text \<open>The first part of \<^verbatim>\<open>getSSHClient\<close>: a client that still answers, after a dead one has been dropped.\<close>

definition ssh_lookup :: "ssh_env \<Rightarrow> nat \<Rightarrow> SSHServer \<Rightarrow> nat option \<times> SSHServer" where
  "ssh_lookup e i s =
     (case gm_get (ss_sshClients s) i of
        None \<Rightarrow> (None, s)
      | Some c \<Rightarrow>
          if sg_keepalive e c then (Some c, s)
          else (None, (ssh_close_client c s)\<lparr>ss_sshClients := gm_del i (ss_sshClients s)\<rparr>))"

definition ssh_auth_methods :: "ssh_env \<Rightarrow> ExpandedInstance \<Rightarrow> ssh_error + ssh_auth list" where
  "ssh_auth_methods e cfg =
     (let pw = (if ei_SSHPassword cfg \<noteq> [] then [Password (ei_SSHPassword cfg)] else [])
      in if ei_SSHKey cfg \<noteq> [] then
           (case sg_readKey e (ei_SSHKey cfg) of
              None \<Rightarrow> Inl ReadKey
            | Some key \<Rightarrow> if sg_parseKey e key then Inr (PublicKeys key # pw) else Inl ParseKey)
         else Inr pw)"

text \<open>
  The second part: a new connection.  It is dialled and the handshake is done without any lock; then the client is stored.
\<close>

definition ssh_handshake :: "ssh_env \<Rightarrow> Instance \<Rightarrow> ssh_error option" where
  "ssh_handshake e inst =
     (if \<not> sg_dial e then Some DialInstance
      else case ssh_auth_methods e (inst_Config inst) of
        Inl err \<Rightarrow> Some err
      | Inr auth \<Rightarrow>
          if sg_handshake e (''127.0.0.1:'' @ Itoa (ei_SSHPort (inst_Config inst))) (ei_SSHUser (inst_Config inst)) auth
          then None else Some Handshake)"

definition ssh_connect :: "ssh_env \<Rightarrow> Instance \<Rightarrow> SSHServer \<Rightarrow> (ssh_error + nat) \<times> SSHServer" where
  "ssh_connect e inst s =
     (case ssh_handshake e inst of
        Some err \<Rightarrow> (Inl err, s)
      | None \<Rightarrow> (Inr (ss_next s),
                 s\<lparr>ss_next := Suc (ss_next s), ss_sshClients := gm_put (inst_id inst) (ss_next s) (ss_sshClients s)\<rparr>))"

definition getSSHClient :: "ssh_env \<Rightarrow> Instance \<Rightarrow> SSHServer \<Rightarrow> (ssh_error + nat) \<times> SSHServer" where
  "getSSHClient e inst s =
     (case ssh_lookup e (inst_id inst) s of
        (Some c, s1) \<Rightarrow> (Inr c, s1)
      | (None, s1) \<Rightarrow> ssh_connect e inst s1)"

definition SSHServer_Close :: "SSHServer \<Rightarrow> SSHServer" where
  "SSHServer_Close s = s\<lparr>ss_sshClients := [], ss_closed := map snd (ss_sshClients s) @ ss_closed s\<rparr>"

subsection \<open>The handler\<close>

definition sshHealthy :: "Manager \<Rightarrow> Instance list" where
  "sshHealthy m = filter (\<lambda>inst. ei_Mode (inst_Config inst) = ''ssh'') (HealthyInstances m)"

definition set_base :: "Server \<Rightarrow> SSHServer \<Rightarrow> SSHServer" where
  "set_base b s = s\<lparr>ss_base := b\<rparr>"

text \<open>One round of the accept loop, the same as that of the SOCKS proxy.\<close>

definition ssh_accept :: "SSHServer \<Rightarrow> u64 option \<times> SSHServer" where
  "ssh_accept s = (case accept_conn (ss_base s) of (i, b) \<Rightarrow> (i, set_base b s))"

definition open_ssh ::
  "ssh_env \<Rightarrow> (nat \<Rightarrow> nat) \<Rightarrow> target \<Rightarrow> string option \<Rightarrow> string \<Rightarrow> SSHServer \<Rightarrow> opened \<times> bytes list \<times> SSHServer" where
  "open_ssh e rnd tgt user ip s =
     (let b = ss_base s
      in if sshHealthy (sv_manager b) = [] then (Refused, [socks_reply 0x01], s)
         else case Pick rnd (sv_balancer b) (sshHealthy (sv_manager b)) of
           (p, bal) \<Rightarrow>
             let s1 = set_base (b\<lparr>sv_balancer := bal\<rparr>) s
             in case p of
                  Panic \<Rightarrow> (Crashed, [], s1)
                | NoInstance \<Rightarrow> (Refused, [socks_reply 0x01], s1)
                | Picked inst \<Rightarrow>
                    (case getSSHClient e inst s1 of
                       (Inl err, s2) \<Rightarrow> (Refused, [socks_reply 0x01], s2)
                     | (Inr c, s2) \<Rightarrow>
                         if \<not> sg_target e c (target_text tgt) then (Refused, [socks_reply 0x05], s2)
                         else (Opened \<lparr>se_user = user, se_ip = ip, se_inst = inst_id inst, se_split = None\<rparr>,
                               [socks_reply 0x00],
                               set_base ((ss_base s2)\<lparr>sv_manager := upd_inst (inst_id inst) IncrConns (sv_manager (ss_base s2))\<rparr>) s2)))"

text \<open>The handler up to the relay; its negotiation and request are the code of \<^verbatim>\<open>socks5.go\<close> again.\<close>

definition ssh_open :: "conn_env \<Rightarrow> ssh_env \<Rightarrow> SSHServer \<Rightarrow> opened \<times> bytes list \<times> SSHServer" where
  "ssh_open e g s =
     (case negotiate (ce_now e) (ce_ip e) (ce_in e) (sv_userMgr (ss_base s)) of
        (None, out, r1, um) \<Rightarrow>
          (Refused, out, set_base (hang_up (ce_end e) None (ce_ip e) ((ss_base s)\<lparr>sv_userMgr := um\<rparr>)) s)
      | (Some user, out, r1, um) \<Rightarrow>
          let s1 = set_base ((ss_base s)\<lparr>sv_userMgr := um\<rparr>) s
          in case read_request r1 of
               (None, out2, r2) \<Rightarrow> (Refused, out @ out2, set_base (hang_up (ce_end e) user (ce_ip e) (ss_base s1)) s1)
             | (Some tgt, out2, r2) \<Rightarrow>
                 (case open_ssh g (re_rnd (ce_route e)) tgt user (ce_ip e) s1 of
                    (Refused, out3, s2) \<Rightarrow>
                      (Refused, out @ out2 @ out3, set_base (hang_up (ce_end e) user (ce_ip e) (ss_base s2)) s2)
                  | (res, out3, s2) \<Rightarrow> (res, out @ out2 @ out3, s2)))"

definition ssh_done :: "copy_round list \<Rightarrow> copy_round list \<Rightarrow> time \<Rightarrow> session \<Rightarrow> SSHServer \<Rightarrow> SSHServer" where
  "ssh_done up down now ses s = set_base (level_done up down now ses (ss_base s)) s"

subsection \<open>Targets\<close>

lemma hex_text_chars: "set (hex_text n) \<subseteq> hex_digit ` {..<16}"
proof (induction n rule: hex_text.induct)
  case (1 n)
  then show ?case by (subst hex_text.simps) (auto simp: Let_def)
qed

lemma hex_text_plain: "CHR ''['' \<notin> set (hex_text n)"
proof
  assume "CHR ''['' \<in> set (hex_text n)"
  then obtain d where "d < 16" "CHR ''['' = hex_digit d" using hex_text_chars by blast
  then have "of_char (hex_digit d) = (of_char (CHR ''['') :: nat)" by simp
  with \<open>d < 16\<close> show False by (auto simp: hex_digit_def split: if_splits)
qed

lemma join_chars: "set (join sep xs) \<subseteq> set sep \<union> \<Union> (set ` set xs)"
  by (auto simp: join_def split: list.splits)

lemma v6_text_colon: "CHR '':'' \<in> set (v6_text b) \<and> CHR ''['' \<notin> set (v6_text b)"
proof -
  have plain: "CHR ''['' \<notin> set (join '':'' (map hex_text gs))" for gs
    using join_chars [of "'':''" "map hex_text gs"] hex_text_plain by fastforce
  have "[0..<8] = 0 # 1 # [2..<8]" by (simp add: upt_rec)
  then have "CHR '':'' \<in> set (join '':'' (map hex_text (v6_groups b)))"
    by (simp add: v6_groups_def join_def del: upt_Suc)
  with plain show ?thesis by (auto simp: v6_text_def Let_def split: option.splits)
qed

lemma v4_text_chars: "c \<in> set (v4_text b) \<Longrightarrow> is_digit c \<or> c = CHR ''.''"
  using join_chars [of "''.''" "map (\<lambda>x. Itoa (uint x)) b"] Itoa_no_char by (fastforce simp: v4_text_def)

lemma port_text: "\<not> is_digit c \<Longrightarrow> c \<notin> set (Itoa (uint (w :: u16)))"
  by (rule Itoa_no_char) simp_all

lemma nat_digits_hd: "0 < n \<Longrightarrow> hd (nat_digits n) \<noteq> CHR ''0''"
proof (induction n rule: nat_digits.induct)
  case (1 n)
  show ?case
  proof (cases "n < 10")
    case True
    then have "(of_char (chr (48 + n)) :: nat) = 48 + n" by simp
    moreover have "(of_char (CHR ''0'') :: nat) = 48" by simp
    ultimately have "chr (48 + n) \<noteq> CHR ''0''" using "1.prems" by (metis add_cancel_right_right less_irrefl)
    with True show ?thesis by (simp add: nat_digits.simps [of n])
  next
    case False
    then have "nat_digits n = nat_digits (n div 10) @ [chr (48 + n mod 10)]" by (simp add: nat_digits.simps [of n])
    with 1 False nat_digits_ok [of "n div 10"] show ?thesis by simp
  qed
qed

lemma octet_Itoa: "octet (Itoa (uint x)) = Some (x :: byte)"
proof -
  have z: "hd (Itoa (uint x)) = CHR ''0'' \<longrightarrow> tl (Itoa (uint x)) = []"
  proof (cases "x = 0")
    case False
    then have "0 < nat (uint x)" by (simp add: unat_gt_0)
    then show ?thesis using nat_digits_hd [of "nat (uint x)"] by (simp add: Itoa_def)
  qed (simp add: Itoa_def nat_digits.simps)
  have "uint x < 256" using uint_lt2p [of x] by simp
  moreover have "digits_val (Itoa (uint x)) = uint x" using nat_digits_ok [of "nat (uint x)"] by (simp add: Itoa_def)
  ultimately show ?thesis using z Itoa_digits [of "uint x"] by (simp add: octet_def)
qed

lemma Split_word: "sep \<notin> set w \<Longrightarrow> Split sep (w @ sep # s) = w # Split sep s" "sep \<notin> set w \<Longrightarrow> Split sep w = [w]"
  by (induction w) auto

lemma ParseIPv4_text:
  assumes "length b = 4"
  shows "ParseIPv4 (v4_text b) = Some b"
proof -
  obtain w x y z where b: "b = [w, x, y, z]" using assms by (auto simp: length_Suc_conv numeral_eq_Suc)
  have dot: "CHR ''.'' \<notin> set (Itoa (uint v))" for v :: byte by (rule Itoa_no_char) (simp_all add: is_digit_def)
  have "v4_text b = Itoa (uint w) @ CHR ''.'' # Itoa (uint x) @ CHR ''.'' # Itoa (uint y) @ CHR ''.'' # Itoa (uint z)"
    by (simp add: v4_text_def join_def b)
  then show ?thesis by (simp add: ParseIPv4_def Split_word dot octet_Itoa b)
qed

lemma SplitHostPort_target:
  assumes "CHR '':'' \<notin> set h" "CHR ''['' \<notin> set h" "CHR '']'' \<notin> set h"
  shows "SplitHostPort (h @ '':'' @ Itoa (uint (w :: u16))) = Some (h, Itoa (uint w))" "Atoi (Itoa (uint w)) = Some (uint w)"
proof -
  have "c \<notin> set (Itoa (uint w))" if "c \<in> {CHR '':'', CHR ''['', CHR '']''}" for c
    using that by (intro port_text) (auto simp: is_digit_def)
  with assms show "SplitHostPort (h @ '':'' @ Itoa (uint w)) = Some (h, Itoa (uint w))"
    using SplitHostPort_colon [of "Itoa (uint w)" h] by simp
  have "uint w < 65536" using uint_lt2p [of w] by simp
  then show "Atoi (Itoa (uint w)) = Some (uint w)" by (intro Atoi_Itoa) (simp add: in_i64_def order_trans [OF _ uint_ge_0])
qed

lemma open_ssh_text: "target_text tgt = target_text tgt' \<Longrightarrow> open_ssh e rnd tgt user ip s = open_ssh e rnd tgt' user ip s"
  by (simp only: open_ssh_def)

subsection \<open>Handlers at the same time\<close>

text \<open>
  \<^verbatim>\<open>getSSHClient\<close> holds \<^verbatim>\<open>sshMu\<close> only while it reads or writes the table, so a call is at one of these points: before the look-up; with the
  client found, before the keep-alive; after closing a dead client, before deleting the entry; before dialling; with a new client, before
  storing it; returned.  A client that has been closed does not answer.
\<close>

datatype ssh_pc = SshLook | SshKeep nat | SshDelete | SshDial | SshStore nat | SshGot "ssh_error + nat"

fun ssh_call_step :: "ssh_env \<Rightarrow> Instance \<Rightarrow> ssh_pc \<Rightarrow> SSHServer \<Rightarrow> ssh_pc \<times> SSHServer" where
  "ssh_call_step e inst SshLook s =
     (case gm_get (ss_sshClients s) (inst_id inst) of None \<Rightarrow> (SshDial, s) | Some c \<Rightarrow> (SshKeep c, s))"
| "ssh_call_step e inst (SshKeep c) s =
     (if sg_keepalive e c \<and> c \<notin> set (ss_closed s) then (SshGot (Inr c), s) else (SshDelete, ssh_close_client c s))"
| "ssh_call_step e inst SshDelete s = (SshDial, s\<lparr>ss_sshClients := gm_del (inst_id inst) (ss_sshClients s)\<rparr>)"
| "ssh_call_step e inst SshDial s =
     (case ssh_handshake e inst of
        Some err \<Rightarrow> (SshGot (Inl err), s)
      | None \<Rightarrow> (SshStore (ss_next s), s\<lparr>ss_next := Suc (ss_next s)\<rparr>))"
| "ssh_call_step e inst (SshStore c) s =
     (SshGot (Inr c), s\<lparr>ss_sshClients := gm_put (inst_id inst) c (ss_sshClients s)\<rparr>)"
| "ssh_call_step e inst (SshGot r) s = (SshGot r, s)"

text \<open>The server and the calls of its handlers, finished ones included.\<close>

type_synonym ssh_run = "SSHServer \<times> (Instance \<times> ssh_pc) list"

inductive ssh_step :: "ssh_run \<Rightarrow> ssh_run \<Rightarrow> bool" where
  call: "ssh_step (s, calls) (s, calls @ [(inst, SshLook)])"
| go: "k < length calls \<Longrightarrow> calls ! k = (inst, pc) \<Longrightarrow> ssh_call_step e inst pc s = (pc', s') \<Longrightarrow>
    ssh_step (s, calls) (s', calls[k := (inst, pc')])"
| accept: "ssh_accept s = (i, s') \<Longrightarrow> ssh_step (s, calls) (s', calls)"
| close: "ssh_step (s, calls) (SSHServer_Close s, calls)"
| base: "ssh_step (s, calls) (set_base b s, calls)"

fun ssh_returned :: "ssh_pc \<Rightarrow> bool" where
  "ssh_returned (SshGot r) \<longleftrightarrow> True"
| "ssh_returned pc \<longleftrightarrow> False"

text \<open>The proviso: at any time at most one call for each instance is under way.\<close>

definition one_each :: "(Instance \<times> ssh_pc) list \<Rightarrow> bool" where
  "one_each calls \<longleftrightarrow> (\<forall>j < length calls. \<forall>k < length calls.
     \<not> ssh_returned (snd (calls ! j)) \<longrightarrow> \<not> ssh_returned (snd (calls ! k)) \<longrightarrow>
     inst_id (fst (calls ! j)) = inst_id (fst (calls ! k)) \<longrightarrow> j = k)"

definition ssh_turn :: "ssh_run \<Rightarrow> ssh_run \<Rightarrow> bool" where
  "ssh_turn x y \<longleftrightarrow> ssh_step x y \<and> one_each (snd y)"

text \<open>A call that is alone is \<^verbatim>\<open>getSSHClient\<close> as a function.\<close>

definition ssh_alone :: "ssh_env \<Rightarrow> Instance \<Rightarrow> ssh_pc \<times> SSHServer \<Rightarrow> ssh_pc \<times> SSHServer" where
  "ssh_alone e inst x = ssh_call_step e inst (fst x) (snd x)"

lemma ssh_connect_steps:
  assumes "ssh_connect e inst s = (r, s')"
  shows "ssh_alone e inst (ssh_alone e inst (SshDial, s)) = (SshGot r, s')"
  using assms by (auto simp: ssh_connect_def ssh_alone_def split: option.splits)

lemma getSSHClient_alone:
  assumes "getSSHClient e inst s = (r, s')" "\<And>c. gm_get (ss_sshClients s) (inst_id inst) = Some c \<Longrightarrow> c \<notin> set (ss_closed s)"
  shows "(ssh_alone e inst ^^ 5) (SshLook, s) = (SshGot r, s')"
proof -
  have got: "ssh_alone e inst (SshGot q, t) = (SshGot q, t)" for q t by (simp add: ssh_alone_def)
  note con = ssh_connect_steps [unfolded ssh_alone_def, simplified]
  show ?thesis
  proof (cases "gm_get (ss_sshClients s) (inst_id inst)")
    case None
    then have "ssh_alone e inst (SshLook, s) = (SshDial, s)" "ssh_connect e inst s = (r, s')"
      using assms(1) by (simp_all add: ssh_alone_def getSSHClient_def ssh_lookup_def)
    with ssh_connect_steps got show ?thesis by (simp add: numeral_eq_Suc funpow_swap1)
  next
    case (Some c)
    then have look: "ssh_alone e inst (SshLook, s) = (SshKeep c, s)" by (simp add: ssh_alone_def)
    let ?s = "(ssh_close_client c s)\<lparr>ss_sshClients := gm_del (inst_id inst) (ss_sshClients s)\<rparr>"
    show ?thesis
    proof (cases "sg_keepalive e c")
      case True
      then have "ssh_alone e inst (SshKeep c, s) = (SshGot (Inr c), s)" "r = Inr c" "s' = s"
        using assms Some by (simp_all add: ssh_alone_def getSSHClient_def ssh_lookup_def)
      with look got show ?thesis by (simp add: numeral_eq_Suc funpow_swap1)
    next
      case False
      then have "ssh_alone e inst (ssh_alone e inst (SshKeep c, s)) = (SshDial, ?s)" "ssh_connect e inst ?s = (r, s')"
        using assms(1) Some by (simp_all add: ssh_alone_def getSSHClient_def ssh_lookup_def ssh_close_client_def)
      with look ssh_connect_steps show ?thesis by (simp add: numeral_eq_Suc funpow_swap1)
    qed
  qed
qed

subsection \<open>The clients are neither lost nor used after closing\<close>

text \<open>
  The invariant, over the table \<open>m\<close>, the set of closed clients, the number of clients made and the calls: every client made is in the table,
  closed, or held by the one call that is about to store it; a closed client is only in the table while the call that
  closed it is about to delete the entry.
\<close>

fun pc_ok :: "(nat \<Rightarrow> nat option) \<Rightarrow> nat set \<Rightarrow> nat \<times> ssh_pc \<Rightarrow> bool" where
  "pc_ok m C (i, SshKeep c) \<longleftrightarrow> m i = Some c \<or> m i = None \<and> c \<in> C"
| "pc_ok m C (i, SshDelete) \<longleftrightarrow> (\<forall>c. m i = Some c \<longrightarrow> c \<in> C)"
| "pc_ok m C (i, SshDial) \<longleftrightarrow> m i = None"
| "pc_ok m C (i, SshStore c) \<longleftrightarrow> m i = None"
| "pc_ok m C (i, pc) \<longleftrightarrow> True"

definition known :: "(nat \<Rightarrow> nat option) \<Rightarrow> nat set \<Rightarrow> nat \<Rightarrow> bool" where
  "known m C c \<longleftrightarrow> (\<exists>i. m i = Some c) \<or> c \<in> C"

definition stores :: "(nat \<Rightarrow> nat \<times> ssh_pc) \<Rightarrow> nat \<Rightarrow> nat \<Rightarrow> nat \<Rightarrow> bool" where
  "stores f n j c \<longleftrightarrow> j < n \<and> snd (f j) = SshStore c"

definition ssh_good ::
  "(nat \<Rightarrow> nat option) \<Rightarrow> nat set \<Rightarrow> nat \<Rightarrow> (nat \<Rightarrow> nat \<times> ssh_pc) \<Rightarrow> nat \<Rightarrow> bool" where
  "ssh_good m C N f n \<longleftrightarrow>
     (\<forall>i j c. m i = Some c \<longrightarrow> m j = Some c \<longrightarrow> i = j)
     \<and> (\<forall>c. c < N \<longleftrightarrow> known m C c \<or> (\<exists>j. stores f n j c))
     \<and> (\<forall>j c. stores f n j c \<longrightarrow> \<not> known m C c \<and> (\<forall>k. stores f n k c \<longrightarrow> k = j))
     \<and> (\<forall>i c. m i = Some c \<longrightarrow> c \<in> C \<longrightarrow> (\<exists>j < n. f j = (i, SshDelete)))
     \<and> (\<forall>j < n. pc_ok m C (f j))"

lemma ssh_goodI:
  assumes "\<And>i j c. m i = Some c \<Longrightarrow> m j = Some c \<Longrightarrow> i = j"
    and "\<And>c. c < N \<longleftrightarrow> known m C c \<or> (\<exists>j. stores f n j c)"
    and "\<And>j c. stores f n j c \<Longrightarrow> \<not> known m C c"
    and "\<And>j k c. stores f n j c \<Longrightarrow> stores f n k c \<Longrightarrow> k = j"
    and "\<And>i c. m i = Some c \<Longrightarrow> c \<in> C \<Longrightarrow> \<exists>j < n. f j = (i, SshDelete)"
    and "\<And>j. j < n \<Longrightarrow> pc_ok m C (f j)"
  shows "ssh_good m C N f n"
  using assms unfolding ssh_good_def by blast

lemma ssh_goodD:
  assumes "ssh_good m C N f n"
  shows "m i = Some c \<Longrightarrow> m j = Some c \<Longrightarrow> i = j"
    "c < N \<longleftrightarrow> known m C c \<or> (\<exists>j. stores f n j c)"
    "stores f n j c \<Longrightarrow> \<not> known m C c"
    "stores f n j c \<Longrightarrow> stores f n k c \<Longrightarrow> k = j"
    "m i = Some c \<Longrightarrow> c \<in> C \<Longrightarrow> \<exists>j < n. f j = (i, SshDelete)"
    "j < n \<Longrightarrow> pc_ok m C (f j)"
  using assms unfolding ssh_good_def by blast+

definition ssh_slot :: "Instance \<times> ssh_pc \<Rightarrow> nat \<times> ssh_pc" where
  "ssh_slot x = (inst_id (fst x), snd x)"

definition ssh_inv :: "ssh_run \<Rightarrow> bool" where
  "ssh_inv x \<longleftrightarrow> (case x of (s, calls) \<Rightarrow> gm_ok (ss_sshClients s) \<and> one_each calls
     \<and> ssh_good (gm_get (ss_sshClients s)) (set (ss_closed s)) (ss_next s) (\<lambda>j. ssh_slot (calls ! j)) (length calls))"

text \<open>A step of the call \<open>k\<close>, for each kind of step.\<close>

definition free_for :: "(nat \<Rightarrow> nat \<times> ssh_pc) \<Rightarrow> nat \<Rightarrow> nat \<Rightarrow> bool" where
  "free_for f n k \<longleftrightarrow> (\<forall>j < n. j \<noteq> k \<longrightarrow> \<not> ssh_returned (snd (f j)) \<longrightarrow> fst (f j) \<noteq> fst (f k))"

lemma pc_ok_other:
  assumes "pc_ok m C x" "\<not> ssh_returned (snd x) \<longrightarrow> m' (fst x) = m (fst x)" "C \<subseteq> C'"
  shows "pc_ok m' C' x"
  using assms by (cases x; cases "snd x") auto

lemma good_move:
  assumes "ssh_good m C N f n" "k < n" "f k = (i, pc)" "\<And>c. pc \<noteq> SshStore c" "pc \<noteq> SshDelete"
    "\<And>c. pc' \<noteq> SshStore c" "pc_ok m C (i, pc')"
  shows "ssh_good m C N (f(k := (i, pc'))) n"
proof -
  have st: "stores (f(k := (i, pc'))) n j c \<longleftrightarrow> stores f n j c" for j c
    using assms(3,4,6) by (auto simp: stores_def)
  have "\<exists>j < n. (f(k := (i, pc'))) j = (i', SshDelete)" if "m i' = Some c" "c \<in> C" for i' c
  proof -
    obtain j where "j < n" "f j = (i', SshDelete)" using assms(1) \<open>m i' = Some c\<close> \<open>c \<in> C\<close> unfolding ssh_good_def by blast
    with assms(3,5) show ?thesis by (intro exI [of _ j]) auto
  qed
  with assms(1,7) show ?thesis unfolding ssh_good_def st by (auto simp: fun_upd_def)
qed

lemma good_close_dead:
  assumes g: "ssh_good m C N f n" and k: "k < n" "f k = (i, SshKeep c)"
  shows "ssh_good m (insert c C) N (f(k := (i, SshDelete))) n"
proof -
  have ok: "m i = Some c \<or> m i = None \<and> c \<in> C" using g k unfolding ssh_good_def by (metis pc_ok.simps(1))
  then have kn: "known m C c" by (auto simp: known_def)
  have st: "stores (f(k := (i, SshDelete))) n j d \<longleftrightarrow> stores f n j d" for j d
    using k by (auto simp: stores_def)
  have known: "known m (insert c C) d \<longleftrightarrow> known m C d" for d using kn by (auto simp: known_def)
  have inj: "i' = i''" if "m i' = Some d" "m i'' = Some d" for i' i'' d
    using that by (rule ssh_goodD(1) [OF g])
  have del: "\<exists>j < n. (f(k := (i, SshDelete))) j = (i', SshDelete)" if md: "m i' = Some d" and dc: "d \<in> insert c C" for i' d
  proof (cases "d \<in> C")
    case True
    then obtain j where "j < n" "f j = (i', SshDelete)" using ssh_goodD(5) [OF g md True] by blast
    with k(2) show ?thesis by (intro exI [of _ j]) auto
  next
    case False
    then have "i' = i" using md dc ok inj by auto
    then show ?thesis using k(1) by (intro exI [of _ k]) simp
  qed
  have pcs: "pc_ok m (insert c C) ((f(k := (i, SshDelete))) j)" if "j < n" for j
  proof (cases "j = k")
    case False
    have "pc_ok m C (f j)" by (rule ssh_goodD(6) [OF g that])
    then show ?thesis using False pc_ok_other [of m C "f j" m "insert c C"] by auto
  qed (use ok in auto)
  show ?thesis
    by (rule ssh_goodI; (unfold st known)?; (erule (1) ssh_goodD(1) [OF g] | rule ssh_goodD(2) [OF g] | erule ssh_goodD(3) [OF g] | erule (1) ssh_goodD(4) [OF g] | erule (1) del | erule pcs))
qed

lemma good_delete:
  assumes g: "ssh_good m C N f n" and k: "k < n" "f k = (i, SshDelete)" and free: "free_for f n k"
  shows "ssh_good (m(i := None)) C N (f(k := (i, SshDial))) n"
proof -
  have ok: "c \<in> C" if "m i = Some c" for c using g k that unfolding ssh_good_def by (metis pc_ok.simps(2))
  have st: "stores (f(k := (i, SshDial))) n j d \<longleftrightarrow> stores f n j d" for j d
    using k by (auto simp: stores_def)
  have known: "known (m(i := None)) C d \<longleftrightarrow> known m C d" for d
  proof
    assume "known m C d"
    then consider j where "m j = Some d" "j \<noteq> i" | "d \<in> C" using ok by (auto simp: known_def)
    then show "known (m(i := None)) C d" by cases (auto simp: known_def)
  qed (auto simp: known_def split: if_splits)
  have inj: "i' = i''" if "(m(i := None)) i' = Some d" "(m(i := None)) i'' = Some d" for i' i'' d
    using g that unfolding ssh_good_def by (auto split: if_splits)
  have del: "\<exists>j < n. (f(k := (i, SshDial))) j = (i', SshDelete)" if md: "(m(i := None)) i' = Some d" and dc: "d \<in> C" for i' d
  proof -
    have i': "i' \<noteq> i" "m i' = Some d" using md by (auto split: if_splits)
    then obtain j where "j < n" "f j = (i', SshDelete)" using ssh_goodD(5) [OF g i'(2) dc] by blast
    with k(2) i'(1) show ?thesis by (intro exI [of _ j]) auto
  qed
  have pcs: "pc_ok (m(i := None)) C ((f(k := (i, SshDial))) j)" if "j < n" for j
  proof (cases "j = k")
    case False
    have "pc_ok m C (f j)" by (rule ssh_goodD(6) [OF g that])
    moreover have "\<not> ssh_returned (snd (f j)) \<longrightarrow> fst (f j) \<noteq> i" using free that False k(2) by (auto simp: free_for_def)
    ultimately show ?thesis using False pc_ok_other [of m C "f j" "m(i := None)" C] by auto
  qed auto
  show ?thesis
    by (rule ssh_goodI; (unfold st known)?; (erule (1) inj | rule ssh_goodD(2) [OF g] | erule ssh_goodD(3) [OF g] | erule (1) ssh_goodD(4) [OF g] | erule (1) del | erule pcs))
qed

lemma good_dial:
  assumes g: "ssh_good m C N f n" and k: "k < n" "f k = (i, SshDial)"
  shows "ssh_good m C (Suc N) (f(k := (i, SshStore N))) n"
proof -
  have new: "\<not> known m C N" "\<not> stores f n j N" for j using ssh_goodD(2) [OF g, of N] by auto
  have st: "stores (f(k := (i, SshStore N))) n j d \<longleftrightarrow> stores f n j d \<or> j = k \<and> d = N" for j d
    using k by (auto simp: stores_def)
  have num: "d < Suc N \<longleftrightarrow> known m C d \<or> (\<exists>j. stores f n j d \<or> j = k \<and> d = N)" for d
    unfolding less_Suc_eq ssh_goodD(2) [OF g, of d] by blast
  have held: "\<not> known m C d" if "stores f n j d \<or> j = k \<and> d = N" for j d
    using ssh_goodD(3) [OF g, of j d] new that by blast
  have one: "k' = j" if "stores f n j d \<or> j = k \<and> d = N" "stores f n k' d \<or> k' = k \<and> d = N" for j k' d
    using ssh_goodD(4) [OF g, of j d k'] new that by blast
  have del: "\<exists>j < n. (f(k := (i, SshStore N))) j = (i', SshDelete)" if md: "m i' = Some d" and dc: "d \<in> C" for i' d
  proof -
    obtain j where "j < n" "f j = (i', SshDelete)" using ssh_goodD(5) [OF g md dc] by blast
    with k(2) show ?thesis by (intro exI [of _ j]) auto
  qed
  have "pc_ok m C (f k)" by (rule ssh_goodD(6) [OF g k(1)])
  then have pcs: "pc_ok m C ((f(k := (i, SshStore N))) j)" if "j < n" for j
    using ssh_goodD(6) [OF g that] k(2) by (cases "j = k") auto
  show ?thesis
    by (rule ssh_goodI; (unfold st)?; (erule (1) ssh_goodD(1) [OF g] | rule num | erule held | erule (1) one | erule (1) del | erule pcs))
qed

lemma good_store:
  assumes g: "ssh_good m C N f n" and k: "k < n" "f k = (i, SshStore c)" and free: "free_for f n k"
  shows "ssh_good (m(i \<mapsto> c)) C N (f(k := (i, SshGot r))) n"
proof -
  have s: "stores f n k c" using k by (simp add: stores_def)
  then have new: "\<not> known m C c" "\<And>j. stores f n j c \<Longrightarrow> j = k" using g unfolding ssh_good_def by blast+
  have none: "m i = None" using g k unfolding ssh_good_def by (metis pc_ok.simps(4))
  have st: "stores (f(k := (i, SshGot r))) n j d \<longleftrightarrow> stores f n j d \<and> j \<noteq> k" for j d
    using k by (auto simp: stores_def)
  have known: "known (m(i \<mapsto> c)) C d \<longleftrightarrow> known m C d \<or> d = c" for d
    using none by (auto simp: known_def) (metis option.distinct(1))
  have kd: "stores f n k d \<longleftrightarrow> d = c" for d using k by (auto simp: stores_def)
  have num: "d < N \<longleftrightarrow> (known m C d \<or> d = c) \<or> (\<exists>j. stores f n j d \<and> j \<noteq> k)" for d
    using ssh_goodD(2) [OF g, of d] kd by blast
  have held: "\<not> (known m C d \<or> d = c)" if "stores f n j d \<and> j \<noteq> k" for j d
    using ssh_goodD(3) [OF g, of j d] new that by blast
  have one: "k' = j" if "stores f n j d \<and> j \<noteq> k" "stores f n k' d \<and> k' \<noteq> k" for j k' d
    using ssh_goodD(4) [OF g, of j d k'] that by blast
  have inj: "i' = i''" if "(m(i \<mapsto> c)) i' = Some d" "(m(i \<mapsto> c)) i'' = Some d" for i' i'' d
    using g new(1) that unfolding ssh_good_def known_def by (auto split: if_splits)
  have del: "\<exists>j < n. (f(k := (i, SshGot r))) j = (i', SshDelete)" if md: "(m(i \<mapsto> c)) i' = Some d" and dc: "d \<in> C" for i' d
  proof -
    have "m i' = Some d" using md dc new(1) by (auto simp: known_def split: if_splits)
    then obtain j where "j < n" "f j = (i', SshDelete)" using ssh_goodD(5) [OF g _ dc] by blast
    with k(2) show ?thesis by (intro exI [of _ j]) auto
  qed
  have pcs: "pc_ok (m(i \<mapsto> c)) C ((f(k := (i, SshGot r))) j)" if "j < n" for j
  proof (cases "j = k")
    case False
    have "pc_ok m C (f j)" by (rule ssh_goodD(6) [OF g that])
    moreover have "\<not> ssh_returned (snd (f j)) \<longrightarrow> fst (f j) \<noteq> i" using free that False k(2) by (auto simp: free_for_def)
    ultimately show ?thesis using False pc_ok_other [of m C "f j" "m(i \<mapsto> c)" C] by auto
  qed auto
  show ?thesis
    by (rule ssh_goodI; (unfold st known)?; (erule (1) inj | rule num | erule held | erule (1) one | erule (1) del | erule pcs))
qed

lemma good_close_all:
  assumes g: "ssh_good m C N f n"
  shows "ssh_good (\<lambda>_. None) (ran m \<union> C) N f n"
proof -
  have known: "known (\<lambda>_. None) (ran m \<union> C) d \<longleftrightarrow> known m C d" for d by (auto simp: known_def ran_def)
  have pcs: "pc_ok (\<lambda>_. None) (ran m \<union> C) (f j)" if "j < n" for j
  proof -
    have "pc_ok m C (f j)" by (rule ssh_goodD(6) [OF g that])
    then show ?thesis by (cases "f j"; cases "snd (f j)") (auto intro: ranI)
  qed
  show ?thesis
    by (rule ssh_goodI; (unfold known)?; (simp; fail | rule ssh_goodD(2) [OF g] | erule ssh_goodD(3) [OF g] | erule (1) ssh_goodD(4) [OF g] | erule pcs))
qed

lemma good_call:
  assumes g: "ssh_good m C N f n" and old: "\<And>j. j < n \<Longrightarrow> f' j = f j" and new: "f' n = (i, SshLook)"
  shows "ssh_good m C N f' (Suc n)"
proof -
  have st: "stores f' (Suc n) j c \<longleftrightarrow> stores f n j c" for j c
  proof (cases "j < n")
    case True
    then show ?thesis using old [OF True] by (simp add: stores_def)
  next
    case False
    then show ?thesis using new by (cases "j = n") (simp_all add: stores_def)
  qed
  have del: "\<exists>j < Suc n. f' j = (i', SshDelete)" if md: "m i' = Some d" and dc: "d \<in> C" for i' d
  proof -
    obtain j where j: "j < n" "f j = (i', SshDelete)" using ssh_goodD(5) [OF g md dc] by blast
    then show ?thesis using old [OF j(1)] by (intro exI [of _ j]) simp
  qed
  have pcs: "pc_ok m C (f' j)" if "j < Suc n" for j
  proof (cases "j < n")
    case True
    then show ?thesis using ssh_goodD(6) [OF g True] old [OF True] by simp
  next
    case False
    then have "j = n" using that by simp
    then show ?thesis using new by simp
  qed
  show ?thesis
    by (rule ssh_goodI; (unfold st)?; (erule (1) ssh_goodD(1) [OF g] | rule ssh_goodD(2) [OF g] | erule ssh_goodD(3) [OF g]
      | erule (1) ssh_goodD(4) [OF g] | erule (1) del | erule pcs))
qed

lemma ssh_good_cong: "(\<And>j. j < n \<Longrightarrow> f j = f' j) \<Longrightarrow> ssh_good m C N f n \<longleftrightarrow> ssh_good m C N f' n"
  unfolding ssh_good_def stores_def by (auto cong: conj_cong)

lemma ssh_call_good:
  assumes g: "ssh_good (gm_get (ss_sshClients s)) (set (ss_closed s)) (ss_next s) f n" and ok: "gm_ok (ss_sshClients s)"
    and k: "k < n" "f k = (inst_id inst, pc)" and free: "free_for f n k" and step: "ssh_call_step e inst pc s = (pc', s')"
  shows "ssh_good (gm_get (ss_sshClients s')) (set (ss_closed s')) (ss_next s') (f(k := (inst_id inst, pc'))) n \<and> gm_ok (ss_sshClients s')"
proof -
  have pc: "pc_ok (gm_get (ss_sshClients s)) (set (ss_closed s)) (inst_id inst, pc)" using g k unfolding ssh_good_def by metis
  show ?thesis
  proof (cases pc)
    case SshLook
    then show ?thesis using step ok good_move [OF g k] by (auto split: option.splits)
  next
    case (SshKeep c)
    then show ?thesis
      using step ok good_move [OF g k, of pc'] good_close_dead [OF g k(1), of "inst_id inst" c] k(2)
      by (auto simp: ssh_close_client_def split: if_splits)
  next
    case SshDelete
    then show ?thesis using step ok good_delete [OF g k(1) _ free] k(2) by (auto simp: fun_upd_def)
  next
    case SshDial
    then show ?thesis
      using step ok good_move [OF g k, of pc'] good_dial [OF g k(1)] k(2) by (auto split: option.splits)
  next
    case (SshStore c)
    then show ?thesis using step ok good_store [OF g k(1) _ free] k(2) by (auto simp: fun_upd_def)
  next
    case (SshGot r)
    have "f(k := (inst_id inst, pc)) = f" using k(2) by auto
    then show ?thesis using SshGot step ok g by simp
  qed
qed

lemma one_each_free:
  assumes "one_each calls" "k < length calls" "\<not> ssh_returned (snd (calls ! k))"
  shows "free_for (\<lambda>j. ssh_slot (calls ! j)) (length calls) k"
  unfolding free_for_def
proof (intro allI impI)
  fix j assume "j < length calls" "j \<noteq> k" "\<not> ssh_returned (snd (ssh_slot (calls ! j)))"
  with assms show "fst (ssh_slot (calls ! j)) \<noteq> fst (ssh_slot (calls ! k))" unfolding one_each_def ssh_slot_def by auto
qed

lemma ssh_inv_go:
  assumes inv: "ssh_inv (s, calls)" and k: "k < length calls" "calls ! k = (inst, pc)"
    and step: "ssh_call_step e inst pc s = (pc', s')" and "one_each (calls[k := (inst, pc')])"
  shows "ssh_inv (s', calls[k := (inst, pc')])"
proof (cases "ssh_returned pc")
  case True
  then obtain r where "pc = SshGot r" by (cases pc) auto
  with step k have "calls[k := (inst, pc')] = calls" "s' = s" by (auto intro: list_update_same_conv [THEN iffD2])
  with inv show ?thesis by simp
next
  case False
  let ?f = "\<lambda>j. ssh_slot (calls ! j)"
  have g: "ssh_good (gm_get (ss_sshClients s)) (set (ss_closed s)) (ss_next s) ?f (length calls)" "gm_ok (ss_sshClients s)" "one_each calls"
    using inv by (simp_all add: ssh_inv_def)
  have fk: "?f k = (inst_id inst, pc)" using k(2) by (simp add: ssh_slot_def)
  have "free_for ?f (length calls) k" using one_each_free [OF g(3) k(1)] k(2) False by simp
  from ssh_call_good [where f = ?f, OF g(1,2) k(1) fk this step]
  have g': "ssh_good (gm_get (ss_sshClients s')) (set (ss_closed s')) (ss_next s') (?f(k := (inst_id inst, pc'))) (length calls)"
    "gm_ok (ss_sshClients s')" by simp_all
  have "ssh_good m C N (\<lambda>j. ssh_slot (calls[k := (inst, pc')] ! j)) (length calls)
      \<longleftrightarrow> ssh_good m C N (?f(k := (inst_id inst, pc'))) (length calls)" for m C N
    by (rule ssh_good_cong) (simp add: nth_list_update ssh_slot_def)
  with g' assms(5) show ?thesis by (simp only: ssh_inv_def prod.case length_list_update)
qed

lemma ssh_inv_close:
  assumes "ssh_inv (s, calls)"
  shows "ssh_inv (SSHServer_Close s, calls)" "set (ss_closed (SSHServer_Close s)) = ran (gm_get (ss_sshClients s)) \<union> set (ss_closed s)"
proof -
  have "gm_ok (ss_sshClients s)" using assms by (simp add: ssh_inv_def)
  then have r: "set (map snd (ss_sshClients s)) = ran (gm_get (ss_sshClients s))"
    by (simp add: gm_get_def [abs_def] gm_ok_def ran_distinct)
  then show c: "set (ss_closed (SSHServer_Close s)) = ran (gm_get (ss_sshClients s)) \<union> set (ss_closed s)"
    by (simp add: SSHServer_Close_def)
  have "gm_get ([] :: (nat, nat) gomap) = (\<lambda>_. None)" by (simp add: gm_get_def [abs_def])
  then show "ssh_inv (SSHServer_Close s, calls)"
    using assms good_close_all [of "gm_get (ss_sshClients s)"] c by (simp add: ssh_inv_def SSHServer_Close_def gm_ok_def)
qed

interpretation ssh: invariant_system
  "\<lambda>x. ss_sshClients (fst x) = [] \<and> ss_closed (fst x) = [] \<and> ss_next (fst x) = 0 \<and> snd x = []" ssh_turn ssh_inv
proof
  fix x y assume x: "ssh_inv x" and "ssh_turn x y"
  from this(2) have "ssh_step x y" and one: "one_each (snd y)" by (simp_all add: ssh_turn_def)
  from this(1) show "ssh_inv y"
  proof cases
    case (call s calls inst)
    have "ssh_good (gm_get (ss_sshClients s)) (set (ss_closed s)) (ss_next s) (\<lambda>j. ssh_slot ((calls @ [(inst, SshLook)]) ! j)) (Suc (length calls))"
      by (rule good_call [where f = "\<lambda>j. ssh_slot (calls ! j)" and i = "inst_id inst"])
        (use x call(1) in \<open>simp_all add: ssh_inv_def nth_append ssh_slot_def\<close>)
    with x one show ?thesis unfolding call by (simp add: ssh_inv_def)
  next
    case (go k calls inst pc e s pc' s')
    with x one ssh_inv_go [of s calls k inst pc e pc' s'] show ?thesis by simp
  next
    case (close s calls)
    with x ssh_inv_close(1) show ?thesis by simp
  qed (use x one in \<open>auto simp: ssh_inv_def ssh_accept_def set_base_def split: prod.splits\<close>)
qed (auto simp: ssh_inv_def ssh_good_def gm_ok_def gm_get_def one_each_def known_def stores_def)

lemma ssh_handed_out:
  assumes "ssh_inv (s, calls)" "k < length calls" "calls ! k = (inst, pc)" "\<not> ssh_returned pc"
    and "ssh_call_step e inst pc s = (SshGot (Inr c), s')"
  shows "gm_get (ss_sshClients s') (inst_id inst) = Some c \<and> c \<notin> set (ss_closed s')"
proof -
  let ?m = "gm_get (ss_sshClients s)" and ?C = "set (ss_closed s)" and ?f = "\<lambda>j. ssh_slot (calls ! j)"
  have g: "ssh_good ?m ?C (ss_next s) ?f (length calls)" using assms(1) by (simp add: ssh_inv_def)
  have fk: "?f k = (inst_id inst, pc)" using assms(3) by (simp add: ssh_slot_def)
  have "pc_ok ?m ?C (?f k)" using g assms(2) unfolding ssh_good_def by blast
  then have pc: "pc_ok ?m ?C (inst_id inst, pc)" unfolding fk .
  have "c \<notin> ?C" if "pc = SshStore c"
  proof -
    have "stores ?f (length calls) k c" using assms(2) that fk by (simp add: stores_def)
    then show ?thesis using g unfolding ssh_good_def known_def by blast
  qed
  with assms(4,5) pc show ?thesis by (cases pc) (auto split: option.splits if_splits)
qed

lemma ssh_idle_table:
  assumes "ssh_inv (s, calls)" "list_all (\<lambda>(inst, pc). ssh_returned pc) calls"
  shows "gm_get (ss_sshClients s) i = Some c \<Longrightarrow> c \<notin> set (ss_closed s)"
    "c < ss_next s \<longleftrightarrow> known (gm_get (ss_sshClients s)) (set (ss_closed s)) c"
proof -
  let ?f = "\<lambda>j. ssh_slot (calls ! j)"
  have g: "ssh_good (gm_get (ss_sshClients s)) (set (ss_closed s)) (ss_next s) ?f (length calls)"
    using assms(1) by (simp add: ssh_inv_def)
  have ret: "ssh_returned (snd (?f j))" if "j < length calls" for j
    using assms(2) that by (auto simp: list_all_length ssh_slot_def split_beta)
  have no: "\<not> stores ?f (length calls) j d" for j d using ret [of j] by (auto simp: stores_def)
  then show "c < ss_next s \<longleftrightarrow> known (gm_get (ss_sshClients s)) (set (ss_closed s)) c" using g unfolding ssh_good_def by blast
  show "gm_get (ss_sshClients s) i = Some c \<Longrightarrow> c \<notin> set (ss_closed s)"
    using g ret unfolding ssh_good_def by (metis snd_conv ssh_returned.simps(4))
qed

lemma getSSHClient_open:
  assumes "getSSHClient e inst s = (Inr c, s')" "\<And>i d. gm_get (ss_sshClients s) i = Some d \<Longrightarrow> d \<notin> set (ss_closed s)"
    and "\<And>d. d \<in> set (ss_closed s) \<Longrightarrow> d < ss_next s" "\<And>i d. gm_get (ss_sshClients s) i = Some d \<Longrightarrow> d < ss_next s"
  shows "gm_get (ss_sshClients s') (inst_id inst) = Some c \<and> c \<notin> set (ss_closed s')"
  using assms(1) assms(2) [of "inst_id inst"] assms(3) [of "ss_next s"] assms(4) [of "inst_id inst"]
  by (auto simp: getSSHClient_def ssh_lookup_def ssh_connect_def ssh_close_client_def split: option.splits if_splits)

subsection \<open>Properties\<close>

text \<open>
  C36. The SSH clients of the proxy, provided that at any time at most one call of \<^verbatim>\<open>getSSHClient\<close> for each instance is under way
  (\<open>ssh_turn\<close>; calls for different instances, \<^verbatim>\<open>Close\<close> and the rest of the proxy interleave at every lock).  A call that returns a client
  returns the one that the table then has for the instance, and it has not been closed.  \<^verbatim>\<open>Close\<close> leaves no client open but those that a call
  under way has made and not stored yet; so when no call is under way it leaves none open, and a whole \<^verbatim>\<open>getSSHClient\<close> started then also
  returns an open client of the instance.  Without the proviso this fails: two handlers that find no client at the same
  time leave one open for ever (\<open>ssh_race_leaks_client\<close>).
\<close>

theorem ssh_clients_sound:
  assumes "ssh_turn\<^sup>*\<^sup>* (NewSSHServer addr bsize n mgr bal um, []) (s, calls)"
  shows "(\<forall>k inst pc e c s'. k < length calls \<longrightarrow> calls ! k = (inst, pc) \<longrightarrow> \<not> ssh_returned pc \<longrightarrow>
        ssh_call_step e inst pc s = (SshGot (Inr c), s') \<longrightarrow>
        gm_get (ss_sshClients s') (inst_id inst) = Some c \<and> c \<notin> set (ss_closed s'))
    \<and> (\<forall>c < ss_next s. c \<notin> set (ss_closed (SSHServer_Close s)) \<longrightarrow> (\<exists>inst. (inst, SshStore c) \<in> set calls))
    \<and> (list_all (\<lambda>(inst, pc). ssh_returned pc) calls \<longrightarrow> set (ss_closed (SSHServer_Close s)) = {..<ss_next s}
        \<and> (\<forall>e inst c s'. getSSHClient e inst s = (Inr c, s') \<longrightarrow>
             gm_get (ss_sshClients s') (inst_id inst) = Some c \<and> c \<notin> set (ss_closed s')))"
proof -
  let ?m = "gm_get (ss_sshClients s)" and ?C = "set (ss_closed s)" and ?f = "\<lambda>j. ssh_slot (calls ! j)"
  have inv: "ssh_inv (s, calls)" using ssh.reachable_inv [OF _ assms] by (simp add: NewSSHServer_def)
  have g: "ssh_good ?m ?C (ss_next s) ?f (length calls)" using inv by (simp add: ssh_inv_def)
  have closed: "set (ss_closed (SSHServer_Close s)) = {c. known ?m ?C c}"
    using ssh_inv_close(2) [OF inv] by (auto simp: known_def ran_def)
  have "\<exists>inst. (inst, SshStore c) \<in> set calls" if "c < ss_next s" "c \<notin> set (ss_closed (SSHServer_Close s))" for c
  proof -
    have "\<exists>j. stores ?f (length calls) j c" using g that closed unfolding ssh_good_def by blast
    then obtain j where "j < length calls" "snd (calls ! j) = SshStore c" by (auto simp: stores_def ssh_slot_def)
    then show ?thesis by (metis nth_mem prod.collapse)
  qed
  moreover have "set (ss_closed (SSHServer_Close s)) = {..<ss_next s}
      \<and> (\<forall>e inst c s'. getSSHClient e inst s = (Inr c, s') \<longrightarrow>
           gm_get (ss_sshClients s') (inst_id inst) = Some c \<and> c \<notin> set (ss_closed s'))"
    if idle: "list_all (\<lambda>(inst, pc). ssh_returned pc) calls"
  proof (intro conjI allI impI)
    note t = ssh_idle_table [OF inv idle]
    show "set (ss_closed (SSHServer_Close s)) = {..<ss_next s}" using t(2) closed by auto
    fix e inst c s' assume r: "getSSHClient e inst s = (Inr c, s')"
    have "gm_get (ss_sshClients s') (inst_id inst) = Some c \<and> c \<notin> set (ss_closed s')"
      by (rule getSSHClient_open [OF r t(1)]) (use t(2) in \<open>auto simp: known_def\<close>)
    then show "gm_get (ss_sshClients s') (inst_id inst) = Some c" "c \<notin> set (ss_closed s')" by simp_all
  qed
  ultimately show ?thesis using ssh_handed_out [OF inv] by blast
qed

definition sample_ssh_env :: ssh_env where
  "sample_ssh_env = \<lparr>sg_keepalive = (\<lambda>c. False), sg_dial = True, sg_readKey = (\<lambda>_. None), sg_parseKey = (\<lambda>_. False),
     sg_handshake = (\<lambda>_ _ _. True), sg_target = (\<lambda>c t. SplitHostPort t \<noteq> None)\<rparr>"

definition sample_ssh_server :: SSHServer where
  "sample_ssh_server = NewSSHServer ''127.0.0.1:1081'' 65536 100
     \<lparr>mgr_instances = [], mgr_binary = [], mgr_bufferSize = 65536, mgr_ctxDone = False\<rparr> (New ''round_robin'') None"

lemmas ssh_eval =
  getSSHClient_def ssh_lookup_def ssh_connect_def ssh_handshake_def ssh_auth_methods_def ssh_close_client_def SSHServer_Close_def
  sample_ssh_env_def sample_ssh_server_def NewSSHServer_def sample_instance_def NewInstance_def gm_put_def gm_get_def

text \<open>A handler gets a client by itself.\<close>

lemma sample_ssh_call:
  defines "i \<equiv> sample_instance"
  shows "ssh_turn (sample_ssh_server, []) (sample_ssh_server, [(i, SshLook)])"
    "ssh_turn (sample_ssh_server, [(i, SshLook)]) (sample_ssh_server, [(i, SshDial)])"
    "ssh_turn (sample_ssh_server, [(i, SshDial)]) (sample_ssh_server\<lparr>ss_next := 1\<rparr>, [(i, SshStore 0)])"
proof -
  show "ssh_turn (sample_ssh_server, []) (sample_ssh_server, [(i, SshLook)])"
    using ssh_step.call [of sample_ssh_server "[]" i] by (simp add: ssh_turn_def one_each_def)
  show "ssh_turn (sample_ssh_server, [(i, SshLook)]) (sample_ssh_server, [(i, SshDial)])"
    using ssh_step.go [of 0 "[(i, SshLook)]" i SshLook sample_ssh_env sample_ssh_server SshDial sample_ssh_server]
    by (simp add: ssh_turn_def one_each_def ssh_eval)
  have "ssh_call_step sample_ssh_env i SshDial sample_ssh_server = (SshStore 0, sample_ssh_server\<lparr>ss_next := 1\<rparr>)"
    by (simp add: ssh_eval i_def)
  from ssh_step.go [of 0 "[(i, SshDial)]", OF _ _ this]
  show "ssh_turn (sample_ssh_server, [(i, SshDial)]) (sample_ssh_server\<lparr>ss_next := 1\<rparr>, [(i, SshStore 0)])"
    by (simp add: ssh_turn_def one_each_def)
qed

theorem ssh_clients_sound_witness:
  "\<exists>s'. ssh_call_step sample_ssh_env sample_instance (SshStore 0) (sample_ssh_server\<lparr>ss_next := 1\<rparr>) = (SshGot (Inr 0), s')
     \<and> gm_get (ss_sshClients s') (inst_id sample_instance) = Some 0 \<and> 0 \<notin> set (ss_closed s')"
proof -
  have r: "ssh_turn\<^sup>*\<^sup>* (sample_ssh_server, []) (sample_ssh_server\<lparr>ss_next := 1\<rparr>, [(sample_instance, SshStore 0)])"
    using sample_ssh_call by (meson converse_rtranclp_into_rtranclp r_into_rtranclp)
  obtain s' where s': "ssh_call_step sample_ssh_env sample_instance (SshStore 0) (sample_ssh_server\<lparr>ss_next := 1\<rparr>) = (SshGot (Inr 0), s')"
    by simp
  note sound = ssh_clients_sound [OF r [unfolded sample_ssh_server_def], folded sample_ssh_server_def, THEN conjunct1]
  have "gm_get (ss_sshClients s') (inst_id sample_instance) = Some 0 \<and> 0 \<notin> set (ss_closed s')"
    by (rule sound [rule_format, of 0 _ "SshStore 0", OF _ _ _ s']) simp_all
  with s' show ?thesis by blast
qed

text \<open>
  Two handlers that find no client at the same time both open one; the second entry overwrites the first, and the first
  client is in no table and stays open after \<^verbatim>\<open>Close\<close>.
\<close>

lemma ssh_race_steps:
  defines "i \<equiv> sample_instance"
  shows "ssh_step\<^sup>*\<^sup>* (s, []) (s, [(i, SshLook), (i, SshLook)])"
    "gm_get (ss_sshClients s) (inst_id i) = None \<Longrightarrow> ssh_step\<^sup>*\<^sup>* (s, [(i, SshLook), (i, SshLook)]) (s, [(i, SshDial), (i, SshDial)])"
    "ssh_step\<^sup>*\<^sup>* (s, [(i, SshDial), (i, SshDial)])
       (s\<lparr>ss_next := Suc (Suc (ss_next s))\<rparr>, [(i, SshStore (ss_next s)), (i, SshStore (Suc (ss_next s)))])"
    "ssh_step\<^sup>*\<^sup>* (s, [(i, SshStore a), (i, SshStore b)])
       (s\<lparr>ss_sshClients := gm_put (inst_id i) b (gm_put (inst_id i) a (ss_sshClients s))\<rparr>, [(i, SshGot (Inr a)), (i, SshGot (Inr b))])"
proof -
  have first: "ssh_step (s, [(i, p), x]) (s', [(i, p'), x])" if "ssh_call_step sample_ssh_env i p s = (p', s')" for p p' x s s'
    using ssh_step.go [of 0 "[(i, p), x]", OF _ _ that] by simp
  have second: "ssh_step (s, [x, (i, p)]) (s', [x, (i, p')])" if "ssh_call_step sample_ssh_env i p s = (p', s')" for p p' x s s'
    using ssh_step.go [of 1 "[x, (i, p)]", OF _ _ that] by simp
  have both: "ssh_step\<^sup>*\<^sup>* (s, [(i, p), (i, q)]) (s2, [(i, p'), (i, q')])"
    if "ssh_call_step sample_ssh_env i p s = (p', s1)" "ssh_call_step sample_ssh_env i q s1 = (q', s2)" for p q p' q' s s1 s2
    using first [OF that(1)] second [OF that(2)] by (meson converse_rtranclp_into_rtranclp r_into_rtranclp)
  have hs: "ssh_handshake sample_ssh_env i = None" by (simp add: ssh_eval i_def)
  show "ssh_step\<^sup>*\<^sup>* (s, []) (s, [(i, SshLook), (i, SshLook)])"
    using ssh_step.call [of s "[]" i] ssh_step.call [of s "[(i, SshLook)]" i] by (simp add: converse_rtranclp_into_rtranclp)
  show "ssh_step\<^sup>*\<^sup>* (s, [(i, SshLook), (i, SshLook)]) (s, [(i, SshDial), (i, SshDial)])" if "gm_get (ss_sshClients s) (inst_id i) = None"
    by (rule both [where ?s1.0 = s]) (simp_all add: that)
  show "ssh_step\<^sup>*\<^sup>* (s, [(i, SshDial), (i, SshDial)])
      (s\<lparr>ss_next := Suc (Suc (ss_next s))\<rparr>, [(i, SshStore (ss_next s)), (i, SshStore (Suc (ss_next s)))])"
    by (rule both [where ?s1.0 = "s\<lparr>ss_next := Suc (ss_next s)\<rparr>"]) (simp_all add: hs)
  show "ssh_step\<^sup>*\<^sup>* (s, [(i, SshStore a), (i, SshStore b)])
      (s\<lparr>ss_sshClients := gm_put (inst_id i) b (gm_put (inst_id i) a (ss_sshClients s))\<rparr>, [(i, SshGot (Inr a)), (i, SshGot (Inr b))])"
    by (rule both [where ?s1.0 = "s\<lparr>ss_sshClients := gm_put (inst_id i) a (ss_sshClients s)\<rparr>"]) simp_all
qed

theorem ssh_race_leaks_client:
  "\<exists>s calls. ssh_step\<^sup>*\<^sup>* (sample_ssh_server, []) (s, calls) \<and> list_all (\<lambda>(inst, pc). ssh_returned pc) calls
    \<and> 0 < ss_next s \<and> 0 \<notin> set (ss_closed (SSHServer_Close s))"
proof -
  let ?i = sample_instance and ?s = "sample_ssh_server\<lparr>ss_next := Suc (Suc (ss_next sample_ssh_server))\<rparr>"
  let ?t = "?s\<lparr>ss_sshClients := gm_put (inst_id ?i) 1 (gm_put (inst_id ?i) 0 (ss_sshClients ?s))\<rparr>"
  have z: "ss_next sample_ssh_server = 0" "gm_get (ss_sshClients sample_ssh_server) (inst_id ?i) = None" by (simp_all add: ssh_eval)
  have "ssh_step\<^sup>*\<^sup>* (sample_ssh_server, []) (sample_ssh_server, [(?i, SshDial), (?i, SshDial)])"
    using ssh_race_steps(1) [of sample_ssh_server] ssh_race_steps(2) [OF z(2)] by (rule rtranclp_trans)
  also have "ssh_step\<^sup>*\<^sup>* \<dots> (?s, [(?i, SshStore 0), (?i, SshStore 1)])"
    using ssh_race_steps(3) [of sample_ssh_server] by (simp add: z)
  also have "ssh_step\<^sup>*\<^sup>* \<dots> (?t, [(?i, SshGot (Inr 0)), (?i, SshGot (Inr 1))])" by (rule ssh_race_steps(4))
  finally have "ssh_step\<^sup>*\<^sup>* (sample_ssh_server, []) (?t, [(?i, SshGot (Inr 0)), (?i, SshGot (Inr 1))])" .
  moreover have "0 \<notin> set (ss_closed (SSHServer_Close ?t))" by (simp add: ssh_eval)
  ultimately show ?thesis by (intro exI [of _ ?t] exI [of _ "[(?i, SshGot (Inr 0)), (?i, SshGot (Inr 1))]"]) simp
qed

text \<open>
  C38. Targets over SSH.  Dialling through an SSH client splits its argument with \<^verbatim>\<open>net.SplitHostPort\<close>.  An IPv4 target is written
  so that this gives back the port and a host that parses to the very four bytes of the request; a domain name without colons and brackets
  comes back as it is.  An IPv6 target that maps an IPv4 address (\<^verbatim>\<open>::ffff:a.b.c.d\<close>) is written in the dotted form and is treated like that IPv4
  target.  Every other IPv6 target is written without brackets, does not parse, and is never connected.
\<close>

theorem ssh_targets:
  assumes dial: "\<And>c t. sg_target e c t \<Longrightarrow> SplitHostPort t \<noteq> None"
    and v4: "length addr4 = 4" and v6: "length addr = 16"
    and name: "\<forall>c \<in> {CHR '':'', CHR ''['', CHR '']''}. c \<notin> set (go_string name)"
  shows "(\<exists>host p. SplitHostPort (target_text (0x01, addr4, port)) = Some (host, p)
        \<and> ParseIPv4 host = Some addr4 \<and> Atoi p = Some (uint (Uint16 port)))
    \<and> (\<exists>p. SplitHostPort (target_text (0x03, word_of_nat (length name) # name, port)) = Some (go_string name, p)
        \<and> Atoi p = Some (uint (Uint16 port)))
    \<and> open_ssh e rnd (0x04, replicate 10 0 @ [0xFF, 0xFF] @ addr4, port) user ip s = open_ssh e rnd (0x01, addr4, port) user ip s
    \<and> ((\<nexists>a. addr = replicate 10 0 @ [0xFF, 0xFF] @ a) \<longrightarrow> (\<nexists>ses. fst (open_ssh e rnd (0x04, addr, port) user ip s) = Opened ses))"
proof (intro conjI impI)
  have no4: "c \<notin> set (v4_text addr4)" if "c \<in> {CHR '':'', CHR ''['', CHR '']''}" for c
    using that v4_text_chars [of c addr4] by (auto simp: is_digit_def)
  have "target_text (0x01, addr4, port) = v4_text addr4 @ '':'' @ Itoa (uint (Uint16 port))"
    using v4 by (simp add: target_text_def IP_String_def)
  then show "\<exists>host p. SplitHostPort (target_text (0x01, addr4, port)) = Some (host, p)
      \<and> ParseIPv4 host = Some addr4 \<and> Atoi p = Some (uint (Uint16 port))"
    using SplitHostPort_target [of "v4_text addr4" "Uint16 port"] no4 ParseIPv4_text [OF v4] by simp
  show "\<exists>p. SplitHostPort (target_text (0x03, word_of_nat (length name) # name, port)) = Some (go_string name, p)
      \<and> Atoi p = Some (uint (Uint16 port))"
    using SplitHostPort_target [of "go_string name" "Uint16 port"] name by (simp add: target_text_def)
  have "IP_String (replicate 10 0 @ [0xFF, 0xFF] @ addr4) = IP_String addr4" using v4 by (simp add: IP_String_def)
  then show "open_ssh e rnd (0x04, replicate 10 0 @ [0xFF, 0xFF] @ addr4, port) user ip s = open_ssh e rnd (0x01, addr4, port) user ip s"
    by (intro open_ssh_text) (simp add: target_text_def)
  assume no: "\<nexists>a. addr = replicate 10 0 @ [0xFF, 0xFF] @ a"
  have "\<not> (take 10 addr = replicate 10 0 \<and> take 2 (drop 10 addr) = [0xFF, 0xFF])"
    using no append_take_drop_id [of 10 addr] append_take_drop_id [of 2 "drop 10 addr"] by metis
  with v6 have "IP_String addr = v6_text addr" by (auto simp: IP_String_def)
  moreover have "c \<notin> set (Itoa (uint (Uint16 port)))" if "c \<in> {CHR '':'', CHR ''['', CHR '']''}" for c
    using that by (intro port_text) (auto simp: is_digit_def)
  ultimately have "SplitHostPort (target_text (0x04, addr, port)) = None"
    using v6_text_colon [of addr] SplitHostPort_colon [of "Itoa (uint (Uint16 port))" "v6_text addr"]
    by (simp add: target_text_def)
  with dial have "\<not> sg_target e c (target_text (0x04, addr, port))" for c by metis
  then show "\<nexists>ses. fst (open_ssh e rnd (0x04, addr, port) user ip s) = Opened ses"
    by (auto simp: open_ssh_def Let_def split: prod.splits pick.splits sum.splits if_splits)
qed

theorem ssh_targets_witness:
  "(\<exists>host p. SplitHostPort (target_text (0x01, [10, 0, 0, 1], [1, 187])) = Some (host, p)
        \<and> ParseIPv4 host = Some [10, 0, 0, 1] \<and> Atoi p = Some 443)
   \<and> (\<nexists>ses. fst (open_ssh sample_ssh_env (\<lambda>_. 0) (0x04, replicate 15 0 @ [1], [1, 187]) None ''192.0.2.7'' sample_ssh_server) = Opened ses)"
proof -
  have "(replicate 15 0 @ [1]) ! 11 \<noteq> (replicate 10 0 @ [0xFF, 0xFF :: byte] @ a) ! 11" for a by (simp add: nth_append)
  then have no: "\<nexists>a. replicate 15 0 @ [1] = replicate 10 0 @ [0xFF, 0xFF :: byte] @ a" by metis
  have name: "\<forall>c \<in> {CHR '':'', CHR ''['', CHR '']''}. c \<notin> set (go_string [])" by (simp add: go_string_def)
  have dial: "\<And>c t. sg_target sample_ssh_env c t \<Longrightarrow> SplitHostPort t \<noteq> None" by (simp add: sample_ssh_env_def)
  note t = ssh_targets [where e = sample_ssh_env and ?addr4.0 = "[10, 0, 0, 1]" and addr = "replicate 15 0 @ [1]" and port = "[1, 187]"
      and rnd = "\<lambda>_. 0" and user = None and ip = "''192.0.2.7''" and s = sample_ssh_server, OF dial _ _ name]
  have "uint (Uint16 [1, 187]) = 443" by (simp add: Uint16_def)
  then show ?thesis using t no by simp
qed

end
