(* ===== verification/Gui.thy ===== *)
theory Gui
  imports Users Health
begin

text \<open>
  \<^verbatim>\<open>internal/gui\<close>: the HTTP API of the dashboard (\<^verbatim>\<open>handlers.go\<close>, \<^verbatim>\<open>server.go\<close>), and reading and writing the configuration
  file (\<^verbatim>\<open>Load\<close> and \<^verbatim>\<open>Save\<close> of \<^verbatim>\<open>internal/config/config.go\<close>).  A handler maps a request and the state to a response and the new
  state.  The translation between JSON text and the configuration records (\<^verbatim>\<open>encoding/json\<close>) is an argument, and so
  is what \<^verbatim>\<open>Manager.Reload\<close> returned, whose steps are those of the engine.
\<close>

subsection \<open>The configuration file\<close>

text \<open>
  A configuration is decoded in two ways: the file as a whole (\<^verbatim>\<open>json.Unmarshal\<close>), the body of a request up to the end of its first
  value (\<^verbatim>\<open>Decoder.Decode\<close>).
\<close>

record codec =
  dec_config :: "string \<Rightarrow> Config option"
  dec_body :: "string \<Rightarrow> Config option"
  enc_config :: "Config \<Rightarrow> string"
  dec_user :: "string \<Rightarrow> UserConfig option"

datatype load_error = ReadConfig | ParseConfig | InvalidConfig config_error

definition Load :: "codec \<Rightarrow> string option \<Rightarrow> load_error + Config" where
  "Load j file =
     (case file of
        None \<Rightarrow> Inl ReadConfig
      | Some txt \<Rightarrow>
          (case dec_config j txt of
             None \<Rightarrow> Inl ParseConfig
           | Some c \<Rightarrow> (case Validate c of Inl e \<Rightarrow> Inl (InvalidConfig e) | Inr c' \<Rightarrow> Inr c')))"

text \<open>A write that fails may leave any contents behind.\<close>

datatype save_outcome = Saved | SaveFailed "string option"

definition Save :: "codec \<Rightarrow> save_outcome \<Rightarrow> Config \<Rightarrow> bool \<times> string option" where
  "Save j out c = (case out of Saved \<Rightarrow> (True, Some (enc_config j c)) | SaveFailed file \<Rightarrow> (False, file))"

subsection \<open>The server\<close>

record bwPoint =
  bw_Time :: int
  bw_Tx :: int
  bw_Rx :: int

text \<open>
  The user table of the API is a pointer: at first to the table the proxy was started with, after a change to a table
  of its own.  \<open>gs_proxyUsers\<close> is the proxy's table.
\<close>

datatype user_ref = ProxyTable | OwnTable UserManager

record APIServer =
  gs_manager :: Manager
  gs_os :: OS
  gs_cfg :: Config
  gs_file :: "string option"
  gs_listenAddr :: string
  gs_userMgr :: "user_ref option"
  gs_proxyUsers :: "UserManager option"
  gs_checker :: "Checker option"
  gs_bwHistory :: "bwPoint list"
  gs_lastTx :: int
  gs_lastRx :: int

definition NewAPIServer ::
  "Manager \<Rightarrow> OS \<Rightarrow> Config \<Rightarrow> string option \<Rightarrow> UserManager option \<Rightarrow> Checker option \<Rightarrow> APIServer" where
  "NewAPIServer mgr os cfg file umgr chk =
     \<lparr>gs_manager = mgr, gs_os = os, gs_cfg = cfg, gs_file = file, gs_listenAddr = gui_Listen (GUI cfg),
      gs_userMgr = map_option (\<lambda>_. ProxyTable) umgr, gs_proxyUsers = umgr, gs_checker = chk, gs_bwHistory = [],
      gs_lastTx = 0, gs_lastRx = 0\<rparr>"

definition deref_users :: "APIServer \<Rightarrow> UserManager option" where
  "deref_users s =
     (case gs_userMgr s of None \<Rightarrow> None | Some ProxyTable \<Rightarrow> gs_proxyUsers s | Some (OwnTable m) \<Rightarrow> Some m)"

text \<open>One tick of \<^verbatim>\<open>collectBandwidth\<close>.\<close>

definition bandwidth_tick :: "int \<Rightarrow> APIServer \<Rightarrow> APIServer" where
  "bandwidth_tick now s =
     (let insts = AllInstances (gs_manager s);
          tx = foldl (\<lambda>t inst. i64 (t + inst_txBytes inst)) 0 insts;
          rx = foldl (\<lambda>t inst. i64 (t + inst_rxBytes inst)) 0 insts;
          p = \<lparr>bw_Time = now, bw_Tx = i64 (tx - gs_lastTx s) sdiv 10, bw_Rx = i64 (rx - gs_lastRx s) sdiv 10\<rparr>;
          h = gs_bwHistory s @ [p]
      in s\<lparr>gs_lastTx := tx, gs_lastRx := rx,
           gs_bwHistory := (if length h > 8640 then drop (length h - 8640) h else h)\<rparr>)"

subsection \<open>Handlers\<close>

record request =
  rq_Method :: string
  rq_Path :: string
  rq_Body :: string
  rq_Auth :: "(string \<times> string) option"

datatype body =
    StatusBody "StatusInfo list" string string | BandwidthBody "bwPoint list" | ConfigBody Config
  | UsersBody "UserStatus list" | ResultBody string | DashboardBody

datatype response = NoBody | Reply body | HttpError nat

definition handleStatus :: "APIServer \<Rightarrow> response \<times> APIServer" where
  "handleStatus s = (Reply (StatusBody (StatusAll (gs_manager s)) (Strategy (gs_cfg s)) (socks_Listen (Socks (gs_cfg s)))), s)"

definition handleBandwidth :: "APIServer \<Rightarrow> response \<times> APIServer" where
  "handleBandwidth s = (Reply (BandwidthBody (gs_bwHistory s)), s)"

definition handleConfig :: "codec \<Rightarrow> save_outcome \<Rightarrow> request \<Rightarrow> APIServer \<Rightarrow> response \<times> APIServer" where
  "handleConfig j out r s =
     (if rq_Method r = ''OPTIONS'' then (NoBody, s)
      else if rq_Method r = ''GET'' then (Reply (ConfigBody (gs_cfg s)), s)
      else if rq_Method r = ''POST'' then
        (case dec_body j (rq_Body r) of
           None \<Rightarrow> (HttpError 400, s)
         | Some c \<Rightarrow>
             (case Validate c of
                Inl e \<Rightarrow> (HttpError 400, s)
              | Inr newCfg \<Rightarrow>
                  (case Save j out newCfg of
                     (False, file) \<Rightarrow> (HttpError 500, s\<lparr>gs_file := file\<rparr>)
                   | (True, file) \<Rightarrow> (Reply (ResultBody ''saved''), s\<lparr>gs_file := file, gs_cfg := newCfg\<rparr>))))
      else (HttpError 405, s))"

text \<open>\<open>reload\<close> is the outcome of \<^verbatim>\<open>Manager.Reload\<close>: whether it succeeded, and the manager and processes it left.\<close>

definition handleReload ::
  "(string \<Rightarrow> int \<Rightarrow> int) \<Rightarrow> codec \<Rightarrow> (Config \<Rightarrow> Manager \<Rightarrow> OS \<Rightarrow> bool \<times> Manager \<times> OS) \<Rightarrow> request \<Rightarrow> APIServer
    \<Rightarrow> response \<times> APIServer" where
  "handleReload frac j reload r s =
     (if rq_Method r = ''OPTIONS'' then (NoBody, s)
      else if rq_Method r \<noteq> ''POST'' then (HttpError 405, s)
      else case Load j (gs_file s) of
        Inl e \<Rightarrow> (HttpError 400, s)
      | Inr c \<Rightarrow>
          let newCfg = (if SlipstreamBinary c = [] then c\<lparr>SlipstreamBinary := SlipstreamBinary (gs_cfg s)\<rparr> else c);
              s1 = s\<lparr>gs_checker := map_option Checker_Stop (gs_checker s)\<rparr>
          in case reload newCfg (gs_manager s1) (gs_os s1) of
               (False, m, os) \<Rightarrow> (HttpError 500, s1\<lparr>gs_manager := m, gs_os := os\<rparr>)
             | (True, m, os) \<Rightarrow>
                 let s2 = s1\<lparr>gs_manager := m, gs_os := os, gs_cfg := newCfg\<rparr>;
                     s3 = s2\<lparr>gs_checker := map_option (\<lambda>_. NewChecker frac (HealthCheck newCfg)) (gs_checker s2)\<rparr>
                 in (Reply (ResultBody ''reloaded''),
                     if gs_userMgr s3 \<noteq> None \<and> socks_Users (Socks newCfg) \<noteq> []
                     then s3\<lparr>gs_userMgr := Some (OwnTable (NewUserManager (socks_Users (Socks newCfg))))\<rparr> else s3))"

text \<open>The answer to a restart request; the second component says that the process is to be replaced.\<close>

definition handleRestart :: "request \<Rightarrow> response \<times> bool" where
  "handleRestart r =
     (if rq_Method r = ''OPTIONS'' then (NoBody, False)
      else if rq_Method r \<noteq> ''POST'' then (HttpError 405, False)
      else (Reply (ResultBody ''restarting''), True))"

text \<open>What the goroutine of a restart does to this state before it shuts the manager down and replaces the process.\<close>

definition restart_stops :: "APIServer \<Rightarrow> APIServer" where
  "restart_stops s = s\<lparr>gs_checker := map_option Checker_Stop (gs_checker s)\<rparr>"

definition path_parts :: "string \<Rightarrow> string list" where
  "path_parts p = Split (CHR ''/'') (Trim1 (CHR ''/'') p)"

definition handleInstance :: "request \<Rightarrow> APIServer \<Rightarrow> response \<times> APIServer" where
  "handleInstance r s =
     (if rq_Method r = ''OPTIONS'' then (NoBody, s)
      else let parts = path_parts (rq_Path r)
           in if length parts < 4 \<or> parts ! 3 \<noteq> ''restart'' then (HttpError 404, s)
              else case Atoi (parts ! 2) of
                None \<Rightarrow> (HttpError 400, s)
              | Some i \<Rightarrow>
                  if rq_Method r \<noteq> ''POST'' then (HttpError 405, s)
                  else case RestartInstance i (gs_os s) (gs_manager s) of
                         None \<Rightarrow> (HttpError 500, s)
                       | Some (os, m) \<Rightarrow> (Reply (ResultBody ''restarting''), s\<lparr>gs_os := os, gs_manager := m\<rparr>))"

definition cfg_users :: "APIServer \<Rightarrow> UserConfig list" where
  "cfg_users s = socks_Users (Socks (gs_cfg s))"

definition set_cfg_users :: "UserConfig list \<Rightarrow> APIServer \<Rightarrow> APIServer" where
  "set_cfg_users us s = s\<lparr>gs_cfg := (gs_cfg s)\<lparr>Socks := (Socks (gs_cfg s))\<lparr>socks_Users := us\<rparr>\<rparr>\<rparr>"

text \<open>Saving the configuration and, when that worked, replacing the table.\<close>

definition save_users :: "codec \<Rightarrow> save_outcome \<Rightarrow> string \<Rightarrow> APIServer \<Rightarrow> response \<times> APIServer" where
  "save_users j out msg s =
     (case Save j out (gs_cfg s) of
        (False, file) \<Rightarrow> (HttpError 500, s\<lparr>gs_file := file\<rparr>)
      | (True, file) \<Rightarrow>
          (Reply (ResultBody msg), s\<lparr>gs_file := file, gs_userMgr := Some (OwnTable (NewUserManager (cfg_users s)))\<rparr>))"

definition handleUsers :: "codec \<Rightarrow> save_outcome \<Rightarrow> request \<Rightarrow> APIServer \<Rightarrow> response \<times> APIServer" where
  "handleUsers j out r s =
     (if rq_Method r = ''OPTIONS'' then (NoBody, s)
      else if rq_Method r = ''GET'' then
        (Reply (UsersBody (case deref_users s of None \<Rightarrow> [] | Some m \<Rightarrow> map User_Status (AllUsers m))), s)
      else if rq_Method r = ''POST'' then
        (case dec_user j (rq_Body r) of
           None \<Rightarrow> (HttpError 400, s)
         | Some uc \<Rightarrow>
             if uc_Username uc = [] \<or> uc_Password uc = [] then (HttpError 400, s)
             else if list_ex (\<lambda>u. uc_Username u = uc_Username uc) (cfg_users s) then (HttpError 409, s)
             else save_users j out ''added'' (set_cfg_users (cfg_users s @ [uc]) s))
      else (HttpError 405, s))"

text \<open>The first entry with the name is replaced.\<close>

fun edit_user :: "string \<Rightarrow> UserConfig \<Rightarrow> UserConfig list \<Rightarrow> UserConfig list option" where
  "edit_user name uc [] = None"
| "edit_user name uc (u # us) =
     (if uc_Username u = name then Some (uc\<lparr>uc_Username := name\<rparr> # us) else map_option ((#) u) (edit_user name uc us))"

definition reset_user :: "string \<Rightarrow> APIServer \<Rightarrow> (User \<times> APIServer) option" where
  "reset_user name s =
     (case deref_users s of
        None \<Rightarrow> None
      | Some m \<Rightarrow>
          (case GetUser name m of
             None \<Rightarrow> None
           | Some u \<Rightarrow>
               let m' = m\<lparr>um_users := gm_put name (ResetUsedBytes u) (um_users m)\<rparr>
               in Some (u, if gs_userMgr s = Some ProxyTable then s\<lparr>gs_proxyUsers := Some m'\<rparr>
                           else s\<lparr>gs_userMgr := Some (OwnTable m')\<rparr>)))"

definition edit_action :: "codec \<Rightarrow> save_outcome \<Rightarrow> string \<Rightarrow> request \<Rightarrow> APIServer \<Rightarrow> response \<times> APIServer" where
  "edit_action j out name r s =
     (case dec_user j (rq_Body r) of
        None \<Rightarrow> (HttpError 400, s)
      | Some uc \<Rightarrow> (case edit_user name uc (cfg_users s) of
                      None \<Rightarrow> (HttpError 404, s) | Some us \<Rightarrow> save_users j out ''updated'' (set_cfg_users us s)))"

definition delete_action :: "codec \<Rightarrow> save_outcome \<Rightarrow> string \<Rightarrow> APIServer \<Rightarrow> response \<times> APIServer" where
  "delete_action j out name s =
     (let us = filter (\<lambda>u. uc_Username u \<noteq> name) (cfg_users s)
      in case save_users j out ''deleted'' (set_cfg_users us s) of
           (res, s') \<Rightarrow> (res, if res = Reply (ResultBody ''deleted'') \<and> us = [] then s'\<lparr>gs_userMgr := None\<rparr> else s'))"

definition handleUserAction :: "codec \<Rightarrow> save_outcome \<Rightarrow> request \<Rightarrow> APIServer \<Rightarrow> response \<times> APIServer" where
  "handleUserAction j out r s =
     (if rq_Method r = ''OPTIONS'' then (NoBody, s)
      else let parts = path_parts (rq_Path r)
           in if length parts < 4 then (HttpError 404, s)
              else
                let username = parts ! 2; action = parts ! 3
                in if action = ''reset'' then
                     (case reset_user username s of
                        None \<Rightarrow> (HttpError 404, s)
                      | Some (u, s') \<Rightarrow> (Reply (ResultBody ''reset''), s'))
                   else if action = ''edit'' then edit_action j out username r s
                   else if action = ''delete'' then delete_action j out username s
                   else (HttpError 404, s))"

subsection \<open>Requests\<close>

record api_env =
  ae_frac :: "string \<Rightarrow> int \<Rightarrow> int"
  ae_codec :: codec
  ae_save :: save_outcome
  ae_reload :: "Config \<Rightarrow> Manager \<Rightarrow> OS \<Rightarrow> bool \<times> Manager \<times> OS"

text \<open>The routes of the multiplexer; the restart request only changes the process.\<close>

definition route_request :: "api_env \<Rightarrow> request \<Rightarrow> APIServer \<Rightarrow> response \<times> APIServer" where
  "route_request e r s =
     (let p = rq_Path r
      in if p = ''/api/status'' then handleStatus s
         else if p = ''/api/config'' then handleConfig (ae_codec e) (ae_save e) r s
         else if p = ''/api/reload'' then handleReload (ae_frac e) (ae_codec e) (ae_reload e) r s
         else if p = ''/api/restart'' then (fst (handleRestart r), s)
         else if p = ''/api/bandwidth'' then handleBandwidth s
         else if p = ''/api/users'' then handleUsers (ae_codec e) (ae_save e) r s
         else if starts_with ''/api/users/'' p then handleUserAction (ae_codec e) (ae_save e) r s
         else if starts_with ''/api/instance/'' p then handleInstance r s
         else (Reply DashboardBody, s))"

text \<open>With credentials, which are read once when the server starts, every request is checked first.\<close>

definition serve_http :: "string \<Rightarrow> string \<Rightarrow> api_env \<Rightarrow> request \<Rightarrow> APIServer \<Rightarrow> response \<times> APIServer" where
  "serve_http guiUser guiPass e r s =
     (if guiUser \<noteq> [] \<and> guiPass \<noteq> [] \<and> rq_Auth r \<noteq> Some (guiUser, guiPass) then (HttpError 401, s)
      else route_request e r s)"

subsection \<open>What a request can change\<close>

lemma set_cfg_users_simps [simp]:
  "gs_proxyUsers (set_cfg_users us s) = gs_proxyUsers s" "cfg_users (set_cfg_users us s) = us" "gs_userMgr (set_cfg_users us s) = gs_userMgr s"
  "gs_bwHistory (set_cfg_users us s) = gs_bwHistory s"
  by (simp_all add: set_cfg_users_def cfg_users_def)

lemma save_users_cases:
  obtains (failed) f where "save_users j out msg s = (HttpError 500, s\<lparr>gs_file := f\<rparr>)"
  | (saved) "save_users j out msg s = (Reply (ResultBody msg),
      s\<lparr>gs_file := Some (enc_config j (gs_cfg s)), gs_userMgr := Some (OwnTable (NewUserManager (cfg_users s)))\<rparr>)"
  by (cases out) (auto simp: save_users_def Save_def)

lemma user_action_cases:
  fixes r :: request
  defines "name \<equiv> path_parts (rq_Path r) ! 2"
  obtains (refused) n where "handleUserAction j out r s = (HttpError n, s)"
  | (preflight) "handleUserAction j out r s = (NoBody, s)"
  | (reset) u s' where "reset_user name s = Some (u, s')" "handleUserAction j out r s = (Reply (ResultBody ''reset''), s')"
  | (edit) "handleUserAction j out r s = edit_action j out name r s"
  | (delete) "handleUserAction j out r s = delete_action j out name s"
proof -
  let ?a = "path_parts (rq_Path r) ! 3"
  consider (pre) "rq_Method r = ''OPTIONS''" | (short) "rq_Method r \<noteq> ''OPTIONS''" "length (path_parts (rq_Path r)) < 4"
    | (act) "rq_Method r \<noteq> ''OPTIONS''" "\<not> length (path_parts (rq_Path r)) < 4" by blast
  then show ?thesis
  proof cases
    case act
    note eq = handleUserAction_def [of j out r s, unfolded Let_def, folded name_def]
    consider "?a = ''reset''" | "?a = ''edit''" | "?a = ''delete''" | "?a \<noteq> ''reset''" "?a \<noteq> ''edit''" "?a \<noteq> ''delete''" by blast
    then show ?thesis
    proof cases
      case 1
      with act have "handleUserAction j out r s =
        (case reset_user name s of None \<Rightarrow> (HttpError 404, s) | Some (u, s') \<Rightarrow> (Reply (ResultBody ''reset''), s'))"
        unfolding eq by simp
      then show ?thesis using refused reset by (cases "reset_user name s") auto
    next
      case 2
      with act have "handleUserAction j out r s = edit_action j out name r s" unfolding eq by simp
      then show ?thesis by (rule edit)
    next
      case 3
      with act have "handleUserAction j out r s = delete_action j out name s" unfolding eq by simp
      then show ?thesis by (rule delete)
    next
      case 4
      with act have "handleUserAction j out r s = (HttpError 404, s)" unfolding eq by simp
      then show ?thesis by (rule refused)
    qed
  qed (use refused preflight in \<open>simp_all add: handleUserAction_def\<close>)
qed

lemma edit_action_cases:
  obtains (refused) n where "edit_action j out name r s = (HttpError n, s)"
  | (edit) uc us where "dec_user j (rq_Body r) = Some uc" "edit_user name uc (cfg_users s) = Some us"
      "edit_action j out name r s = save_users j out ''updated'' (set_cfg_users us s)"
  by (cases "dec_user j (rq_Body r)"; cases "edit_user name (the (dec_user j (rq_Body r))) (cfg_users s)")
    (auto simp: edit_action_def)

lemma delete_action_cases:
  obtains (failed) f where "delete_action j out name s = (HttpError 500, (set_cfg_users (filter (\<lambda>u. uc_Username u \<noteq> name) (cfg_users s)) s)\<lparr>gs_file := f\<rparr>)"
  | (deleted) s' where "delete_action j out name s = (Reply (ResultBody ''deleted''), s')"
      "cfg_users s' = filter (\<lambda>u. uc_Username u \<noteq> name) (cfg_users s)"
      "deref_users s' = (if cfg_users s' = [] then None else Some (NewUserManager (cfg_users s')))"
proof -
  let ?us = "filter (\<lambda>u. uc_Username u \<noteq> name) (cfg_users s)"
  show ?thesis
  proof (cases rule: save_users_cases [of j out "''deleted''" "set_cfg_users ?us s"])
    case (failed f)
    then show ?thesis by (intro that(1) [of f]) (simp add: delete_action_def Let_def)
  next
    case saved
    then show ?thesis
      by (intro that(2) [of "snd (delete_action j out name s)"])
        (auto simp: delete_action_def Let_def set_cfg_users_def cfg_users_def deref_users_def)
  qed
qed

lemma user_action_changes:
  obtains (same) res where "handleUserAction j out r s = (res, s)" "\<And>x. res \<noteq> Reply x"
  | (reset) u s' where "reset_user (path_parts (rq_Path r) ! 2) s = Some (u, s')" "handleUserAction j out r s = (Reply (ResultBody ''reset''), s')"
  | (changed) res us f um where "handleUserAction j out r s = (res, (set_cfg_users us s)\<lparr>gs_file := f, gs_userMgr := um\<rparr>)"
      "\<And>x. res = Reply x \<Longrightarrow> f = Some (enc_config j (gs_cfg (set_cfg_users us s)))"
proof (cases rule: user_action_cases [of j out r s])
  case edit
  show ?thesis
  proof (cases rule: edit_action_cases [of j out "path_parts (rq_Path r) ! 2" r s])
    case 2: (edit uc us)
    show ?thesis
    proof (cases rule: save_users_cases [of j out "''updated''" "set_cfg_users us s"])
      case (failed f)
      with edit 2 show ?thesis by (intro changed [of "HttpError 500" "gs_userMgr s" f us]) (simp_all add: set_cfg_users_def)
    next
      case saved
      with edit 2 show ?thesis by (intro changed) (simp, blast)
    qed
  qed (use edit same in auto)
next
  case delete
  let ?us = "filter (\<lambda>u. uc_Username u \<noteq> path_parts (rq_Path r) ! 2) (cfg_users s)"
  show ?thesis
  proof (cases rule: save_users_cases [of j out "''deleted''" "set_cfg_users ?us s"])
    case (failed f)
    with delete show ?thesis
      by (intro changed [of "HttpError 500" "gs_userMgr s" f ?us]) (simp_all add: delete_action_def set_cfg_users_def)
  next
    case saved
    with delete show ?thesis
      by (intro changed [of "Reply (ResultBody ''deleted'')" "if ?us = [] then None else Some (OwnTable (NewUserManager ?us))"
            "Some (enc_config j (gs_cfg (set_cfg_users ?us s)))" ?us]) (simp_all add: delete_action_def Let_def)
  qed
qed (use same reset in auto)

subsection \<open>The proxy's table\<close>

text \<open>Who can log in, as a table sees it.\<close>

definition logins :: "UserManager \<Rightarrow> string \<Rightarrow> UserConfig option" where
  "logins m name = map_option user_Config (GetUser name m)"

definition same_logins :: "APIServer \<Rightarrow> APIServer \<Rightarrow> bool" where
  "same_logins s s' \<longleftrightarrow> map_option logins (gs_proxyUsers s') = map_option logins (gs_proxyUsers s)"

lemma same_logins_refl [simp]: "same_logins s s"
  by (simp add: same_logins_def)

lemma logins_reset: "GetUser name m = Some u \<Longrightarrow> logins (m\<lparr>um_users := gm_put name (ResetUsedBytes u) (um_users m)\<rparr>) = logins m"
  by (auto simp: logins_def GetUser_def ResetUsedBytes_def fun_eq_iff)

lemma same_logins_reset: "reset_user name s = Some (u, s') \<Longrightarrow> same_logins s s'"
  by (auto simp: reset_user_def same_logins_def deref_users_def logins_reset Let_def split: option.splits user_ref.splits if_splits)

lemma save_users_keeps [simp]: "gs_proxyUsers (snd (save_users j out msg s)) = gs_proxyUsers s"
  by (simp add: save_users_def split: prod.splits bool.splits)

lemma same_logins_action: "same_logins s (snd (handleUserAction j out r s))"
  by (cases rule: user_action_changes [of j out r s]) (auto simp: same_logins_def dest: same_logins_reset)

lemma same_logins_request: "same_logins s (snd (route_request e r s))"
proof -
  have "gs_proxyUsers (snd (handleConfig j out r s)) = gs_proxyUsers s" for j out
    by (auto simp: handleConfig_def split: option.splits sum.splits prod.splits bool.splits)
  moreover have "gs_proxyUsers (snd (handleReload f j re r s)) = gs_proxyUsers s" for f j re
    by (auto simp: handleReload_def Let_def split: sum.splits prod.splits bool.splits)
  moreover have "gs_proxyUsers (snd (handleUsers j out r s)) = gs_proxyUsers s" for j out
    by (auto simp: handleUsers_def split: option.splits)
  moreover have "gs_proxyUsers (snd (handleInstance r s)) = gs_proxyUsers s"
    by (auto simp: handleInstance_def Let_def split: option.splits)
  ultimately show ?thesis
    using same_logins_action [of s] by (simp add: route_request_def handleStatus_def handleBandwidth_def same_logins_def Let_def)
qed

subsection \<open>The configuration in memory and in the file\<close>

lemma Load_Inr: "Load j file = Inr c \<Longrightarrow> config_ok c"
  by (auto simp: Load_def dest: Validate_Inr split: option.splits sum.splits)

lemma Load_saved:
  assumes "config_ok c" "dec_config j (enc_config j c) = Some c" shows "Load j (Some (enc_config j c)) = Inr c"
  using assms by (simp add: Load_def Validate_ok)

text \<open>Neither the binary, nor the users, nor the address of the dashboard are validated further.\<close>

lemma ExpandInstances_keep [simp]:
  "ExpandInstances (c\<lparr>SlipstreamBinary := b\<rparr>) = ExpandInstances c" "ExpandInstances (c\<lparr>Socks := so\<rparr>) = ExpandInstances c"
  "ExpandInstances (c\<lparr>GUI := g\<rparr>) = ExpandInstances c"
  by (rule ExpandInstances_cong, simp)+

lemma config_ok_keep [simp]:
  "config_ok (c\<lparr>SlipstreamBinary := b\<rparr>) = config_ok c"
  "config_ok (c\<lparr>Socks := (Socks c)\<lparr>socks_Users := us\<rparr>\<rparr>) = config_ok c"
  by (simp_all add: config_ok_def)

lemma config_ok_listen: "config_ok c \<Longrightarrow> a \<noteq> [] \<Longrightarrow> config_ok (c\<lparr>GUI := (GUI c)\<lparr>gui_Listen := a\<rparr>\<rparr>)"
  by (simp add: config_ok_def)

text \<open>What an answer says about the file: after these, it holds the configuration in memory.\<close>

definition saved_answers :: "string set" where
  "saved_answers = {''saved'', ''added'', ''updated'', ''deleted''}"

definition file_current :: "codec \<Rightarrow> response \<times> APIServer \<Rightarrow> bool" where
  "file_current j x \<longleftrightarrow>
     (case x of (res, s') \<Rightarrow> (\<exists>msg \<in> saved_answers. res = Reply (ResultBody msg)) \<longrightarrow> gs_file s' = Some (enc_config j (gs_cfg s')))"

named_theorems file_intros

lemma file_current_other [file_intros]:
  "file_current j (HttpError n, s)" "file_current j (NoBody, s)" "msg \<notin> saved_answers \<Longrightarrow> file_current j (Reply (ResultBody msg), s)"
  "file_current j (Reply (ConfigBody c), s)" "file_current j (Reply (UsersBody us), s)" "file_current j (Reply DashboardBody, s)"
  "file_current j (Reply (StatusBody st a b), s)" "file_current j (Reply (BandwidthBody h), s)"
  by (auto simp: file_current_def)

lemma file_current_save_users [file_intros]: "file_current j (save_users j out msg s)"
  by (cases rule: save_users_cases [of j out msg s]) (simp_all add: file_current_def)

lemma file_current_config [file_intros]: "file_current j (handleConfig j out r s)"
  by (cases out) (auto simp: handleConfig_def Save_def file_current_def split: option.splits sum.splits)

lemma file_current_users [file_intros]: "file_current j (handleUsers j out r s)"
  by (auto simp: handleUsers_def intro!: file_intros split: option.splits)

lemma file_current_action [file_intros]: "file_current j (handleUserAction j out r s)"
  by (cases rule: user_action_changes [of j out r s]) (auto simp: file_current_def saved_answers_def)

lemma file_current_reload [file_intros]: "file_current j (handleReload f j' re r s)"
  by (auto simp: handleReload_def Let_def saved_answers_def intro!: file_intros split: sum.splits prod.splits bool.splits)

lemma file_current_instance [file_intros]: "file_current j (handleInstance r s)"
  by (auto simp: handleInstance_def Let_def saved_answers_def intro!: file_intros split: option.splits)

lemma file_current_request: "file_current (ae_codec e) (route_request e r s)"
proof -
  have "file_current j (fst (handleRestart r), s)" for j
    by (auto simp: handleRestart_def saved_answers_def intro!: file_intros)
  then show ?thesis
    by (simp add: route_request_def Let_def handleStatus_def handleBandwidth_def file_intros)
qed

text \<open>The configuration in memory stays valid.\<close>

lemma set_cfg_users_ok [simp]: "config_ok (gs_cfg (set_cfg_users us s)) = config_ok (gs_cfg s)"
  by (simp add: set_cfg_users_def)

lemma save_users_cfg [simp]: "gs_cfg (snd (save_users j out msg s)) = gs_cfg s"
  by (cases rule: save_users_cases [of j out msg s]) simp_all

lemma config_ok_handlers:
  assumes "config_ok (gs_cfg s)"
  shows "config_ok (gs_cfg (snd (handleConfig j out r s)))" "config_ok (gs_cfg (snd (handleReload f j re r s)))"
    "config_ok (gs_cfg (snd (handleUsers j out r s)))" "config_ok (gs_cfg (snd (handleInstance r s)))"
  using assms
  by (auto simp: handleConfig_def handleReload_def handleUsers_def handleInstance_def Let_def
      dest: Validate_Inr Load_Inr split: option.splits sum.splits prod.splits bool.splits)

lemma reset_user_cfg: "reset_user name s = Some (u, s') \<Longrightarrow> gs_cfg s' = gs_cfg s"
  by (auto simp: reset_user_def Let_def split: option.splits if_splits)

lemma config_ok_action: "config_ok (gs_cfg s) \<Longrightarrow> config_ok (gs_cfg (snd (handleUserAction j out r s)))"
  by (cases rule: user_action_changes [of j out r s]) (auto dest: reset_user_cfg)

lemma config_ok_request: "config_ok (gs_cfg s) \<Longrightarrow> config_ok (gs_cfg (snd (route_request e r s)))"
  by (simp add: route_request_def Let_def handleStatus_def handleBandwidth_def config_ok_handlers config_ok_action)

subsection \<open>Runs of the API server\<close>

text \<open>
  Requests, ticks of \<^verbatim>\<open>collectBandwidth\<close>, the rest of \<^verbatim>\<open>handleRestart\<close> up to the shutdown of the manager, and what the
  other parts do meanwhile: the engine and the health checker work on their own state, and the proxy accounts traffic and
  connections in its user table, in which nobody is added or removed.
\<close>

inductive gui_step :: "APIServer \<Rightarrow> APIServer \<Rightarrow> bool" where
  request: "serve_http guiUser guiPass e r s = (res, s') \<Longrightarrow> gui_step s s'"
| tick: "gui_step s (bandwidth_tick now s)"
| restart: "gui_step s (restart_stops s)"
| engine: "gui_step s (s\<lparr>gs_manager := m, gs_os := os\<rparr>)"
| checker: "gui_step s (s\<lparr>gs_checker := map_option (\<lambda>_. c) (gs_checker s)\<rparr>)"
| proxy: "map_option logins um = map_option logins (gs_proxyUsers s) \<Longrightarrow> gui_step s (s\<lparr>gs_proxyUsers := um\<rparr>)"

definition gui_init :: "(string \<Rightarrow> UserConfig option) option \<Rightarrow> APIServer \<Rightarrow> bool" where
  "gui_init ls s \<longleftrightarrow> (\<exists>mgr os cfg f um chk. s = NewAPIServer mgr os cfg f um chk \<and> config_ok cfg \<and> map_option logins um = ls)"

lemma gui_init_new: "config_ok cfg \<Longrightarrow> gui_init (map_option logins um) (NewAPIServer mgr os cfg f um chk)"
  unfolding gui_init_def by (intro exI conjI) (rule refl | assumption)+

definition gui_inv :: "(string \<Rightarrow> UserConfig option) option \<Rightarrow> APIServer \<Rightarrow> bool" where
  "gui_inv ls s \<longleftrightarrow> config_ok (gs_cfg s) \<and> map_option logins (gs_proxyUsers s) = ls \<and> length (gs_bwHistory s) \<le> 8640"

lemma bandwidth_tick_keeps [simp]:
  "gs_cfg (bandwidth_tick now s) = gs_cfg s" "gs_proxyUsers (bandwidth_tick now s) = gs_proxyUsers s"
  "gs_manager (bandwidth_tick now s) = gs_manager s"
  by (simp_all add: bandwidth_tick_def Let_def)

lemma history_request: "gs_bwHistory (snd (route_request e r s)) = gs_bwHistory s"
proof -
  have users: "gs_bwHistory (snd (save_users j out msg s1)) = gs_bwHistory s1" for j out msg s1
    by (cases rule: save_users_cases [of j out msg s1]) simp_all
  have "gs_bwHistory s' = gs_bwHistory s" if "reset_user name s = Some (u, s')" for name u s'
    using that by (auto simp: reset_user_def Let_def split: option.splits if_splits)
  then have "gs_bwHistory (snd (handleUserAction j out r s)) = gs_bwHistory s" for j out
    by (cases rule: user_action_changes [of j out r s]) auto
  moreover have "gs_bwHistory (snd (handleConfig j out r s)) = gs_bwHistory s" "gs_bwHistory (snd (handleReload f j re r s)) = gs_bwHistory s"
    "gs_bwHistory (snd (handleUsers j out r s)) = gs_bwHistory s" "gs_bwHistory (snd (handleInstance r s)) = gs_bwHistory s" for f j re out
    by (auto simp: handleConfig_def handleReload_def handleUsers_def handleInstance_def users Let_def
        split: option.splits sum.splits prod.splits bool.splits)
  ultimately show ?thesis
    by (simp add: route_request_def Let_def handleStatus_def handleBandwidth_def)
qed

lemma gui_inv_request: "gui_inv ls s \<Longrightarrow> gui_inv ls (snd (serve_http u p e r s))"
  using same_logins_request [of s e r]
  by (simp add: gui_inv_def serve_http_def config_ok_request history_request same_logins_def)

lemma bandwidth_tick_length: "length (gs_bwHistory (bandwidth_tick now s)) \<le> 8640"
  by (simp add: bandwidth_tick_def Let_def)

lemma gui_inv_step:
  assumes "gui_inv ls s" "gui_step s t" shows "gui_inv ls t"
  using assms(2)
proof (cases rule: gui_step.cases)
  case (request guiUser guiPass e r res)
  then show ?thesis using gui_inv_request [OF assms(1), of guiUser guiPass e r] by simp
next
  case (tick now)
  then show ?thesis using assms(1) bandwidth_tick_length [of now s] by (simp add: gui_inv_def)
qed (use assms(1) in \<open>simp_all add: gui_inv_def restart_stops_def\<close>)

interpretation gui: invariant_system "gui_init ls" gui_step "gui_inv ls" for ls
proof
  fix s assume "gui_init ls s"
  then show "gui_inv ls s" by (auto simp: gui_init_def gui_inv_def NewAPIServer_def)
qed (rule gui_inv_step)

subsection \<open>User management\<close>

lemma logins_new: "logins (NewUserManager cfgs) name = find (\<lambda>cu. uc_Username cu = name) (rev cfgs)"
  by (simp add: logins_def GetUser_def NewUserManager_get option.map_comp new_user_def Let_def comp_def option.map_ident)

lemma logins_append: "logins (NewUserManager (cfgs @ [uc])) = (logins (NewUserManager cfgs))(uc_Username uc \<mapsto> uc)"
  by (auto simp: logins_new fun_eq_iff)

lemma logins_Cons:
  "uc_Username cu \<notin> uc_Username ` set cfgs \<Longrightarrow> logins (NewUserManager (cu # cfgs)) = (logins (NewUserManager cfgs))(uc_Username cu \<mapsto> cu)"
proof (induction cfgs rule: rev_induct)
  case (snoc x xs)
  then show ?case using logins_append [of "cu # xs" x] by (auto simp: logins_append fun_eq_iff)
qed (auto simp: logins_new fun_eq_iff)

lemma logins_filter:
  "logins (NewUserManager (filter (\<lambda>u. uc_Username u \<noteq> name) cfgs)) = (logins (NewUserManager cfgs))(name := None)"
  by (induction cfgs rule: rev_induct) (auto simp: logins_append fun_eq_iff, auto simp: logins_new)

lemma edit_user_names: "edit_user name uc us = Some us' \<Longrightarrow> map uc_Username us' = map uc_Username us"
  by (induction us arbitrary: us') (auto split: if_splits)

lemma logins_edit:
  assumes "distinct (map uc_Username us)" "edit_user name uc us = Some us'"
  shows "logins (NewUserManager us') = (logins (NewUserManager us))(name \<mapsto> uc\<lparr>uc_Username := name\<rparr>)"
  using assms
proof (induction us arbitrary: us')
  case (Cons u us)
  show ?case
  proof (cases "uc_Username u = name")
    case True
    with Cons.prems show ?thesis by (auto simp: logins_Cons)
  next
    case False
    with Cons.prems obtain us1 where us1: "edit_user name uc us = Some us1" "us' = u # us1" by auto
    have "uc_Username ` set us1 = uc_Username ` set us"
      using edit_user_names [OF us1(1)] by (metis list.set_map)
    with Cons us1 False show ?thesis by (auto simp: logins_Cons fun_eq_iff)
  qed
qed simp

subsection \<open>The bandwidth history\<close>

definition total_tx :: "Manager \<Rightarrow> int" where
  "total_tx m = sum_list (map inst_txBytes (mgr_instances m))"

definition total_rx :: "Manager \<Rightarrow> int" where
  "total_rx m = sum_list (map inst_rxBytes (mgr_instances m))"

text \<open>The reference: one point per tick, the growth of the totals since the previous tick, per second.\<close>

fun bw_points :: "int \<Rightarrow> int \<Rightarrow> (int \<times> Manager) list \<Rightarrow> bwPoint list" where
  "bw_points tx rx [] = []"
| "bw_points tx rx ((now, m) # ts) =
     \<lparr>bw_Time = now, bw_Tx = (total_tx m - tx) sdiv 10, bw_Rx = (total_rx m - rx) sdiv 10\<rparr> # bw_points (total_tx m) (total_rx m) ts"

definition bandwidth_run :: "(int \<times> Manager) list \<Rightarrow> APIServer \<Rightarrow> APIServer" where
  "bandwidth_run ts s = foldl (\<lambda>s (now, m). bandwidth_tick now (s\<lparr>gs_manager := m\<rparr>)) s ts"

definition in_counter :: "int \<Rightarrow> bool" where
  "in_counter n \<longleftrightarrow> 0 \<le> n \<and> n < 2 ^ 63"

lemma foldl_i64: "i64 (foldl (\<lambda>t x. i64 (t + f x)) a xs) = i64 (a + sum_list (map f xs))"
proof (induction xs arbitrary: a)
  case (Cons x xs)
  show ?case using i64_add_left [of "a + f x" "sum_list (map f xs)"] by (simp add: Cons add.assoc)
qed simp

lemma foldl_i64_id:
  assumes "in_counter (sum_list (map f xs))" shows "foldl (\<lambda>t x. i64 (t + f x)) 0 xs = sum_list (map f xs)"
proof -
  have "foldl (\<lambda>t x. i64 (t + f x)) 0 xs = i64 (foldl (\<lambda>t x. i64 (t + f x)) 0 xs)"
    using i64_add_left [of _ 0] by (cases xs rule: rev_cases) (simp_all add: i64_id)
  also have "\<dots> = sum_list (map f xs)"
    using assms by (simp add: foldl_i64 i64_id in_counter_def)
  finally show ?thesis .
qed

text \<open>Keeping the last \<open>n\<close> after each addition or once at the end is the same.\<close>

lemma keep_last:
  "drop (length (drop (length h - n) h @ q) - n) (drop (length h - n) h @ q) = drop (length (h @ q) - n) (h @ q)"
proof (cases "length h \<le> n")
  case False
  then have "length (drop (length h - n) h) = n" by simp
  with False show ?thesis by (simp add: add.commute)
qed simp

lemma bandwidth_tick_exact:
  assumes "in_counter (total_tx m)" "in_counter (total_rx m)" "in_counter (gs_lastTx s)" "in_counter (gs_lastRx s)"
  shows "bandwidth_tick now (s\<lparr>gs_manager := m\<rparr>) =
    (let h = gs_bwHistory s @ bw_points (gs_lastTx s) (gs_lastRx s) [(now, m)]
     in s\<lparr>gs_manager := m, gs_lastTx := total_tx m, gs_lastRx := total_rx m, gs_bwHistory := drop (length h - 8640) h\<rparr>)"
proof -
  have eqs: "foldl (\<lambda>t inst. i64 (t + inst_txBytes inst)) 0 (mgr_instances m) = total_tx m"
    "foldl (\<lambda>t inst. i64 (t + inst_rxBytes inst)) 0 (mgr_instances m) = total_rx m"
    using assms(1,2) by (simp_all add: foldl_i64_id total_tx_def total_rx_def)
  have diffs: "i64 (total_tx m - gs_lastTx s) = total_tx m - gs_lastTx s" "i64 (total_rx m - gs_lastRx s) = total_rx m - gs_lastRx s"
    using assms by (simp_all add: in_counter_def i64_id)
  show ?thesis by (simp add: bandwidth_tick_def AllInstances_def eqs diffs Let_def)
qed

lemma bandwidth_run_exact:
  assumes "in_counter (gs_lastTx s)" "in_counter (gs_lastRx s)" "length (gs_bwHistory s) \<le> 8640"
    and "\<forall>(now, m) \<in> set ts. in_counter (total_tx m) \<and> in_counter (total_rx m)"
  shows "gs_bwHistory (bandwidth_run ts s) =
    (let h = gs_bwHistory s @ bw_points (gs_lastTx s) (gs_lastRx s) ts in drop (length h - 8640) h)"
  using assms
proof (induction ts arbitrary: s)
  case (Cons a ts)
  obtain now m where a: "a = (now, m)" by (cases a)
  let ?p = "bw_points (gs_lastTx s) (gs_lastRx s) [(now, m)]"
  let ?t = "bandwidth_tick now (s\<lparr>gs_manager := m\<rparr>)" and ?h = "gs_bwHistory s @ ?p"
  have m: "in_counter (total_tx m)" "in_counter (total_rx m)" using Cons.prems(4) a by auto
  note t = bandwidth_tick_exact [OF m Cons.prems(1,2), of now]
  have "gs_bwHistory (bandwidth_run ts ?t) =
      (let h = drop (length ?h - 8640) ?h @ bw_points (total_tx m) (total_rx m) ts in drop (length h - 8640) h)"
    using Cons.IH [of ?t] Cons.prems m by (simp add: t Let_def)
  also have "\<dots> = (let h = ?h @ bw_points (total_tx m) (total_rx m) ts in drop (length h - 8640) h)"
    unfolding Let_def by (rule keep_last)
  finally show ?case by (simp add: a bandwidth_run_def)
qed (simp add: bandwidth_run_def)

text \<open>The three requests that change the users.\<close>

lemma save_users_saved:
  assumes "save_users j out msg (set_cfg_users us s) = (Reply (ResultBody msg'), s')"
  shows "cfg_users s' = us \<and> deref_users s' = Some (NewUserManager us)"
  using assms
  by (cases rule: save_users_cases [of j out msg "set_cfg_users us s"]) (auto simp: set_cfg_users_def cfg_users_def deref_users_def)

lemma added_exact:
  assumes "handleUsers j out r s = (Reply (ResultBody ''added''), s')"
  obtains uc where "dec_user j (rq_Body r) = Some uc" "\<And>u. u \<in> set (cfg_users s) \<Longrightarrow> uc_Username u \<noteq> uc_Username uc"
    "cfg_users s' = cfg_users s @ [uc]" "deref_users s' = Some (NewUserManager (cfg_users s'))"
proof -
  from assms obtain uc where uc: "dec_user j (rq_Body r) = Some uc" "\<not> list_ex (\<lambda>u. uc_Username u = uc_Username uc) (cfg_users s)"
    and save: "save_users j out ''added'' (set_cfg_users (cfg_users s @ [uc]) s) = (Reply (ResultBody ''added''), s')"
    by (auto simp: handleUsers_def split: if_splits option.splits)
  from save_users_saved [OF save] uc show ?thesis by (intro that [of uc]) (auto simp: list_ex_iff)
qed

lemma updated_exact:
  assumes "handleUserAction j out r s = (Reply (ResultBody ''updated''), s')"
  obtains uc where "dec_user j (rq_Body r) = Some uc" "edit_user (path_parts (rq_Path r) ! 2) uc (cfg_users s) = Some (cfg_users s')"
    "deref_users s' = Some (NewUserManager (cfg_users s'))"
proof (cases rule: user_action_cases [of j out r s])
  case edit
  show ?thesis
  proof (cases rule: edit_action_cases [of j out "path_parts (rq_Path r) ! 2" r s])
    case 2: (edit uc us)
    with edit assms save_users_saved [of j out "''updated''" us s "''updated''" s'] show ?thesis by (intro that [of uc]) simp_all
  qed (use edit assms in simp)
next
  case delete
  then show ?thesis using assms by (cases rule: delete_action_cases [of j out "path_parts (rq_Path r) ! 2" s]) simp_all
qed (use assms in simp_all)

lemma deleted_exact:
  assumes "handleUserAction j out r s = (Reply (ResultBody ''deleted''), s')"
  shows "cfg_users s' = filter (\<lambda>u. uc_Username u \<noteq> path_parts (rq_Path r) ! 2) (cfg_users s)
    \<and> deref_users s' = (if cfg_users s' = [] then None else Some (NewUserManager (cfg_users s')))"
proof (cases rule: user_action_cases [of j out r s])
  case edit
  show ?thesis
  proof (cases rule: edit_action_cases [of j out "path_parts (rq_Path r) ! 2" r s])
    case 2: (edit uc us)
    with edit assms show ?thesis by (cases rule: save_users_cases [of j out "''updated''" "set_cfg_users us s"]) simp_all
  qed (use edit assms in simp)
next
  case delete
  then show ?thesis using assms by (cases rule: delete_action_cases [of j out "path_parts (rq_Path r) ! 2" s]) auto
qed (use assms in simp_all)

subsection \<open>Properties\<close>

definition sample_codec :: codec where
  "sample_codec =
     \<lparr>dec_config = (\<lambda>txt. if txt = ''{config}'' then Some example_config else None),
      dec_body = (\<lambda>txt. if txt = ''{config}'' then Some example_config else None), enc_config = (\<lambda>c. ''{config}''),
      dec_user = (\<lambda>txt. if txt = ''{user}'' then Some (sample_user 1) else None)\<rparr>"

definition sample_gui :: APIServer where
  "sample_gui = NewAPIServer \<lparr>mgr_instances = [], mgr_binary = ''slipstream'', mgr_bufferSize = 65536, mgr_ctxDone = False\<rparr>
     \<lparr>running = [], next_pid = 1\<rparr> example_config None None None"

definition sample_mgr :: "int \<Rightarrow> Manager" where
  "sample_mgr n = \<lparr>mgr_instances = [(NewInstance 0 \<lparr>ei_Domain = ''t.example.com'', ei_Resolver = ''8.8.8.8'', ei_Port = 17001,
     ei_Mode = ''socks'', ei_Authoritative = False, ei_Cert = [], ei_SSHPort = 0, ei_SSHUser = [],
     ei_SSHPassword = [], ei_SSHKey = [], ei_OriginalIndex = 0, ei_ReplicaIndex = 0\<rparr> ''slipstream'' 65536)\<lparr>inst_txBytes := n\<rparr>],
     mgr_binary = ''slipstream'', mgr_bufferSize = 65536, mgr_ctxDone = False\<rparr>"

definition sample_env_gui :: api_env where
  "sample_env_gui = \<lparr>ae_frac = (\<lambda>_ _. 0), ae_codec = sample_codec, ae_save = Saved, ae_reload = (\<lambda>c m os. (True, m, os))\<rparr>"

definition sample_request :: "string \<Rightarrow> string \<Rightarrow> request" where
  "sample_request path txt = \<lparr>rq_Method = ''POST'', rq_Path = path, rq_Body = txt, rq_Auth = None\<rparr>"

lemma sample_gui_init: "gui_init None sample_gui"
  using gui_init_new [OF example_valid, of None] by (simp add: sample_gui_def)

text \<open>
  C32. Saving and loading: when a request to change the configuration or the users is answered with success, reading the
  configuration file gives back exactly the configuration in memory, provided that decoding inverts encoding on it.  Since the
  configuration in memory is valid in every reachable state, \<^verbatim>\<open>Load\<close> neither rejects it nor fills in a default.
\<close>

theorem saved_config_loads:
  assumes "gui_init ls s0" "gui_step\<^sup>*\<^sup>* s0 s" "route_request e r s = (Reply (ResultBody msg), s')" "msg \<in> saved_answers"
    and json: "dec_config (ae_codec e) (enc_config (ae_codec e) (gs_cfg s')) = Some (gs_cfg s')"
  shows "Load (ae_codec e) (gs_file s') = Inr (gs_cfg s') \<and> config_ok (gs_cfg s')"
proof -
  have "config_ok (gs_cfg s)" using gui.reachable_inv [OF assms(1,2)] by (simp add: gui_inv_def)
  then have "config_ok (gs_cfg s')" using config_ok_request [of s e r] assms(3) by simp
  moreover have "gs_file s' = Some (enc_config (ae_codec e) (gs_cfg s'))"
    using file_current_request [of e r s] assms(3,4) by (auto simp: file_current_def)
  ultimately show ?thesis using Load_saved [OF _ json] by simp
qed

theorem saved_config_loads_witness:
  "\<exists>s'. route_request sample_env_gui (sample_request ''/api/config'' ''{config}'') sample_gui = (Reply (ResultBody ''saved''), s')
     \<and> Load sample_codec (gs_file s') = Inr example_config"
proof -
  let ?s = "sample_gui\<lparr>gs_file := Some ''{config}'', gs_cfg := example_config\<rparr>"
  have step: "route_request sample_env_gui (sample_request ''/api/config'' ''{config}'') sample_gui = (Reply (ResultBody ''saved''), ?s)"
    by (simp add: route_request_def sample_request_def handleConfig_def sample_env_gui_def sample_codec_def Save_def
        Validate_ok [OF example_valid] sample_gui_def NewAPIServer_def)
  moreover have "Load (ae_codec sample_env_gui) (gs_file ?s) = Inr (gs_cfg ?s)"
    using saved_config_loads [OF sample_gui_init rtranclp.rtrancl_refl step]
    by (simp add: saved_answers_def sample_env_gui_def sample_codec_def)
  ultimately show ?thesis by (simp add: sample_env_gui_def)
qed

text \<open>
  C33. Editing users: adding a user, editing one and deleting one change exactly that user's login in the table built from the
  configuration, which the API then uses.  Adding refuses a name that exists; an edit cannot rename, and it is exact when no
  two entries share a name (otherwise the first entry is replaced while the last one counts).
\<close>

theorem user_changes_exact:
  "(handleUsers j out r s = (Reply (ResultBody ''added''), s') \<longrightarrow>
      (\<exists>uc. dec_user j (rq_Body r) = Some uc \<and> logins (NewUserManager (cfg_users s)) (uc_Username uc) = None
         \<and> deref_users s' = Some (NewUserManager (cfg_users s'))
         \<and> logins (NewUserManager (cfg_users s')) = (logins (NewUserManager (cfg_users s)))(uc_Username uc \<mapsto> uc)))
   \<and> (handleUserAction j out r s = (Reply (ResultBody ''updated''), s') \<and> distinct (map uc_Username (cfg_users s)) \<longrightarrow>
      (\<exists>uc. dec_user j (rq_Body r) = Some uc \<and> deref_users s' = Some (NewUserManager (cfg_users s'))
         \<and> logins (NewUserManager (cfg_users s')) =
             (logins (NewUserManager (cfg_users s)))(path_parts (rq_Path r) ! 2 \<mapsto> uc\<lparr>uc_Username := path_parts (rq_Path r) ! 2\<rparr>)))
   \<and> (handleUserAction j out r s = (Reply (ResultBody ''deleted''), s') \<longrightarrow>
        deref_users s' = (if cfg_users s' = [] then None else Some (NewUserManager (cfg_users s')))
        \<and> logins (NewUserManager (cfg_users s')) = (logins (NewUserManager (cfg_users s)))(path_parts (rq_Path r) ! 2 := None))"
proof (intro conjI [OF impI conjI [OF impI impI]])
  assume "handleUsers j out r s = (Reply (ResultBody ''added''), s')"
  then show "\<exists>uc. dec_user j (rq_Body r) = Some uc \<and> logins (NewUserManager (cfg_users s)) (uc_Username uc) = None
      \<and> deref_users s' = Some (NewUserManager (cfg_users s'))
      \<and> logins (NewUserManager (cfg_users s')) = (logins (NewUserManager (cfg_users s)))(uc_Username uc \<mapsto> uc)"
    by (rule added_exact) (auto simp: logins_append logins_new find_None_iff)
next
  assume upd: "handleUserAction j out r s = (Reply (ResultBody ''updated''), s') \<and> distinct (map uc_Username (cfg_users s))"
  then obtain uc where "dec_user j (rq_Body r) = Some uc" "edit_user (path_parts (rq_Path r) ! 2) uc (cfg_users s) = Some (cfg_users s')"
    "deref_users s' = Some (NewUserManager (cfg_users s'))" using updated_exact by metis
  with upd show "\<exists>uc. dec_user j (rq_Body r) = Some uc \<and> deref_users s' = Some (NewUserManager (cfg_users s'))
      \<and> logins (NewUserManager (cfg_users s')) =
          (logins (NewUserManager (cfg_users s)))(path_parts (rq_Path r) ! 2 \<mapsto> uc\<lparr>uc_Username := path_parts (rq_Path r) ! 2\<rparr>)"
    using logins_edit by blast
next
  assume "handleUserAction j out r s = (Reply (ResultBody ''deleted''), s')"
  from deleted_exact [OF this] show "deref_users s' = (if cfg_users s' = [] then None else Some (NewUserManager (cfg_users s')))
      \<and> logins (NewUserManager (cfg_users s')) = (logins (NewUserManager (cfg_users s)))(path_parts (rq_Path r) ! 2 := None)"
    using logins_filter by metis
qed

lemma sample_adds:
  "handleUsers sample_codec Saved (sample_request ''/api/users'' ''{user}'') sample_gui = (Reply (ResultBody ''added''),
     (set_cfg_users [sample_user 1] sample_gui)\<lparr>gs_file := Some ''{config}'', gs_userMgr := Some (OwnTable (NewUserManager [sample_user 1]))\<rparr>)"
  by (simp add: handleUsers_def sample_request_def sample_codec_def sample_gui_def NewAPIServer_def save_users_def
      set_cfg_users_def cfg_users_def Save_def sample_user_def example_config_def)

theorem user_changes_exact_witness:
  "\<exists>s'. handleUsers sample_codec Saved (sample_request ''/api/users'' ''{user}'') sample_gui = (Reply (ResultBody ''added''), s')
     \<and> logins (NewUserManager (cfg_users s')) ''ann'' = Some (sample_user 1)"
proof -
  have "uc = sample_user 1" if "dec_user sample_codec (rq_Body (sample_request ''/api/users'' ''{user}'')) = Some uc" for uc
    using that by (simp add: sample_codec_def sample_request_def)
  moreover have "uc_Username (sample_user 1) = ''ann''" by (simp add: sample_user_def)
  ultimately show ?thesis
    using sample_adds user_changes_exact [of sample_codec Saved "sample_request ''/api/users'' ''{user}''" sample_gui] by force
qed

text \<open>
  C39. The proxy never sees a change of the users: in every run of the API server the table the proxy authenticates against knows
  the same names with the same settings as when the program started, so a user added with success is known to the API's own table
  only, and a deleted or edited one keeps the old login until the program restarts.
\<close>

theorem proxy_keeps_startup_users:
  assumes "gui_step\<^sup>*\<^sup>* (NewAPIServer mgr os cfg f um chk) s" "config_ok cfg"
    and "handleUsers j out r s = (Reply (ResultBody ''added''), s')"
  shows "map_option logins (gs_proxyUsers s') = map_option logins um
    \<and> (\<exists>uc m. dec_user j (rq_Body r) = Some uc \<and> deref_users s' = Some m
         \<and> Authenticate (uc_Username uc) (uc_Password uc) m = Some (new_user uc))"
proof -
  from gui.reachable_inv [OF gui_init_new [OF assms(2)] assms(1)] have "map_option logins (gs_proxyUsers s) = map_option logins um"
    by (simp add: gui_inv_def)
  moreover have "gs_proxyUsers (snd (handleUsers j out r s)) = gs_proxyUsers s"
    by (auto simp: handleUsers_def split: option.splits)
  moreover from assms(3) have "\<exists>uc m. dec_user j (rq_Body r) = Some uc \<and> deref_users s' = Some m
       \<and> Authenticate (uc_Username uc) (uc_Password uc) m = Some (new_user uc)"
    by (rule added_exact) (simp add: Authenticate_def NewUserManager_get new_user_def)
  ultimately show ?thesis using assms(3) by simp
qed

theorem proxy_keeps_startup_users_witness:
  "\<exists>s'. handleUsers sample_codec Saved (sample_request ''/api/users'' ''{user}'') sample_gui = (Reply (ResultBody ''added''), s')
     \<and> gs_proxyUsers s' = None \<and> deref_users s' \<noteq> None"
proof -
  obtain s' where s': "handleUsers sample_codec Saved (sample_request ''/api/users'' ''{user}'') sample_gui = (Reply (ResultBody ''added''), s')"
    using sample_adds by blast
  from proxy_keeps_startup_users [OF rtranclp.rtrancl_refl example_valid, OF this [unfolded sample_gui_def]] s' show ?thesis by auto
qed

text \<open>
  C37. The bandwidth history: when the totals stay within 63 bits, the history after any number of ticks is the last 8640 (one
  day's) points of the reference, one per tick with the growth of the totals per second; and a point is negative when the
  totals shrank by ten bytes or more, as they do when a reload replaces the instances, whose counters start at 0 again.
\<close>

theorem bandwidth_history_exact:
  assumes "\<forall>(now, m) \<in> set ts. in_counter (total_tx m) \<and> in_counter (total_rx m)"
  shows "gs_bwHistory (bandwidth_run ts (NewAPIServer mgr os cfg f um chk)) = drop (length ts - 8640) (bw_points 0 0 ts)
    \<and> length (gs_bwHistory (bandwidth_run ts (NewAPIServer mgr os cfg f um chk))) \<le> 8640
    \<and> (\<forall>now m tx rx. total_tx m + 10 \<le> tx \<longrightarrow> bw_Tx (hd (bw_points tx rx [(now, m)])) < 0)"
proof -
  have len: "length (bw_points tx rx ts) = length ts" for tx rx
    by (induction ts arbitrary: tx rx) auto
  have neg: "n sdiv 10 < 0" if "n \<le> -10" for n :: int
    using that by (simp add: signed_divide_int_def)
  have run: "gs_bwHistory (bandwidth_run ts (NewAPIServer mgr os cfg f um chk)) = drop (length ts - 8640) (bw_points 0 0 ts)"
    using bandwidth_run_exact [of "NewAPIServer mgr os cfg f um chk" ts] assms
    by (simp add: NewAPIServer_def in_counter_def Let_def len)
  show ?thesis unfolding run by (simp add: len neg)
qed

theorem bandwidth_history_exact_witness:
  "gs_bwHistory (bandwidth_run [(10, sample_mgr 200), (20, sample_mgr 0)] sample_gui) =
     [\<lparr>bw_Time = 10, bw_Tx = 20, bw_Rx = 0\<rparr>, \<lparr>bw_Time = 20, bw_Tx = -20, bw_Rx = 0\<rparr>]"
proof -
  have totals: "total_tx (sample_mgr n) = n" "total_rx (sample_mgr n) = 0" for n
    by (simp_all add: total_tx_def total_rx_def sample_mgr_def NewInstance_def)
  show ?thesis
    using bandwidth_history_exact [of "[(10, sample_mgr 200), (20, sample_mgr 0)]"]
    by (simp add: sample_gui_def totals in_counter_def signed_divide_int_def)
qed

end
