(* ===== verification/Startup.thy ===== *)
theory Startup
  imports PoolRun Proxy Ssh Gui
begin

text \<open>
  \<^verbatim>\<open>cmd/slipstreamplus/main.go\<close> with \<^verbatim>\<open>internal/embedded\<close>: how the program puts its parts together, which of its two proxies it
  starts, and how it ends.  Shown: the parts start in the states from which the invariants of their theories hold, and
  where the wiring and the way the program exits do not do what they are meant to.
\<close>

subsection \<open>The program\<close>

text \<open>What the program meets: flags, the file system, the embedded binary, the processes it starts and the first dials of the tunnel pool.\<close>

record boot_env =
  bo_codec :: codec
  bo_windows :: bool
  bo_file :: "string option"
  bo_enableGUI :: bool
  bo_guiPort :: string
  bo_binaryData :: bytes
  bo_tmpDir :: "string option"
  bo_written :: bool
  bo_missing :: "string \<Rightarrow> bool"
  bo_start :: "nat \<Rightarrow> start_outcome"
  bo_frac :: "string \<Rightarrow> int \<Rightarrow> int"
  bo_rand :: "bytes option"
  bo_dial :: "nat \<Rightarrow> nat \<Rightarrow> bool"
  bo_nowMs :: int

text \<open>The temporary directories that exist, beside the processes.\<close>

record host =
  ho_os :: OS
  ho_tmp :: "string list"

definition IsEmbedded :: "boot_env \<Rightarrow> bool" where
  "IsEmbedded e \<longleftrightarrow> bo_binaryData e \<noteq> []"

text \<open>The path of the extracted binary, or failure; a directory whose file could not be written is removed again.\<close>

definition ExtractBinary :: "boot_env \<Rightarrow> host \<Rightarrow> string option \<times> host" where
  "ExtractBinary e h =
     (if \<not> IsEmbedded e then (None, h)
      else case bo_tmpDir e of
        None \<Rightarrow> (None, h)
      | Some dir \<Rightarrow>
          let h1 = h\<lparr>ho_tmp := dir # ho_tmp h\<rparr>;
              name = (if bo_windows e then ''slipstream-client.exe'' else ''slipstream-client'')
          in if bo_written e then (Some (dir @ (if bo_windows e then [CHR 0x5C] else ''/'') @ name), h1)
             else (None, h1\<lparr>ho_tmp := remove1 dir (ho_tmp h1)\<rparr>))"

datatype boot_error =
    LoadFailed load_error | ExtractFailed | BinaryRequired | BinaryNotFound | ExpandsNot expand_error
  | ManagerFailed expand_error | StartFailed start_outcome

datatype front = SocksFront Server | SshFront SSHServer | NoFront

record program =
  pg_cfg :: Config
  pg_mgr :: Manager
  pg_sups :: "nat list"
  pg_checker :: Checker
  pg_userMgr :: "UserManager option"
  pg_tunnelPool :: "pool_sys option"
  pg_gui :: "APIServer option"
  pg_front :: front

definition find_binary :: "boot_env \<Rightarrow> Config \<Rightarrow> host \<Rightarrow> (boot_error + Config) \<times> host" where
  "find_binary e cfg h =
     (if IsEmbedded e then
        (case ExtractBinary e h of
           (None, h1) \<Rightarrow> (Inl ExtractFailed, h1)
         | (Some binPath, h1) \<Rightarrow> (Inr (cfg\<lparr>SlipstreamBinary := binPath\<rparr>), h1))
      else if SlipstreamBinary cfg = [] then (Inl BinaryRequired, h)
      else if bo_missing e (SlipstreamBinary cfg) then (Inl BinaryNotFound, h)
      else (Inr cfg, h))"

text \<open>The proxy that serves the clients.\<close>

definition choose_front ::
  "boot_env \<Rightarrow> Config \<Rightarrow> ExpandedInstance list \<Rightarrow> Manager \<Rightarrow> Balancer \<Rightarrow> UserManager option \<Rightarrow> TunnelPool option \<Rightarrow> front" where
  "choose_front e cfg expanded mgr bal umgr pool =
     (let hasSSH = list_ex (\<lambda>ei. ei_Mode ei = ''ssh'') expanded;
          hasSOCKS = list_ex (\<lambda>ei. ei_Mode ei \<noteq> ''ssh'') expanded;
          so = Socks cfg
      in if hasSSH \<and> \<not> hasSOCKS
         then SshFront (NewSSHServer (socks_Listen so) (socks_BufferSize so) (socks_MaxConnections so) mgr bal umgr)
         else if \<not> hasSSH \<and> hasSOCKS then
           (let sv = NewServer (socks_Listen so) (socks_BufferSize so) (socks_MaxConnections so) mgr bal umgr
            in SocksFront (case pool of None \<Rightarrow> sv
                 | Some p \<Rightarrow> EnablePacketSplit (bo_rand e) p (central_ChunkSize (CentralServer cfg)) sv))
         else if hasSSH \<and> hasSOCKS
         then SshFront (NewSSHServer (socks_Listen so) (socks_BufferSize so) (socks_MaxConnections so) mgr bal umgr)
         else NoFront)"

text \<open>From the manager on: everything that is built once the processes run.\<close>

definition assemble :: "boot_env \<Rightarrow> Config \<Rightarrow> ExpandedInstance list \<Rightarrow> Manager \<Rightarrow> nat list \<Rightarrow> OS \<Rightarrow> program" where
  "assemble e cfg expanded mgr sups os =
     (let chk0 = NewChecker (bo_frac e) (HealthCheck cfg);
          isPacketSplit = (Strategy cfg = ''packet_split'');
          chk = (if isPacketSplit then SetPacketSplit True chk0 else chk0);
          bal = New (Strategy cfg);
          umgr = (if socks_Users (Socks cfg) = [] then None else Some (NewUserManager (socks_Users (Socks cfg))));
          pool = (if isPacketSplit then Some (TunnelPool_Start (bo_dial e) (bo_nowMs e) (HealthyInstances mgr) NewTunnelPool) else None);
          guiOn = (bo_enableGUI e \<or> gui_Enabled (GUI cfg));
          cfg1 = (if guiOn \<and> bo_guiPort e \<noteq> [] then cfg\<lparr>GUI := (GUI cfg)\<lparr>gui_Listen := bo_guiPort e\<rparr>\<rparr> else cfg)
      in \<lparr>pg_cfg = cfg1, pg_mgr = mgr, pg_sups = sups, pg_checker = chk, pg_userMgr = umgr, pg_tunnelPool = pool,
          pg_gui = (if guiOn then Some (NewAPIServer mgr os cfg1 (bo_file e) umgr (Some chk)) else None),
          pg_front = choose_front e cfg1 expanded mgr bal umgr (map_option pr_pool pool)\<rparr>)"

definition boot :: "boot_env \<Rightarrow> host \<Rightarrow> (boot_error + program) \<times> host" where
  "boot e h =
     (case Load (bo_codec e) (bo_file e) of
        Inl err \<Rightarrow> (Inl (LoadFailed err), h)
      | Inr cfg0 \<Rightarrow>
          (case find_binary e cfg0 h of
             (Inl err, h1) \<Rightarrow> (Inl err, h1)
           | (Inr cfg, h1) \<Rightarrow>
               (case ExpandInstances cfg of
                  Inl err \<Rightarrow> (Inl (ExpandsNot err), h1)
                | Inr expanded \<Rightarrow>
                    (case NewManager cfg of
                       Inl err \<Rightarrow> (Inl (ManagerFailed err), h1)
                     | Inr mgr \<Rightarrow>
                         (case StartAll (bo_start e) (ho_os h1) mgr of
                            (Some err, os, m, ks) \<Rightarrow> (Inl (StartFailed err), h1\<lparr>ho_os := os\<rparr>)
                          | (None, os, m, ks) \<Rightarrow> (Inr (assemble e cfg expanded m ks os), h1\<lparr>ho_os := os\<rparr>))))))"

text \<open>
  The ways out of \<^verbatim>\<open>main\<close>: \<^verbatim>\<open>log.Fatalf\<close> and the \<^verbatim>\<open>os.Exit\<close> of the signal handler end the process at once, deferred calls do not
  run; only a \<^verbatim>\<open>main\<close> that returns, which it does with no proxy to start, runs them.
\<close>

datatype ending = Fatal | Signalled | Returned

definition cleanup :: "boot_env \<Rightarrow> host \<Rightarrow> host" where
  "cleanup e h = (case bo_tmpDir e of None \<Rightarrow> h | Some dir \<Rightarrow> if IsEmbedded e then h\<lparr>ho_tmp := removeAll dir (ho_tmp h)\<rparr> else h)"

definition exit_main :: "boot_env \<Rightarrow> ending \<Rightarrow> host \<Rightarrow> host" where
  "exit_main e how h = (if how = Returned then cleanup e h else h)"

text \<open>What the signal handler does to the checker and the pool before it waits for the goroutines of the pool and shuts the manager down.\<close>

definition on_signal :: "program \<Rightarrow> program" where
  "on_signal p = p\<lparr>pg_checker := Checker_Stop (pg_checker p), pg_tunnelPool := map_option Stop_begin (pg_tunnelPool p)\<rparr>"

subsection \<open>Starting the instances\<close>

lemma Instance_Start_eqs:
  "Instance_Start out os inst = (res, os', inst') \<Longrightarrow>
     res = out \<and> inst_id inst' = inst_id inst \<and> inst_activeConns inst' = inst_activeConns inst
     \<and> (if out = Started then running os' = next_pid os # running os \<and> next_pid os' = Suc (next_pid os) else os' = os)"
  by (auto simp: Instance_Start_def Let_def split: if_splits)

text \<open>\<^verbatim>\<open>StartAll\<close> stops at the first instance that does not start; the ones before it run.\<close>

lemma start_all_from:
  assumes "start_from False out k os xs = (err, os', ys, ks)"
  shows "map (\<lambda>x. (inst_id x, inst_activeConns x)) ys = map (\<lambda>x. (inst_id x, inst_activeConns x)) xs
    \<and> (\<exists>n \<le> length xs. (\<forall>i < n. out (k + i) = Started) \<and> running os' = rev [next_pid os..<next_pid os + n] @ running os
        \<and> (case err of None \<Rightarrow> n = length xs \<and> ks = [k..<k + n] | Some e \<Rightarrow> n < length xs \<and> out (k + n) = e \<and> e \<noteq> Started))"
  using assms
proof (induction xs arbitrary: k os os' ys ks)
  case (Cons x xs)
  obtain res os1 x1 where s: "Instance_Start (out k) os x = (res, os1, x1)" by (cases "Instance_Start (out k) os x")
  note se = Instance_Start_eqs [OF s]
  show ?case
  proof (cases "out k = Started")
    case False
    with Cons.prems s se show ?thesis by (auto intro: exI [of _ 0])
  next
    case True
    obtain ys1 ks1 where r: "start_from False out (Suc k) os1 xs = (err, os', ys1, ks1)" "ys = x1 # ys1" "ks = k # ks1"
      using Cons.prems s se True by (auto split: prod.splits)
    from Cons.IH [OF r(1)] obtain n where n: "n \<le> length xs" "\<forall>i < n. out (Suc k + i) = Started"
      "running os' = rev [next_pid os1..<next_pid os1 + n] @ running os1"
      "case err of None \<Rightarrow> n = length xs \<and> ks1 = [Suc k..<Suc k + n] | Some e \<Rightarrow> n < length xs \<and> out (Suc k + n) = e \<and> e \<noteq> Started"
      and ids: "map (\<lambda>x. (inst_id x, inst_activeConns x)) ys1 = map (\<lambda>x. (inst_id x, inst_activeConns x)) xs" by auto
    have all: "\<forall>i < Suc n. out (k + i) = Started"
    proof (intro allI impI)
      fix i assume "i < Suc n" then show "out (k + i) = Started" using n(2) True by (cases i) auto
    qed
    have ups: "[a..<a + Suc n] = a # [Suc a..<Suc a + n]" for a
      by (simp add: upt_conv_Cons del: upt_Suc)
    have run: "running os' = rev [next_pid os..<next_pid os + Suc n] @ running os"
      unfolding ups using n(3) se True by simp
    have "case err of None \<Rightarrow> Suc n = length (x # xs) \<and> ks = [k..<k + Suc n]
        | Some e \<Rightarrow> Suc n < length (x # xs) \<and> out (k + Suc n) = e \<and> e \<noteq> Started"
      unfolding ups using n(4) r(3) by (cases err) auto
    then show ?thesis
      using all run n(1) ids se r(2) by (intro conjI exI [of _ "Suc n"]) simp_all
  qed
qed simp

lemma StartAll_started:
  assumes "StartAll out os m = (None, os', m', ks)"
  shows "ks = [0..<length (mgr_instances m)] \<and> length (mgr_instances m') = length (mgr_instances m)
    \<and> map inst_activeConns (mgr_instances m') = map inst_activeConns (mgr_instances m)
    \<and> map inst_id (mgr_instances m') = map inst_id (mgr_instances m)"
proof -
  obtain ys where s: "start_from False out 0 os (mgr_instances m) = (None, os', ys, ks)" "m' = m\<lparr>mgr_instances := ys\<rparr>"
    using assms by (auto simp: StartAll_def split: prod.splits)
  note facts = start_all_from [OF s(1)]
  from facts have "map snd (map (\<lambda>x. (inst_id x, inst_activeConns x)) ys) = map snd (map (\<lambda>x. (inst_id x, inst_activeConns x)) (mgr_instances m))"
    by (elim conjE) (simp only:)
  then have "map inst_activeConns ys = map inst_activeConns (mgr_instances m)" by (simp add: comp_def)
  moreover from facts have "map fst (map (\<lambda>x. (inst_id x, inst_activeConns x)) ys) = map fst (map (\<lambda>x. (inst_id x, inst_activeConns x)) (mgr_instances m))"
    by (elim conjE) (simp only:)
  then have "map inst_id ys = map inst_id (mgr_instances m)" by (simp add: comp_def)
  moreover from facts have "length ys = length (mgr_instances m)" using map_eq_imp_length_eq by auto
  ultimately show ?thesis using facts s(2) by (auto simp: comp_def)
qed

lemma NewManager_idle: "NewManager cfg = Inr m \<Longrightarrow> inst \<in> set (mgr_instances m) \<Longrightarrow> inst_activeConns inst = 0"
  by (auto simp: NewManager_def new_instances_def NewInstance_def Let_def split: sum.splits)

lemma start_from_configs:
  "start_from g out k os xs = (err, os', ys, ks) \<Longrightarrow> map inst_Config ys = map inst_Config xs"
proof (induction xs arbitrary: k os err os' ys ks)
  case (Cons x xs)
  obtain res os1 x' where x: "Instance_Start (out k) os x = (res, os1, x')" by (metis prod_cases3)
  then have "inst_Config x' = inst_Config x" by (auto simp: Instance_Start_def Let_def split: if_splits)
  with Cons x show ?case by (auto split: if_splits prod.splits)
qed simp

text \<open>The running instances are those the configuration expands to.\<close>

lemma started_configs:
  assumes "NewManager cfg = Inr mgr" "StartAll out os mgr = (err, os', m, ks)" "ExpandInstances cfg = Inr expanded"
  shows "map inst_Config (mgr_instances m) = expanded"
proof -
  have "mgr_instances mgr = new_instances (mgr_binary mgr) (mgr_bufferSize mgr) expanded"
    using assms(1,3) by (auto simp: NewManager_def Let_def)
  then have "map inst_Config (mgr_instances mgr) = expanded"
    by (simp add: new_instances_def NewInstance_def comp_def split_def)
  moreover have "map inst_Config (mgr_instances m) = map inst_Config (mgr_instances mgr)"
    using assms(2) start_from_configs by (auto simp: StartAll_def split: prod.splits)
  ultimately show ?thesis by simp
qed

lemma NewManager_ids: "NewManager cfg = Inr m \<Longrightarrow> distinct (map inst_id (mgr_instances m))"
  by (auto simp: NewManager_def new_instances_def NewInstance_def Let_def comp_def enumerate_eq_zip split_def split: sum.splits)

subsection \<open>The parts at the start\<close>

lemma user_counts_new: "user_counts (Some (NewUserManager us)) (\<lambda>name ip. 0)"
  by (auto simp: user_counts_def GetUser_def NewUserManager_get new_user_ok)

text \<open>A successful start, step by step.\<close>

lemma boot_Inr:
  assumes "boot e h = (Inr p, h')"
  obtains cfg0 cfg h1 expanded mgr m ks os where "Load (bo_codec e) (bo_file e) = Inr cfg0" "find_binary e cfg0 h = (Inr cfg, h1)"
    "ExpandInstances cfg = Inr expanded" "NewManager cfg = Inr mgr" "StartAll (bo_start e) (ho_os h1) mgr = (None, os, m, ks)"
    "p = assemble e cfg expanded m ks os" "h' = h1\<lparr>ho_os := os\<rparr>"
  using assms by (auto simp: boot_def split: sum.splits prod.splits option.splits)

lemma find_binary_Inr:
  assumes "find_binary e cfg0 h = (Inr cfg, h1)"
  shows "config_ok cfg = config_ok cfg0" "ho_os h1 = ho_os h" "Instances cfg = Instances cfg0"
    "IsEmbedded e \<Longrightarrow> \<exists>dir. bo_tmpDir e = Some dir \<and> dir \<in> set (ho_tmp h1)"
  using assms by (auto simp: find_binary_def ExtractBinary_def Let_def split: if_splits option.splits)

lemma expand_nonempty:
  assumes "ExpandInstances c = Inr xs" "Instances c \<noteq> []" shows "xs \<noteq> []"
proof -
  obtain i rest where c: "Instances c = i # rest" using assms(2) by (cases "Instances c") auto
  have "expand_from 0 (Instances c) = Inr xs"
    using assms(1) by (auto simp: ExpandInstances_def split: sum.splits option.splits)
  from expand_from_indices [OF this] show ?thesis by (auto simp: c eff_replicas_def split: if_splits)
qed

text \<open>The proxy that is started, by the modes of the instances.\<close>

definition front_idle :: "front \<Rightarrow> bool" where
  "front_idle f \<longleftrightarrow>
     (case f of
        SocksFront sv \<Rightarrow> proxy_init \<lparr>px_server = sv, px_opening = 0, px_live = []\<rparr>
      | SshFront ss \<Rightarrow> proxy_init \<lparr>px_server = ss_base ss, px_opening = 0, px_live = []\<rparr> \<and> ssh_inv (ss, [])
      | NoFront \<Rightarrow> False)"

text \<open>Which proxy it is: over SSH as soon as an instance is in SSH mode; packet splitting is up to the strategy.\<close>

definition front_fits :: "Config \<Rightarrow> ExpandedInstance list \<Rightarrow> TunnelPool option \<Rightarrow> front \<Rightarrow> bool" where
  "front_fits cfg expanded pool f \<longleftrightarrow>
     (case f of
        SshFront ss \<Rightarrow> \<exists>ei \<in> set expanded. ei_Mode ei = ''ssh''
      | SocksFront sv \<Rightarrow> (\<forall>ei \<in> set expanded. ei_Mode ei \<noteq> ''ssh'')
          \<and> map_option sm_tunnelPool (sv_split sv) = pool \<and> (pool \<noteq> None \<longleftrightarrow> Strategy cfg = ''packet_split'')
      | NoFront \<Rightarrow> False)"

lemma choose_front_fits:
  assumes "expanded \<noteq> []" "pool \<noteq> None \<longleftrightarrow> Strategy cfg = ''packet_split''"
  shows "front_fits cfg expanded pool (choose_front e cfg expanded mgr bal umgr pool)"
proof -
  have "list_ex (\<lambda>ei. ei_Mode ei = ''ssh'') expanded \<or> list_ex (\<lambda>ei. ei_Mode ei \<noteq> ''ssh'') expanded"
    using assms(1) by (cases expanded) auto
  then show ?thesis
    using assms(2) by (auto simp: choose_front_def front_fits_def NewServer_def EnablePacketSplit_def Let_def list_ex_iff split: option.splits)
qed

lemma choose_front_some: "expanded \<noteq> [] \<Longrightarrow> choose_front e cfg expanded mgr bal umgr pool \<noteq> NoFront"
  by (cases expanded) (auto simp: choose_front_def Let_def)

lemma choose_front_idle:
  assumes "expanded \<noteq> []" "socks_MaxConnections (Socks cfg) < 2 ^ 63" "\<forall>inst \<in> set (mgr_instances mgr). inst_activeConns inst = 0"
    "user_counts umgr (\<lambda>name ip. 0)"
  shows "front_idle (choose_front e cfg expanded mgr bal umgr pool)"
proof -
  have "list_ex (\<lambda>ei. ei_Mode ei = ''ssh'') expanded \<or> list_ex (\<lambda>ei. ei_Mode ei \<noteq> ''ssh'') expanded"
    using assms(1) by (cases expanded) auto
  moreover have "ssh_inv (NewSSHServer a b c mgr bal umgr, [])" for a b c
    by (rule ssh.inv_init) (simp add: NewSSHServer_def)
  ultimately show ?thesis
    using assms(2-4)
    by (auto simp: choose_front_def front_idle_def proxy_init_def NewServer_def NewSSHServer_def EnablePacketSplit_def inst_counts_def
        Let_def split: option.splits)
qed

lemma assemble_pool:
  assumes "pg_tunnelPool (assemble e cfg expanded m ks os) = Some s" "distinct (map inst_id (mgr_instances m))"
  shows "pool_init s"
proof -
  have "s = TunnelPool_Start (bo_dial e) (bo_nowMs e) (HealthyInstances m) NewTunnelPool"
    using assms(1) by (auto simp: assemble_def Let_def split: if_split_asm)
  moreover have "distinct (map inst_id (HealthyInstances m))"
    using assms(2) by (simp add: HealthyInstances_def distinct_map_filter)
  ultimately show ?thesis unfolding pool_init_def by blast
qed

lemma assemble_gui:
  assumes "pg_gui (assemble e cfg expanded m ks os) = Some g" "config_ok (pg_cfg (assemble e cfg expanded m ks os))"
  shows "gui_init (map_option logins (pg_userMgr (assemble e cfg expanded m ks os))) g"
proof -
  let ?p = "assemble e cfg expanded m ks os"
  have "g = NewAPIServer m os (pg_cfg ?p) (bo_file e) (pg_userMgr ?p) (Some (pg_checker ?p))"
    using assms(1) by (auto simp: assemble_def Let_def split: if_split_asm)
  then show ?thesis using gui_init_new [OF assms(2)] by simp
qed

subsection \<open>Properties\<close>

definition sample_boot :: "(nat \<Rightarrow> start_outcome) \<Rightarrow> boot_env" where
  "sample_boot out =
     \<lparr>bo_codec = sample_codec, bo_windows = False, bo_file = Some ''{config}'', bo_enableGUI = True, bo_guiPort = [], bo_binaryData = [0x7f],
      bo_tmpDir = Some ''/tmp/slipstreamplus-1'', bo_written = True, bo_missing = (\<lambda>_. True), bo_start = out, bo_frac = (\<lambda>_ _. 0),
      bo_rand = Some [1, 2, 3, 4], bo_dial = (\<lambda>_ _. True), bo_nowMs = 1\<rparr>"

definition sample_host :: host where
  "sample_host = \<lparr>ho_os = \<lparr>running = [], next_pid = 7\<rparr>, ho_tmp = []\<rparr>"

lemma sample_boot_starts:
  obtains cfg expanded mgr where "boot (sample_boot out) sample_host =
      (case StartAll out \<lparr>running = [], next_pid = 7\<rparr> mgr of
         (Some err, os, m, ks) \<Rightarrow> (Inl (StartFailed err), \<lparr>ho_os = os, ho_tmp = [''/tmp/slipstreamplus-1'']\<rparr>)
       | (None, os, m, ks) \<Rightarrow> (Inr (assemble (sample_boot out) cfg expanded m ks os), \<lparr>ho_os = os, ho_tmp = [''/tmp/slipstreamplus-1'']\<rparr>))"
    "length (mgr_instances mgr) = 6" "socks_MaxConnections (Socks cfg) = socks_MaxConnections (Socks example_config)"
proof -
  let ?cfg = "example_config\<lparr>SlipstreamBinary := ''/tmp/slipstreamplus-1/slipstream-client''\<rparr>"
  obtain xs where xs: "ExpandInstances example_config = Inr xs" "length (map ei_Port xs) = 6"
    using example_expands by force
  have load: "Load sample_codec (Some ''{config}'') = Inr example_config"
    by (simp add: Load_def sample_codec_def Validate_ok [OF example_valid])
  obtain mgr where mgr: "NewManager ?cfg = Inr mgr" "length (mgr_instances mgr) = 6"
    using xs by (simp add: NewManager_def new_instances_def Let_def)
  show ?thesis
    by (rule that [where mgr = mgr and cfg = ?cfg and expanded = xs])
      (simp_all add: boot_def sample_boot_def sample_host_def load find_binary_def ExtractBinary_def IsEmbedded_def Let_def xs(1) mgr
        split: prod.split option.split)
qed

lemma sample_boot_up:
  obtains p h where "boot (sample_boot (\<lambda>_. Started)) sample_host = (Inr p, h)" "socks_MaxConnections (Socks (pg_cfg p)) < 2 ^ 63"
    "length (mgr_instances (pg_mgr p)) = 6"
proof -
  obtain cfg expanded mgr where b: "boot (sample_boot (\<lambda>_. Started)) sample_host =
      (case StartAll (\<lambda>_. Started) \<lparr>running = [], next_pid = 7\<rparr> mgr of
         (Some err, os, m, ks) \<Rightarrow> (Inl (StartFailed err), \<lparr>ho_os = os, ho_tmp = [''/tmp/slipstreamplus-1'']\<rparr>)
       | (None, os, m, ks) \<Rightarrow> (Inr (assemble (sample_boot (\<lambda>_. Started)) cfg expanded m ks os), \<lparr>ho_os = os, ho_tmp = [''/tmp/slipstreamplus-1'']\<rparr>))"
    and m: "length (mgr_instances mgr) = 6" and c: "socks_MaxConnections (Socks cfg) = socks_MaxConnections (Socks example_config)"
    by (rule sample_boot_starts)
  obtain err os m' ks where s: "StartAll (\<lambda>_. Started) \<lparr>running = [], next_pid = 7\<rparr> mgr = (err, os, m', ks)"
    by (cases "StartAll (\<lambda>_. Started) \<lparr>running = [], next_pid = 7\<rparr> mgr")
  then obtain ys where "start_from False (\<lambda>_. Started) 0 \<lparr>running = [], next_pid = 7\<rparr> (mgr_instances mgr) = (err, os, ys, ks)"
    by (auto simp: StartAll_def split: prod.splits)
  from start_all_from [OF this] have "err = None" by (cases err) auto
  with b s c StartAll_started [of "\<lambda>_. Started" "\<lparr>running = [], next_pid = 7\<rparr>" mgr os m' ks] m show ?thesis
    by (intro that) (auto simp: assemble_def Let_def example_config_def)
qed

lemma sample_boot_fails:
  obtains h where "boot (sample_boot (\<lambda>k. if k < 2 then Started else NoProcess)) sample_host = (Inl (StartFailed NoProcess), h)"
proof -
  let ?out = "\<lambda>k :: nat. if k < 2 then Started else NoProcess" and ?os = "\<lparr>running = [], next_pid = 7\<rparr>"
  obtain cfg expanded mgr where b: "boot (sample_boot ?out) sample_host =
      (case StartAll ?out ?os mgr of
         (Some err, os, m, ks) \<Rightarrow> (Inl (StartFailed err), \<lparr>ho_os = os, ho_tmp = [''/tmp/slipstreamplus-1'']\<rparr>)
       | (None, os, m, ks) \<Rightarrow> (Inr (assemble (sample_boot ?out) cfg expanded m ks os), \<lparr>ho_os = os, ho_tmp = [''/tmp/slipstreamplus-1'']\<rparr>))"
    and m: "length (mgr_instances mgr) = 6" by (rule sample_boot_starts)
  obtain err os ys ks where s: "start_from False ?out 0 ?os (mgr_instances mgr) = (err, os, ys, ks)"
    by (cases "start_from False ?out 0 ?os (mgr_instances mgr)")
  from start_all_from [OF s] obtain n where n: "\<forall>i < n. ?out (0 + i) = Started"
    "case err of None \<Rightarrow> n = length (mgr_instances mgr) \<and> ks = [0..<0 + n]
     | Some e \<Rightarrow> n < length (mgr_instances mgr) \<and> ?out (0 + n) = e \<and> e \<noteq> Started" by (elim conjE exE)
  have "err \<noteq> None" using n(1) [rule_format, of 5] n(2) m by (cases err) auto
  with n(2) have "err = Some NoProcess" by (auto split: if_splits)
  with b s show ?thesis by (intro that) (simp add: StartAll_def)
qed

text \<open>
  C4. The start of the program: once it has come up, its configuration is valid, one process runs per instance with its
  supervisor, the manager, the tunnel pool, the dashboard and the proxy (there always is one) are in the initial states of their transition
  systems, and so the invariants proved about these hold in every state that each of them reaches.  The proxy is the one over SSH exactly when an
  instance is in SSH mode; the other one splits packets, over the pool that was started, exactly when the strategy says so.
\<close>

theorem startup_sound:
  assumes "boot e \<lparr>ho_os = \<lparr>running = [], next_pid = pid\<rparr>, ho_tmp = tmp\<rparr> = (Inr p, h)"
    and "socks_MaxConnections (Socks (pg_cfg p)) < 2 ^ 63"
  shows "config_ok (pg_cfg p)
    \<and> mgr_init \<lparr>sys_mgr = pg_mgr p, sys_os = ho_os h, sys_sups = map (\<lambda>k. (k, SupCheck)) (pg_sups p), sys_ctl = CtlIdle\<rparr>
    \<and> pg_sups p = [0..<length (mgr_instances (pg_mgr p))] \<and> mgr_instances (pg_mgr p) \<noteq> []
    \<and> (\<forall>g. pg_gui p = Some g \<longrightarrow> gui_init (map_option logins (pg_userMgr p)) g)
    \<and> (\<forall>s. pg_tunnelPool p = Some s \<longrightarrow> pool_init s)
    \<and> front_idle (pg_front p)
    \<and> front_fits (pg_cfg p) (map inst_Config (mgr_instances (pg_mgr p))) (map_option pr_pool (pg_tunnelPool p)) (pg_front p)"
proof -
  let ?h = "\<lparr>ho_os = \<lparr>running = [], next_pid = pid\<rparr>, ho_tmp = tmp\<rparr>"
  from assms(1) obtain cfg0 cfg h1 expanded mgr m ks os where up: "Load (bo_codec e) (bo_file e) = Inr cfg0"
      "find_binary e cfg0 ?h = (Inr cfg, h1)" "ExpandInstances cfg = Inr expanded" "NewManager cfg = Inr mgr"
      "StartAll (bo_start e) (ho_os h1) mgr = (None, os, m, ks)" and p: "p = assemble e cfg expanded m ks os" "h = h1\<lparr>ho_os := os\<rparr>"
    by (rule boot_Inr)
  have cfg: "config_ok cfg" "Instances cfg \<noteq> []"
    using Load_Inr [OF up(1)] find_binary_Inr [OF up(2)] by (simp_all add: config_ok_def)
  have os: "ho_os h1 = \<lparr>running = [], next_pid = pid\<rparr>" using find_binary_Inr(2) [OF up(2)] by simp
  note started = StartAll_started [OF up(5)]
  have expanded: "expanded \<noteq> []" by (rule expand_nonempty [OF up(3) cfg(2)])
  have mgr_instances: "mgr_instances mgr \<noteq> []"
    using up(3,4) expanded by (auto simp: NewManager_def new_instances_def Let_def enumerate_eq_zip)
  have ok: "config_ok (pg_cfg p)" using cfg(1) by (simp add: p assemble_def Let_def config_ok_listen)
  have idle: "\<forall>inst \<in> set (mgr_instances m). inst_activeConns inst = 0"
  proof -
    have "inst_activeConns ` set (mgr_instances m) = inst_activeConns ` set (mgr_instances mgr)"
      using started by (metis list.set_map)
    then show ?thesis using NewManager_idle [OF up(4)] by auto
  qed
  have "front_idle (pg_front p)"
    unfolding p assemble_def Let_def using assms(2) expanded idle user_counts_new
    by (auto simp: p assemble_def Let_def user_counts_def intro!: choose_front_idle split: if_splits)
  moreover have "front_fits (pg_cfg p) (map inst_Config (mgr_instances (pg_mgr p))) (map_option pr_pool (pg_tunnelPool p)) (pg_front p)"
  proof -
    have "Strategy (pg_cfg p) = Strategy cfg" by (simp add: p assemble_def Let_def)
    then have "map_option pr_pool (pg_tunnelPool p) \<noteq> None \<longleftrightarrow> Strategy (pg_cfg p) = ''packet_split''"
      by (simp add: p assemble_def Let_def)
    moreover have "\<exists>bal um. pg_front p = choose_front e (pg_cfg p) expanded m bal um (map_option pr_pool (pg_tunnelPool p))"
      unfolding p assemble_def Let_def by auto
    moreover have "map inst_Config (mgr_instances (pg_mgr p)) = expanded"
      using started_configs [OF up(4,5,3)] by (simp add: p assemble_def Let_def)
    ultimately show ?thesis using choose_front_fits [OF expanded] by auto
  qed
  moreover have "mgr_init \<lparr>sys_mgr = m, sys_os = os, sys_sups = map (\<lambda>k. (k, SupCheck)) ks, sys_ctl = CtlIdle\<rparr>"
    unfolding mgr_init_def using up(4,5) os
    by - (rule exI [of _ cfg], rule exI [of _ mgr], rule exI [of _ "bo_start e"], rule exI [of _ pid], rule exI [of _ None],
        rule exI [of _ ks], simp)
  moreover have "distinct (map inst_id (mgr_instances m))" using NewManager_ids [OF up(4)] started by simp
  then have "pg_tunnelPool p = Some s \<Longrightarrow> pool_init s" for s using assemble_pool p(1) by blast
  moreover have "pg_gui p = Some g \<Longrightarrow> gui_init (map_option logins (pg_userMgr p)) g" for g
    using assemble_gui ok p(1) by blast
  ultimately show ?thesis
    using ok started mgr_instances by (simp add: p) (simp add: assemble_def Let_def flip: length_greater_0_conv)
qed

theorem startup_sound_witness:
  "\<exists>p h. boot (sample_boot (\<lambda>_. Started)) sample_host = (Inr p, h) \<and> pg_sups p = [0..<6] \<and> front_idle (pg_front p)"
proof -
  obtain p h where b: "boot (sample_boot (\<lambda>_. Started)) sample_host = (Inr p, h)" "socks_MaxConnections (Socks (pg_cfg p)) < 2 ^ 63"
    "length (mgr_instances (pg_mgr p)) = 6" by (rule sample_boot_up)
  from startup_sound [OF b(1) [unfolded sample_host_def] b(2)] b show ?thesis by auto
qed

text \<open>
  A start that fails: when an instance cannot be started, exactly the processes of the instances before it run, and they
  still run when the program has exited, because nobody stops them: they are in process groups of their own, and
  \<^verbatim>\<open>log.Fatalf\<close> ends only the program.
\<close>

theorem failed_start_leaves_processes:
  assumes "boot e \<lparr>ho_os = \<lparr>running = [], next_pid = pid\<rparr>, ho_tmp = tmp\<rparr> = (Inl (StartFailed err), h)"
  shows "err \<noteq> Started \<and> (\<exists>n. bo_start e n = err \<and> (\<forall>i < n. bo_start e i = Started)
    \<and> running (ho_os (exit_main e Fatal h)) = rev [pid..<pid + n])"
proof -
  from assms obtain cfg0 cfg h1 mgr m ks os where up: "find_binary e cfg0 \<lparr>ho_os = \<lparr>running = [], next_pid = pid\<rparr>, ho_tmp = tmp\<rparr> = (Inr cfg, h1)"
      "StartAll (bo_start e) (ho_os h1) mgr = (Some err, os, m, ks)" "h = h1\<lparr>ho_os := os\<rparr>"
    by (auto simp: boot_def find_binary_def split: sum.splits prod.splits option.splits if_splits)
  from find_binary_Inr(2) [OF up(1)] up(2) obtain ys where
    "start_from False (bo_start e) 0 \<lparr>running = [], next_pid = pid\<rparr> (mgr_instances mgr) = (Some err, os, ys, ks)"
    by (auto simp: StartAll_def split: prod.splits)
  from start_all_from [OF this] up(3) show ?thesis by (auto simp: exit_main_def)
qed

theorem failed_start_leaves_processes_witness:
  "\<exists>h. boot (sample_boot (\<lambda>k. if k < 2 then Started else NoProcess)) sample_host = (Inl (StartFailed NoProcess), h)
     \<and> running (ho_os (exit_main (sample_boot (\<lambda>k. if k < 2 then Started else NoProcess)) Fatal h)) = [8, 7]"
proof -
  let ?out = "\<lambda>k :: nat. if k < 2 then Started else NoProcess"
  obtain h where h: "boot (sample_boot ?out) sample_host = (Inl (StartFailed NoProcess), h)" by (rule sample_boot_fails)
  from failed_start_leaves_processes [OF h [unfolded sample_host_def]] obtain n where
    n: "bo_start (sample_boot ?out) n = NoProcess" "\<forall>i < n. bo_start (sample_boot ?out) i = Started"
      "running (ho_os (exit_main (sample_boot ?out) Fatal h)) = rev [7..<7 + n]" by auto
  have "n = 2"
    using n(1) n(2) [rule_format, of 2] by (cases "n < 2"; cases "2 < n") (simp_all add: sample_boot_def)
  with n(3) h show ?thesis by (auto simp: upt_rec)
qed

text \<open>
  An embedded binary is extracted to a temporary directory that outlives the program: \<^verbatim>\<open>main\<close> never returns, since there always is a
  proxy to run, and neither \<^verbatim>\<open>log.Fatalf\<close> nor the exit of the signal handler runs the deferred removal.
\<close>

theorem extracted_binary_left_behind:
  assumes "boot e h0 = (Inr p, h)" "IsEmbedded e" "how \<noteq> Returned"
  shows "pg_front p \<noteq> NoFront \<and> (\<exists>dir. bo_tmpDir e = Some dir \<and> dir \<in> set (ho_tmp (exit_main e how h)))"
proof -
  from assms(1) obtain cfg0 cfg h1 expanded mgr m ks os where up: "Load (bo_codec e) (bo_file e) = Inr cfg0"
      "find_binary e cfg0 h0 = (Inr cfg, h1)" "ExpandInstances cfg = Inr expanded" and p: "p = assemble e cfg expanded m ks os" "h = h1\<lparr>ho_os := os\<rparr>"
    by (rule boot_Inr)
  have "Instances cfg \<noteq> []" using Load_Inr [OF up(1)] find_binary_Inr(3) [OF up(2)] by (simp add: config_ok_def)
  from choose_front_some [OF expand_nonempty [OF up(3) this]] have "pg_front p \<noteq> NoFront"
    by (simp add: p assemble_def Let_def)
  with find_binary_Inr(4) [OF up(2) assms(2)] assms(3) p(2) show ?thesis by (simp add: exit_main_def)
qed

theorem extracted_binary_left_behind_witness:
  "\<exists>p h. boot (sample_boot (\<lambda>_. Started)) sample_host = (Inr p, h)
     \<and> ''/tmp/slipstreamplus-1'' \<in> set (ho_tmp (exit_main (sample_boot (\<lambda>_. Started)) Signalled h))"
proof -
  obtain p h where b: "boot (sample_boot (\<lambda>_. Started)) sample_host = (Inr p, h)" by (rule sample_boot_up)
  moreover have "IsEmbedded (sample_boot (\<lambda>_. Started))" "bo_tmpDir (sample_boot (\<lambda>_. Started)) = Some ''/tmp/slipstreamplus-1''"
    by (simp_all add: IsEmbedded_def sample_boot_def)
  ultimately show ?thesis using extracted_binary_left_behind [OF b, of Signalled] by auto
qed

text \<open>
  Packet-split mode: at the start the health checker probes in the mode of the configured strategy, and the tunnel pool exists in
  exactly that mode; a successful reload through the dashboard starts a checker that probes as in the other modes, also when
  the reloaded strategy is still packet splitting.
\<close>

theorem reload_forgets_packet_split:
  "(ck_packetSplit (pg_checker (assemble e cfg expanded mgr ks os)) \<longleftrightarrow> Strategy cfg = ''packet_split'')
   \<and> (pg_tunnelPool (assemble e cfg expanded mgr ks os) \<noteq> None \<longleftrightarrow> Strategy cfg = ''packet_split'')
   \<and> (gs_checker s \<noteq> None \<and> handleReload frac j reload r s = (Reply (ResultBody ''reloaded''), s') \<longrightarrow>
        (\<exists>c. gs_checker s' = Some c \<and> \<not> ck_packetSplit c \<and> \<not> ck_cancelled c))"
  by (auto simp: assemble_def Let_def SetPacketSplit_def NewChecker_def handleReload_def split: sum.splits prod.splits bool.splits if_splits)

theorem reload_forgets_packet_split_witness:
  "\<exists>s'. handleReload (\<lambda>_ _. 0) sample_codec (\<lambda>c m os. (True, m, os)) (sample_request ''/api/reload'' [])
       (sample_gui\<lparr>gs_file := Some ''{config}'', gs_checker := Some (SetPacketSplit True (NewChecker (\<lambda>_ _. 0) (HealthCheck example_config)))\<rparr>)
     = (Reply (ResultBody ''reloaded''), s') \<and> (\<exists>c. gs_checker s' = Some c \<and> \<not> ck_packetSplit c)"
proof -
  let ?s = "sample_gui\<lparr>gs_file := Some ''{config}'', gs_checker := Some (SetPacketSplit True (NewChecker (\<lambda>_ _. 0) (HealthCheck example_config)))\<rparr>"
  have "\<exists>s'. handleReload (\<lambda>_ _. 0) sample_codec (\<lambda>c m os. (True, m, os)) (sample_request ''/api/reload'' []) ?s = (Reply (ResultBody ''reloaded''), s')"
    by (simp add: handleReload_def sample_request_def Load_def sample_codec_def Validate_ok [OF example_valid] Let_def)
  then obtain s' where s': "handleReload (\<lambda>_ _. 0) sample_codec (\<lambda>c m os. (True, m, os)) (sample_request ''/api/reload'' []) ?s = (Reply (ResultBody ''reloaded''), s')" ..
  with reload_forgets_packet_split [of undefined undefined undefined undefined undefined undefined ?s "\<lambda>_ _. 0" sample_codec
      "\<lambda>c m os. (True, m, os)" "sample_request ''/api/reload'' []" s'] show ?thesis by auto
qed

text \<open>
  Mixed mode: as soon as one instance is an SSH instance the SSH proxy is the only one that is started, and every client it connects
  goes to an SSH instance; the SOCKS instances run and are probed but never serve anyone.
\<close>

theorem mixed_mode_serves_ssh_only:
  assumes "list_ex (\<lambda>ei. ei_Mode ei = ''ssh'') expanded" "open_ssh g rnd tgt user ip t = (Opened ses, out, t')"
  shows "(\<exists>ss. choose_front e cfg expanded mgr bal umgr pool = SshFront ss)
    \<and> (\<exists>inst \<in> set (HealthyInstances (sv_manager (ss_base t))). inst_id inst = se_inst ses \<and> ei_Mode (inst_Config inst) = ''ssh'')"
proof -
  obtain inst bal where "Pick rnd (sv_balancer (ss_base t)) (sshHealthy (sv_manager (ss_base t))) = (Picked inst, bal)" "inst_id inst = se_inst ses"
    using assms(2) by (auto simp: open_ssh_def Let_def split: if_splits prod.splits pick.splits sum.splits)
  with Pick_mem [OF this(1)] show ?thesis using assms(1) by (auto simp: choose_front_def sshHealthy_def Let_def)
qed

definition mixed_instances :: "Instance list" where
  "mixed_instances =
     [SetState StateHealthy sample_instance,
      SetState StateHealthy (NewInstance 1 ((inst_Config sample_instance)\<lparr>ei_Mode := ''ssh'', ei_SSHUser := ''ann'', ei_SSHPassword := ''pw''\<rparr>)
        ''slipstream'' 65536)]"

definition mixed_server :: SSHServer where
  "mixed_server = NewSSHServer ''127.0.0.1:1080'' 65536 100
     \<lparr>mgr_instances = mixed_instances, mgr_binary = ''slipstream'', mgr_bufferSize = 65536, mgr_ctxDone = False\<rparr> (New ''round_robin'') None"

theorem mixed_mode_serves_ssh_only_witness:
  "\<exists>ses out t'. open_ssh (sample_ssh_env\<lparr>sg_target := \<lambda>_ _. True\<rparr>) (\<lambda>_. 0) (1, [10, 0, 0, 1], [0, 80]) None ''192.0.2.7'' mixed_server = (Opened ses, out, t')
     \<and> se_inst ses = 1 \<and> (\<exists>ss. choose_front (sample_boot (\<lambda>_. Started)) example_config (map inst_Config mixed_instances)
          (sv_manager (ss_base mixed_server)) (New ''round_robin'') None None = SshFront ss)"
proof -
  let ?e = "sample_ssh_env\<lparr>sg_target := \<lambda>_ _. True\<rparr>"
  have "\<exists>ses out t'. open_ssh ?e (\<lambda>_. 0) (1, [10, 0, 0, 1], [0, 80]) None ''192.0.2.7'' mixed_server = (Opened ses, out, t') \<and> se_inst ses = 1"
    by (simp add: open_ssh_def mixed_server_def mixed_instances_def sshHealthy_def HealthyInstances_def IsHealthy_def SetState_def NewServer_def
        New_def RoundRobin_Pick_def pick_at_def go_index_def set_base_def Let_def ssh_eval)
  then obtain ses out t' where o: "open_ssh ?e (\<lambda>_. 0) (1, [10, 0, 0, 1], [0, 80]) None ''192.0.2.7'' mixed_server = (Opened ses, out, t')"
    "se_inst ses = 1" by (elim exE conjE)
  have "list_ex (\<lambda>ei. ei_Mode ei = ''ssh'') (map inst_Config mixed_instances)"
    by (simp add: mixed_instances_def SetState_def NewInstance_def)
  from mixed_mode_serves_ssh_only [OF this o(1)] o show ?thesis by blast
qed

end
