(* ===== verification/Spec2Isabelle.thy ===== *)
theory Spec2Isabelle
  imports Protocol Reorder Configuration Durations Engine Stopping Health Balancer Users Pool PoolRun Splitter Central CentralMain Passthrough Proxy Idle Ssh Gui Startup
begin

text \<open>
  SlipstreamPlus runs several instances of a DNS tunnel client and offers them to SOCKS5 clients as one proxy.  Two
  programs belong to it.  \<^verbatim>\<open>cmd/slipstreamplus\<close> reads a configuration, starts and supervises the instances, probes
  their health, and serves clients: each connection goes through one instance that a balancer picks, or, in packet-split
  mode, is cut into numbered frames that travel over all instances.  \<^verbatim>\<open>cmd/centralserver\<close> stands at the far end of
  packet-split mode, puts the frames of a connection back into order and relays the bytes to an upstream proxy.

  \<^bold>\<open>The parts, the theories that model them, and what is shown.\<close>  Definitions carry the names of the Go functions;
  a method \<^verbatim>\<open>T.M\<close> whose name is not unique is called \<open>T_M\<close>.

  \<^item> \<open>Prelude\<close>, \<open>GoStd\<close>, \<open>Durations\<close>: the language and the library.  Words for \<^verbatim>\<open>uint32\<close> and \<^verbatim>\<open>uint64\<close>, integers with the
    wrap-around written out (\<open>i64\<close>) for \<^verbatim>\<open>int\<close> and \<^verbatim>\<open>int64\<close>, slices that may be \<^verbatim>\<open>nil\<close>, maps in the order in which
    \<^verbatim>\<open>range\<close> may visit them (locale \<open>go_map\<close>), byte streams that end in an error, buffered channels, instants; text functions,
    \<^verbatim>\<open>strconv\<close>, \<^verbatim>\<open>time.ParseDuration\<close>.  The locale \<open>invariant_system\<close> carries every proof of an invariant of a step relation.
  \<^item> \<open>Protocol\<close> (\<^verbatim>\<open>tunnel/protocol.go\<close>): frames, their encoding, connection ids, the SYN payload.  The locale \<open>frame_codec\<close>
    states what a reader of a stream relies on; reading accepts exactly the encodings of frames, and a stream of frames is read
    back as it was written.
  \<^item> \<open>Reorder\<close> (\<^verbatim>\<open>tunnel/reorder.go\<close>): the buffer of out-of-order payloads.  The locale \<open>reassembler\<close> is its contract, used by
    both ends: numbered payloads in any order and with repetitions come out in order, once; a gap is skipped after
    the grace period; the delivery loop terminates and stops only when nothing can be delivered.
  \<^item> \<open>Pool\<close> (\<^verbatim>\<open>tunnel/pool.go\<close>, \<^verbatim>\<open>tunnelconn.go\<close>): the persistent connections of each instance, the handlers of the client
    connections, sending with fail-over, refreshing, the read loop.  \<^verbatim>\<open>SendFrame\<close> puts a frame on exactly one connection or fails,
    never panics, and keeps streams aligned on frame boundaries while nobody else writes to them; the locale \<open>frame_sender\<close> is what the splitter relies on.  \<open>PoolRun\<close> is the running pool: a step relation of
    its ticker, readers, senders, clients and \<^verbatim>\<open>Stop\<close>, under which it stays well formed, every open connection is pooled, and it
    is read until \<^verbatim>\<open>Stop\<close> is called.
  \<^item> \<open>Weighted\<close>, \<open>Splitter\<close> (\<^verbatim>\<open>tunnel/splitter.go\<close>): the splitter of one client connection, both relay directions, the weighted
    choice of an instance, which refines the weighted round robin of \<open>Weighted\<close>.
  \<^item> \<open>Balancer\<close> (\<^verbatim>\<open>internal/balancer\<close>): the five strategies behind the locale \<open>balancer\<close>; an offered instance is returned
    whenever there is one, and the weighted strategy refines \<open>Weighted\<close> too.
  \<^item> \<open>Configuration\<close> (\<^verbatim>\<open>internal/config\<close>): records, ports, expansion into instances, validation.  A configuration that
    passes is complete and validating it again changes nothing; no two instances share a port.
  \<^item> \<open>Engine\<close> (\<^verbatim>\<open>internal/engine\<close>): instances, the manager and the supervisors.  A step relation interleaves crashes, supervisors,
    verdicts of the health checker, manual restarts, shutdown and reload; restarts never overlap and shutdown leaves no
    process unless a restart was under way, in which case it can.  \<open>Stopping\<close> shows that shutdown and reload return, with the
    locale \<open>terminating_system\<close> (an enabled step while there is work, and a measure that each step lowers).
  \<^item> \<open>Health\<close> (\<^verbatim>\<open>internal/health\<close>): probes and verdicts.  A round steps every instance by its own verdict, and the
    sequences of results that make it unhealthy and healthy are characterised.
  \<^item> \<open>Users\<close> (\<^verbatim>\<open>internal/users\<close>): quota, address limit, cooldown, authentication, the counting and limiting readers and
    writers.  The locale \<open>access_control\<close> is what the proxy relies on: counts are exact and the limit holds when admissions
    do not interleave.
  \<^item> \<open>Socks\<close>, \<open>Proxy\<close>, \<open>Idle\<close> (\<^verbatim>\<open>proxy/socks5.go\<close>, \<^verbatim>\<open>relay.go\<close>, \<^verbatim>\<open>idle.go\<close>): the handler of a client from its greeting to its last
    counter.  Who is admitted, that both directions pass on exactly what they read (locale \<open>copier\<close>, interpreted for the plain
    and the two limited ways to copy), and that the counters of the proxy, the instances and the users are exact in every
    interleaving of connections.  \<open>Idle\<close> has the deadlines of a relay, which end a direction by its own silence.
  \<^item> \<open>Ssh\<close> (\<^verbatim>\<open>proxy/ssh.go\<close>): the same over SSH, how targets are written, and the table of SSH clients with the calls of
    \<^verbatim>\<open>getSSHClient\<close> split at every lock: clients are neither lost nor used after closing while calls for one instance do not overlap, and a
    client can leak when they do.
  \<^item> \<open>Central\<close> (\<^verbatim>\<open>cmd/centralserver\<close>): the table of connections, the dispatcher of frames, upstream connections, cleaning up.  An
    invariant of every reachable server, and the reassembly of a connection among any other traffic, its handlers again split at
    every lock (\<open>conn_event\<close>), with each circumstance it needs as a predicate on the events of the run (\<open>always\<close>).  \<open>Passthrough\<close> is the
    other thing it does with a connection: join it with the upstream proxy.  \<open>CentralMain\<close> is the program around it; a whole
    handler is shown to be a run of the steps of the server, so that its invariant holds in every state of the program.
  \<^item> \<open>Gui\<close> (\<^verbatim>\<open>internal/gui\<close>, and \<^verbatim>\<open>Load\<close> and \<^verbatim>\<open>Save\<close> of the configuration): the handlers of the HTTP API as functions from a request
    and a state to a response and a state; what is saved can be loaded, user changes are exact, and they do not reach the proxy.
  \<^item> \<open>Startup\<close> (\<^verbatim>\<open>cmd/slipstreamplus/main.go\<close>, \<^verbatim>\<open>internal/embedded\<close>): the wiring.  A program that has come up has every
    part in the initial state of its step relation, so that the invariants above apply to it.
  \<^item> This theory composes the two ends: the bytes a client sends are the bytes written to the upstream, the bytes the
    upstream answers are the bytes the client is sent, and the target the client asks for is the one in the CONNECT request the server
    writes, over whichever tunnels, in whichever order and with whichever repetitions the frames arrive after the SYN, as long as no frame is late
    by more than the grace period, no queue overflows, no write fails, chunks are queued in the order in which they are collected, and nothing
    closes the connection; each of these is a hypothesis of the theorems.

  \<^bold>\<open>Conventions.\<close>  An operation is a function that returns its result and the new state; errors are values of a sum or
  option type, and a run-time panic is a value too.  What comes from outside is an argument: clock readings, what a
  peer sends, whether a dial or a write succeeds and how much it writes, random numbers, whether a process starts, the JSON
  translation of \<^verbatim>\<open>encoding/json\<close>, the calls into \<^verbatim>\<open>golang.org/x/crypto/ssh\<close>.  Pointers that are shared become addresses into a list
  (\<open>tp_heap\<close>, \<open>cs_states\<close>, \<open>cs_srcs\<close>).  Where goroutines interleave in a way that matters, a critical section is one step of an
  inductive relation; where the code leaves a gap between two critical sections, the theory has them as separate steps.

  \<^bold>\<open>Steps that are coarser than the code.\<close>  Opening a proxied connection, up to the first byte relayed, is one step of \<open>proxy_step\<close>, and
  so is the \<^verbatim>\<open>getSSHClient\<close> inside an opening over SSH; the other steps of that relation exclude a reload, which replaces the instances and starts
  their connection counts afresh.  A \<^verbatim>\<open>SendFrame\<close> is one step, and a write that fails is closed behind in the same step (\<open>torn_write_race\<close> is about
  what can come between).  A check of an instance is one step, and checks of one instance do not overlap.  The handlers of the HTTP API run one at
  a time, although the code starts them concurrently and without a lock.  \<^verbatim>\<open>handleFIN\<close> queues its last chunks in the step that collects them.  A reload
  rebuilds the manager and starts the instances in one step once the old supervisors are gone.  The predicates \<open>stale_conn\<close> and \<open>keep_conn\<close>
  are the code's own conditions and have no second formulation.

  \<^bold>\<open>Loops.\<close>  No loop has fuel.  Reading loops terminate because every round consumes bytes of a finite stream, the delivery
  loops because every delivery empties the buffer by one, retry loops because they are bounded in the code.  Loops
  that run for ever (the accept loops, tickers, supervisors) are step relations, or functions over the list of their rounds.

  \<^bold>\<open>Findings.\<close>  Some theorems show that the code does not do what it means to: a user changed through the dashboard never reaches
  the proxy, a failed start leaves processes behind, the checker forgets packet-split mode on a reload, an IPv6 target that does not map an
  IPv4 address is never reached over SSH, traffic of a limited user is charged twice in packet-split mode, data behind a FIN is
  dropped, a stop of the pool can leave connections open, frames of two tunnels can be queued in the wrong order, a tunnel can be mistaken for a SOCKS client, among others.

  \<^bold>\<open>Not modelled.\<close>  The HTML page (\<^verbatim>\<open>gui/dashboard.go\<close>) and the variables that hold the embedded binary are constants; socket
  options, keep-alive settings and log output have no effect on the state; the variants for Windows.  Memory-level data races (the unsynchronised counters of the weighted balancer) are outside the model, in which the balancer is
  called by one connection at a time.
\<close>

subsection \<open>From the client to the upstream\<close>

lemma stream_frame_data:
  "i < length ds \<Longrightarrow> stream_frame c s ((!) ds) i = data_frames c s ds ! i"
  by (simp add: stream_frame_def data_frames_def)

lemma stream_frame_inj:
  assumes "stream_frame c s dat i = stream_frame c s dat' j" "i < 2 ^ 32" "j < 2 ^ 32"
  shows "i = j"
proof -
  have "s + word_of_nat i = s + word_of_nat j" using assms(1) by (simp add: stream_frame_def)
  then have "(word_of_nat i :: u32) = word_of_nat j" by simp
  then show ?thesis using assms(2,3) by (simp add: word_of_nat_eq_iff take_bit_nat_eq_self)
qed

text \<open>If every data frame that was sent arrived, the events contain every index.\<close>

lemma delivered_arrive:
  assumes "set (data_frames c 1 ds) \<subseteq> wire" "length ds < 2 ^ 32" "arrived es \<subseteq> {..<length ds}"
    and "\<forall>g \<in> wire. ConnID g = c \<and> Flags g = FlagData \<longrightarrow> (\<exists>i \<in> arrived es. g = stream_frame c 1 ((!) ds) i)"
  shows "{..<length ds} \<subseteq> arrived es"
proof
  fix i assume i: "i \<in> {..<length ds}"
  then have "stream_frame c 1 ((!) ds) i \<in> set (data_frames c 1 ds)"
    by (simp add: stream_frame_data) (simp add: data_frames_def)
  moreover have "ConnID (stream_frame c 1 ((!) ds) i) = c \<and> Flags (stream_frame c 1 ((!) ds) i) = FlagData"
    by (simp add: stream_frame_def)
  ultimately obtain j where "j \<in> arrived es" "stream_frame c 1 ((!) ds) i = stream_frame c 1 ((!) ds) j"
    using assms(1,4) by blast
  with assms(2,3) i show "i \<in> arrived es" using stream_frame_inj [of c 1 "(!) ds" i "(!) ds" j] by auto
qed

lemma concat_tx_chunks: "concat (tx_chunks n rs) = concat (map (\<lambda>r. take (nat n) (tr_data r)) rs)"
  by (induction rs) (auto simp: tx_chunks_def)

lemma SendSYN_outcome:
  assumes "SendSYN pool_send env atyp addr port ps p = (b, ps', p')" "pool_inv p" "ps_ok ps"
  shows "pool_inv p' \<and> ps_ok ps' \<and> ps_txSeq ps' = ps_txSeq ps + 1 \<and> ps_connID ps' = ps_connID ps
    \<and> ps_chunkSize ps' = ps_chunkSize ps"
  using assms pool.send_all_wire [OF assms(2)]
  by (auto simp: SendSYN_def next_frame_def split: prod.splits)

text \<open>
  C1. End to end.  A new splitter opens a connection and relays what the client sends, every send succeeding.  The SYN has been
  handled by the server before any data frame is; from then on every data frame the splitter put on the tunnels arrives, over
  any tunnels, in any order and repeatedly, while the rest of the server goes on.  The circumstances are those of \<open>central_reassembles\<close>, each a
  hypothesis: no frame is missing for more than two seconds, the write queue has room, the handlers of the connection queue
  their chunks in the order in which they collected them, the upstream connects and takes every write, and nothing closes the connection.  When
  handlers and writer have caught up, the bytes written to the upstream are exactly the bytes the client sent.
\<close>

theorem client_bytes_reach_upstream:
  assumes split: "NewPacketSplitter c p00 xs n = (ps0, p0)" "fleet_ok xs" "pool_inv p0"
    and open_conn: "SendSYN pool_send env atyp addr port ps0 p0 = (b, ps, p)" "valid_addr atyp addr" "length port = 2"
    and relay: "RelayClientToUpstream pool_send rs 0 [] ps p = (Running, tot, sent, ps', p')"
      "length sent = length ds" "ds = tx_chunks n rs" "length ds + 1 < 2 ^ 32"
    and server: "central_step\<^sup>*\<^sup>* new_server cs" "src < length (cs_srcs cs)" "gm_get (cs_conns cs) c = None"
      "a = length (cs_states cs)"
    and syn_first: "start = (dispatchFrame clk (fst (next_frame FlagSYN (Some (EncodeSYNPayload atyp addr port)) ps0)) src cs, [])"
    and frames: "always (of_stream (length ds)) c a 1 ((!) ds) es start"
    and timely: "always (no_long_gap a) c a 1 ((!) ds) es start"
    and room: "always (queue_room a) c a 1 ((!) ds) es start"
    and order: "always queue_in_turn c a 1 ((!) ds) es start"
    and connect: "always (connects_once a) c a 1 ((!) ds) es start" "connects es"
    and writes: "always upstream_takes c a 1 ((!) ds) es start"
    and others: "always (undisturbed c a) c a 1 ((!) ds) es start"
    and run: "conn_events c a 1 ((!) ds) es start = (cs', pend)"
    and caught_up: "st_queue (state_at cs' a) = []" "pend = []"
    and delivery: "\<forall>g \<in> pool_wire p'. ConnID g = c \<and> Flags g = FlagData \<longrightarrow> (\<exists>i \<in> arrived es. g = stream_frame c 1 ((!) ds) i)"
  shows "concat (st_upstream (state_at cs' a)) = concat (map (\<lambda>r. take (nat n) (tr_data r)) rs)"
proof -
  let ?syn = "fst (next_frame FlagSYN (Some (EncodeSYNPayload atyp addr port)) ps0)"
  have ps0: "ps_ok ps0" "ps_connID ps0 = c" "ps_txSeq ps0 = 0" "ps_chunkSize ps0 = n"
    using NewPacketSplitter_ok [OF split(2), of c p00 n] split(1) by simp_all
  have ps: "pool_inv p" "ps_ok ps" "ps_connID ps = c" "ps_txSeq ps = 1" "ps_chunkSize ps = n"
    using SendSYN_outcome [OF open_conn(1) split(3) ps0(1)] ps0 by simp_all
  obtain ds' rest fs where w: "ds = ds' @ rest" "sent = [] @ fs" "numbered_prefix pool_wire pool_inv ps p ds' fs ps' p'"
      "Running = Running \<longrightarrow> rest = []"
    using pool.relay_wire [OF relay(1) ps(1,2)] unfolding ps relay(3) by (elim exE conjE)
  then have sent: "sent = data_frames c 1 ds" "set sent \<subseteq> pool_wire p'"
    using relay(2) ps by (auto simp: numbered_prefix_def)
  have "{..<length ds} \<subseteq> arrived es"
    using sent delivery always_arrived [OF frames] relay(4) by (intro delivered_arrive) auto
  then have all: "arrived es = {..<length ds}" using always_arrived [OF frames] by blast
  have syn: "?syn = \<lparr>ConnID = c, SeqNum = 0, Flags = FlagSYN, Payload = Some (EncodeSYNPayload atyp addr port)\<rparr>"
    using ps0 by (simp add: next_frame_def)
  have dec: "DecodeSYNPayload (EncodeSYNPayload atyp addr port) = Inr (atyp, addr, port)"
    using DecodeSYNPayload_Encode [OF open_conn(2,3), of "[]"] by simp
  have inv: "central_inv cs" using central.reachable_inv server(1) by blast
  have "unat ((0 :: u32) + 1) + length ds < 2 ^ 32" using relay(4) by simp
  from conn_holds_syn(1) [OF inv server(2,3) dec this refl, where dat = "(!) ds" and clk = clk]
  have "conn_holds c a 1 ((!) ds) (length ds) {} 0 start" unfolding syn_first syn server(4) by simp
  from conn_events_holds [OF this always_fair [OF frames timely room order connect(1) writes others]] obtain m where
    m: "conn_holds c a 1 ((!) ds) (length ds) ({} \<union> arrived es) m (cs', pend)" "writing a (cs', pend)"
    unfolding run using connect(2) by blast
  then have "m = length ds" using conn_holds_complete [OF m(1)] by (simp add: all)
  then have "st_upstream (state_at cs' a) = ds" using m(1) caught_up by (simp add: conn_holds_def map_nth)
  then show ?thesis by (simp only: concat_tx_chunks relay(3))
qed

text \<open>A fleet of one instance with one tunnel, and a client that sends one byte.\<close>

definition tiny_pool :: TunnelPool where
  "tiny_pool = refreshConnections (\<lambda>_ k. k = 0) 5 [sample_instance] NewTunnelPool"

lemmas pool_eval =
  refreshConnections_def NewTunnelPool_def Let_def ConnsPerInstance_def sample_instance_def NewInstance_def
  connectInstance_def gm_get_def gm_put_def conns_of_def

lemma tiny_pool_eq: "tiny_pool =
    \<lparr>tp_heap = [\<lparr>tc_inst = 0, tc_closed = False, tc_lastRead = 5, tc_lastWrite = 0, tc_out = []\<rparr>],
     tp_conns = [(0, [0])], tp_chans = [], tp_handlers = [], tp_stopped = False, tp_ready = True, tp_roundRobin = 0\<rparr>"
  by (simp add: tiny_pool_def pool_eval numeral_eq_Suc)

definition tiny_split :: "PacketSplitter \<times> TunnelPool" where
  "tiny_split = NewPacketSplitter 9 tiny_pool [sample_instance] 8192"

definition tiny_syn :: "bool \<times> PacketSplitter \<times> TunnelPool" where
  "tiny_syn = SendSYN pool_send (\<lambda>_. (\<lambda>_. WroteAll, 6)) 1 [10, 0, 0, 1] [0, 80] (fst tiny_split) (snd tiny_split)"

definition tiny_relay :: "relay_status \<times> int \<times> Frame list \<times> PacketSplitter \<times> TunnelPool" where
  "tiny_relay = RelayClientToUpstream pool_send [sample_round [7]] 0 [] (fst (snd tiny_syn)) (snd (snd tiny_syn))"

definition tiny_events :: "conn_event list" where
  "tiny_events = [Data (\<lambda>_. 0) 0 0, Connected (\<lambda>_. 0), Queued 0, Written False (\<lambda>_. WroteAll)]"

lemma smod_one [simp]: "(a :: int) smod 1 = 0"
  by (simp add: signed_modulo_int_def)

lemmas relay_eval =
  tiny_relay_def tiny_syn_def SendSYN_def tiny_split_def NewPacketSplitter_def RegisterConn_def tiny_pool_eq recalcWeights_def
  pool_eval next_frame_def pool_send_def SendFrame_def writeFrame_def sample_round_def inner_write_def WriteFrame_def
  MaxPayloadSize_def pickInstance_def send_failover_def go_index_def EncodeSYNPayload_def i64_def close_at_def

lemma tiny_relay_sends: "fst tiny_relay = Running" "length (fst (snd (snd tiny_relay))) = 1"
  by (simp_all add: relay_eval numeral_2_eq_2)

lemma tiny_fleet: "fleet_ok [sample_instance]"
  by (simp add: fleet_ok_def sample_instance_def NewInstance_def max_i64_def)

lemma tiny_split_inv: "pool_inv (snd tiny_split)" "pool_wire (snd tiny_split) = {}"
proof -
  have "pool_inv tiny_pool"
    using refreshConnections_spec [OF pool_inv_new _ tiny_pool_def [unfolded atomize_eq]] by simp
  then show "pool_inv (snd tiny_split)"
    using pool_inv_RegisterConn [of tiny_pool 9] by (simp add: tiny_split_def NewPacketSplitter_def split_beta)
  show "pool_wire (snd tiny_split) = {}"
    by (simp add: tiny_split_def NewPacketSplitter_def RegisterConn_def tiny_pool_eq Let_def pool_wire_def heap_wire_def
      frames_on_def frames.dec_all_end)
qed

lemma tiny_wire:
  assumes "tiny_syn = (b, ps, p)" "tiny_relay = (Running, tot, sent, ps', p')"
  shows "pool_wire p' \<subseteq> {sample_syn 9, stream_frame 9 1 ((!) [[7]]) 0}"
proof -
  note new = NewPacketSplitter_ok [OF tiny_fleet, of 9 tiny_pool 8192, folded tiny_split_def]
  have syn: "fst (next_frame FlagSYN (Some (EncodeSYNPayload 1 [10, 0, 0, 1] [0, 80])) (fst tiny_split)) = sample_syn 9"
    using new by (simp add: next_frame_def sample_syn_def EncodeSYNPayload_def)
  have ps: "pool_inv p" "ps_ok ps" "ps_connID ps = 9" "ps_txSeq ps = 1" "ps_chunkSize ps = 8192"
    using SendSYN_outcome [OF assms(1) [unfolded tiny_syn_def] tiny_split_inv(1) new(1)] new by simp_all
  have "norm_frame (sample_syn 9) = sample_syn 9" by (simp add: norm_frame_def sample_syn_def)
  then have wp: "pool_wire p \<subseteq> {sample_syn 9}"
    using assms(1) pool.send_all_wire [OF tiny_split_inv(1)] tiny_split_inv(2) syn
    by (fastforce simp: tiny_syn_def SendSYN_def split: prod.splits)
  have "RelayClientToUpstream pool_send [sample_round [7]] 0 [] ps p = (Running, tot, sent, ps', p')"
    using assms(2) unfolding tiny_relay_def assms(1) by (simp only: fst_conv snd_conv)
  from pool.relay_wire [OF this ps(1,2)] obtain ds fs where
    "tx_chunks 8192 [sample_round [7]] = ds" "numbered_prefix pool_wire pool_inv ps p ds fs ps' p'"
    unfolding ps by auto
  moreover have "tx_chunks 8192 [sample_round [7]] = [[7]]" by (simp add: tx_chunks_def sample_round_def)
  ultimately show ?thesis using wp ps by (auto simp: numbered_prefix_def data_frames_def stream_frame_def)
qed

theorem client_bytes_reach_upstream_witness:
  "concat (st_upstream (state_at (fst (conn_events 9 0 1 ((!) [[7]]) tiny_events (open_server, []))) 0)) = [7]"
proof -
  let ?ds = "[[7]] :: bytes list"
  have syn: "fst (next_frame FlagSYN (Some (EncodeSYNPayload 1 [10, 0, 0, 1] [0, 80])) (fst tiny_split)) = sample_syn 9"
    using NewPacketSplitter_ok [OF tiny_fleet, of 9 tiny_pool 8192]
    by (simp add: next_frame_def tiny_split_def sample_syn_def EncodeSYNPayload_def)
  obtain cs' where run: "conn_events 9 0 1 ((!) ?ds) tiny_events (open_server, []) = (cs', [])" "st_queue (state_at cs' 0) = []"
    by (simp add: tiny_events_def open_server_eq central_eval)
  obtain b ps p where s: "tiny_syn = (b, ps, p)" by (cases tiny_syn)
  obtain st tot sent ps' p' where r': "tiny_relay = (st, tot, sent, ps', p')" by (cases tiny_relay)
  have st: "st = Running" and len: "length sent = 1" using tiny_relay_sends unfolding r' by simp_all
  note r = r' [unfolded st]
  have "concat (st_upstream (state_at cs' 0)) = concat (map (\<lambda>r. take (nat 8192) (tr_data r)) [sample_round [7]])"
  proof (rule client_bytes_reach_upstream [OF _ tiny_fleet tiny_split_inv(1) s [unfolded tiny_syn_def] _ _ _ _ _ _
        sample_server_reachable _ _ _ _ _ _ _ _ _ _ _ _ run(1,2) refl])
    show "RelayClientToUpstream pool_send [sample_round [7]] 0 [] ps p = (Running, tot, sent, ps', p')"
      using r unfolding tiny_relay_def s by (simp only: fst_conv snd_conv)
    show "\<forall>g \<in> pool_wire p'. ConnID g = 9 \<and> Flags g = FlagData \<longrightarrow> (\<exists>i \<in> arrived tiny_events. g = stream_frame 9 1 ((!) ?ds) i)"
      using tiny_wire [OF s r] by (auto simp: arrived_def tiny_events_def sample_syn_def go_simps)
    show "(open_server, []) = (dispatchFrame (\<lambda>_. 0)
        (fst (next_frame FlagSYN (Some (EncodeSYNPayload 1 [10, 0, 0, 1] [0, 80])) (fst tiny_split))) 0 sample_server, [])"
      by (simp add: syn open_server_def)
    show "?ds = tx_chunks 8192 [sample_round [7]]" by (simp add: tx_chunks_def sample_round_def)
    show "NewPacketSplitter 9 tiny_pool [sample_instance] 8192 = (fst tiny_split, snd tiny_split)" by (simp add: tiny_split_def)
  qed (simp_all add: len valid_addr_def connects_def tiny_events_def open_server_eq central_eval)
  then show ?thesis using run(1) by (simp add: sample_round_def)
qed

subsection \<open>From the upstream to the client\<close>

lemma length_reverse_frames [simp]: "length (reverse_frames c q ds) = length ds"
  by (induction ds arbitrary: q) auto

lemma reverse_frames_nth:
  "i < length ds \<Longrightarrow> reverse_frames c q ds ! i = reverse_frame c (q + word_of_nat i) (ds ! i)"
  by (induction ds arbitrary: q i) (auto simp: reverse_frame_def nth_Cons algebra_simps split: nat.split)

lemma reverse_frame_inj:
  assumes "reverse_frame c (word_of_nat i) d = reverse_frame c (word_of_nat j) d'" "i < 2 ^ 32" "j < 2 ^ 32"
  shows "i = j"
proof -
  have "(word_of_nat i :: u32) = word_of_nat j" using assms(1) by (simp add: reverse_frame_def)
  then show ?thesis using assms(2,3) by (simp add: word_of_nat_eq_iff take_bit_nat_eq_self)
qed

lemma in_share: "i < length fs \<Longrightarrow> length tgt = length fs \<Longrightarrow> fs ! i \<in> set (share (tgt ! i) tgt fs)"
  unfolding share_def by (auto simp: image_iff set_zip intro!: exI [of _ "tgt ! i"] exI [of _ i])

lemma share_subset: "set (share s tgt fs) \<subseteq> set fs"
  unfolding share_def by (auto dest: set_zip_rightD)

text \<open>What the peer of a tunnel decodes when the stream starts with whole frames.\<close>

definition tunnel_frames :: "centralServer \<Rightarrow> nat \<Rightarrow> Frame set" where
  "tunnel_frames cs s = set (fst (ReadFrames \<lparr>rd_data = sc_out (cs_srcs cs ! s), rd_end = EOF\<rparr>))"

lemma tunnel_frames_append:
  assumes "sc_out (cs_srcs cs ! s) = concat (map encode_frame fs)" "\<forall>f \<in> set fs. payload_len f \<le> MaxPayloadSize"
  shows "tunnel_frames cs s = norm_frame ` set fs"
  using assms frames.dec_all_concat [of fs EOF] by (simp add: tunnel_frames_def list_all_iff)

lemma relayed_frame_on_tunnel:
  assumes server: "central_step\<^sup>*\<^sup>* new_server cs" "gm_get (cs_conns cs) c = Some a" "st = state_at cs a"
      "st_sources st \<noteq> []" "0 \<le> st_sourceIdx st" "st_sourceIdx st + int (length rs) + int (length (st_sources st)) < 2 ^ 63"
      "st_txSeq st = 0"
    and whole: "\<forall>s < length (cs_srcs cs). \<exists>fs. sc_out (cs_srcs cs ! s) = concat (map encode_frame fs)
        \<and> (\<forall>f \<in> set fs. payload_len f \<le> MaxPayloadSize)"
    and rounds: "list_all good_round rs" "relayUpstreamToTunnel rs c a cs = Some (b, cs')"
    and i: "i < length rs"
  shows "\<exists>s < length (cs_srcs cs'). reverse_frame c (word_of_nat i) (ur_data (rs ! i)) \<in> tunnel_frames cs' s"
proof -
  let ?fs = "reverse_frames c 0 (map ur_data rs)" and ?f = "reverse_frame c (word_of_nat i) (ur_data (rs ! i))"
  have inv: "central_inv cs" by (rule central.reachable_inv [OF refl server(1)])
  then have "relay_ready c a (length rs) cs" using server by (simp add: relay_ready_def)
  from relay_partition [OF this rounds(1)] rounds(2) obtain tgt where
    tgt: "length tgt = length rs" "set tgt \<subseteq> set (st_sources st)" "length (cs_srcs cs') = length (cs_srcs cs)"
      "\<forall>s < length (cs_srcs cs). sc_out (cs_srcs cs' ! s) = sc_out (cs_srcs cs ! s) @ concat (map encode_frame (share s tgt ?fs))"
    using server(3,7) by auto
  have valid: "payload_len f \<le> MaxPayloadSize \<and> norm_frame f = f" if "f \<in> set ?fs" for f
    using that rounds(1)
    by (auto simp: in_set_conv_nth reverse_frames_nth reverse_frame_def good_round_def list_all_length norm_frame_def)
  have f: "?fs ! i = ?f" using i reverse_frames_nth [of i "map ur_data rs" c 0] by simp
  have "tgt ! i \<in> set (st_sources st)" using tgt(1,2) i by (metis nth_mem subsetD)
  then have s: "tgt ! i < length (cs_srcs cs)"
    using central_inv_at(3) [OF inv server(2)] server(3) by (simp add: state_ok_def)
  with whole obtain gs where gs: "sc_out (cs_srcs cs ! (tgt ! i)) = concat (map encode_frame gs)"
      "\<forall>f \<in> set gs. payload_len f \<le> MaxPayloadSize" by blast
  have "sc_out (cs_srcs cs' ! (tgt ! i)) = concat (map encode_frame (gs @ share (tgt ! i) tgt ?fs))" using tgt(4) s gs(1) by simp
  from tunnel_frames_append [OF this] gs(2) valid share_subset [of "tgt ! i" tgt ?fs]
  have "tunnel_frames cs' (tgt ! i) = norm_frame ` set (gs @ share (tgt ! i) tgt ?fs)" by auto
  moreover have "?f \<in> set (share (tgt ! i) tgt ?fs)" using in_share [of i ?fs tgt] i tgt(1) f by simp
  moreover have "norm_frame ?f = ?f" using valid [of ?f] f i by (metis length_map length_reverse_frames nth_mem)
  ultimately have "?f \<in> tunnel_frames cs' (tgt ! i)" by (metis UnCI image_eqI set_append)
  with s tgt(3) show ?thesis by auto
qed

text \<open>
  C2. End to end, the other way.  One relay of a connection, which has sent nothing yet (its counter is at 0), runs without interruption, and its
  tunnels accept every write.  Then the server numbers what it reads from the upstream and spreads it over the tunnels.  If every reverse
  frame on them reaches the client's splitter, in any order and any number of times, but none so late that the reorderer's grace period of two
  seconds runs out on a gap (\<open>timely_arrivals\<close>; otherwise the gap is skipped and its bytes are lost), the client is sent exactly the
  bytes the upstream sent.
\<close>

theorem upstream_bytes_reach_client:
  assumes server: "central_step\<^sup>*\<^sup>* new_server cs" "gm_get (cs_conns cs) c = Some a" "st = state_at cs a"
      "st_sources st \<noteq> []" "0 \<le> st_sourceIdx st" "st_sourceIdx st + int (length rs) + int (length (st_sources st)) < 2 ^ 63"
      "st_txSeq st = 0"
    and whole: "\<forall>s < length (cs_srcs cs). \<exists>fs. sc_out (cs_srcs cs ! s) = concat (map encode_frame fs)
        \<and> (\<forall>f \<in> set fs. payload_len f \<le> MaxPayloadSize)"
    and rounds: "list_all good_round rs" "length rs < 2 ^ 32" "relayUpstreamToTunnel rs c a cs = Some (b, cs')"
    and delivery: "\<forall>s < length (cs_srcs cs'). \<forall>g \<in> tunnel_frames cs' s. ConnID g = c \<and> Flags g = FlagReverse \<longrightarrow>
        (\<exists>i \<in> snd ` set cis. i < length rs \<and> g = reverse_frame c (word_of_nat i) (ur_data (rs ! i)))"
    and client: "snd ` set cis \<subseteq> {..<length rs}"
      "timely_arrivals ro_timely Reorderer_arrive (numbered 0 (\<lambda>i. ur_data (rs ! i)) cis) NewReorderer"
  shows "\<exists>s'. RelayUpstreamToClient (rx_arrivals c (\<lambda>i. ur_data (rs ! i)) cis) (rx_init now) = (Running, s')
    \<and> concat (rx_client s') = concat (map ur_data rs)"
proof -
  let ?dat = "\<lambda>i. ur_data (rs ! i)"
  have "i \<in> snd ` set cis" if i: "i < length rs" for i
  proof -
    let ?f = "reverse_frame c (word_of_nat i) (?dat i)"
    obtain s where s: "s < length (cs_srcs cs')" "?f \<in> tunnel_frames cs' s"
      using relayed_frame_on_tunnel [OF server whole rounds(1,3) i] by blast
    have "ConnID ?f = c \<and> Flags ?f = FlagReverse" by (simp add: reverse_frame_def)
    with delivery s obtain j where "j \<in> snd ` set cis" "j < length rs" "?f = reverse_frame c (word_of_nat j) (?dat j)"
      by blast
    then show ?thesis using reverse_frame_inj [of c i _ j] i rounds(2) by auto
  qed
  then have all: "snd ` set cis = {..<length rs}" using client(1) by auto
  have ne: "\<forall>i \<in> snd ` set cis. ?dat i \<noteq> []" using client(1) rounds(1) by (auto simp: list_all_length good_round_def)
  from relay_rx [OF ne, of c "rx_init now"] obtain s' where
    s': "RelayUpstreamToClient (rx_arrivals c ?dat cis) (rx_init now) = (Running, s')"
      "rx_client s' = fst (arrivals Reorderer_arrive (numbered 0 ?dat cis) NewReorderer)"
    by (auto simp: rx_init_def)
  have "ro_holds 0 ?dat (length rs) {} 0 NewReorderer"
    unfolding NewReorderer_At using rounds(2) by (intro ro_holds_new) simp
  from ro.arrivals_complete [OF this all client(2)] s' have "rx_client s' = map ?dat [0..<length rs]" by simp
  also have "\<dots> = map ur_data rs" by (rule nth_equalityI) simp_all
  finally show ?thesis using s'(1) by auto
qed

definition sample_reply :: "bytes \<Rightarrow> up_round" where
  "sample_reply d = \<lparr>ur_now = 0, ur_data = d, ur_err = False, ur_out = (\<lambda>_. WroteAll)\<rparr>"

theorem upstream_bytes_reach_client_witness:
  "\<exists>s'. RelayUpstreamToClient (rx_arrivals 9 (\<lambda>i. ur_data ([sample_reply [1], sample_reply [2]] ! i)) [(\<lambda>_. 1, 1), (\<lambda>_. 2, 0)]) (rx_init 0)
      = (Running, s') \<and> concat (rx_client s') = [1, 2]"
proof -
  let ?rs = "[sample_reply [1], sample_reply [2]]"
  let ?cis = "[(\<lambda>_. 1, 1), (\<lambda>_. 2, 0)] :: ((nat \<Rightarrow> time) \<times> nat) list"
  have st: "st_sources (state_at open_server 0) = [0]" "st_sourceIdx (state_at open_server 0) = 0"
      "st_txSeq (state_at open_server 0) = 0" "cs_srcs open_server = [\<lparr>sc_out = []\<rparr>]"
    by (simp_all add: open_server_def sample_syn_def sample_syn_payload central_eval)
  have good: "list_all good_round ?rs" by (simp add: good_round_def sample_reply_def MaxPayloadSize_def)
  have "relay_ready 9 0 (length ?rs) open_server"
    using central.reachable_inv [OF refl open_server_reachable] open_server_conn by (simp add: relay_ready_def st)
  from relay_partition [OF this good] obtain cs' tgt where rel: "relayUpstreamToTunnel ?rs 9 0 open_server = Some (False, cs')"
      "length (cs_srcs cs') = 1" "sc_out (cs_srcs cs' ! 0) = concat (map encode_frame (share 0 tgt (reverse_frames 9 0 [[1], [2]])))"
    by (auto simp: st sample_reply_def)
  let ?fs = "reverse_frames 9 0 [[1], [2]]"
  have fs: "?fs = [reverse_frame 9 0 [1], reverse_frame 9 1 [2]]" by (simp add: reverse_frame_def)
  have "tunnel_frames cs' 0 = norm_frame ` set (share 0 tgt ?fs)"
    by (rule tunnel_frames_append [OF rel(3)])
      (use share_subset [of 0 tgt ?fs] in \<open>auto simp: MaxPayloadSize_def\<close>)
  also have "\<dots> \<subseteq> {reverse_frame 9 0 [1], reverse_frame 9 1 [2]}"
    using share_subset [of 0 tgt ?fs] unfolding fs by (auto simp: reverse_frame_def norm_frame_def)
  finally have tf: "tunnel_frames cs' 0 \<subseteq> {reverse_frame 9 0 [1], reverse_frame 9 1 [2]}" .
  have "\<exists>s'. RelayUpstreamToClient (rx_arrivals 9 (\<lambda>i. ur_data (?rs ! i)) ?cis) (rx_init 0) = (Running, s')
      \<and> concat (rx_client s') = concat (map ur_data ?rs)"
  proof (rule upstream_bytes_reach_client [OF open_server_reachable open_server_conn refl _ _ _ _ _ good _ rel(1)])
    show "\<forall>s < length (cs_srcs cs'). \<forall>g \<in> tunnel_frames cs' s. ConnID g = 9 \<and> Flags g = FlagReverse \<longrightarrow>
        (\<exists>i \<in> snd ` set ?cis. i < length ?rs \<and> g = reverse_frame 9 (word_of_nat i) (ur_data (?rs ! i)))"
      using tf rel(2) by (auto simp: sample_reply_def)
    show "timely_arrivals ro_timely Reorderer_arrive (numbered 0 (\<lambda>i. ur_data (?rs ! i)) ?cis) NewReorderer"
      by (simp add: sample_reply_def numbered_def NewReorderer_def ro_timely_def ro_expired_def Reorderer_arrive_def
        Reorderer_Insert_def Reorderer_drain.simps Reorderer_Next_def gm_get_def gm_put_def gm_del_def
        gm_len_def second_def time_sub_def)
  qed (auto simp: st intro: exI [of _ "[]"])
  then show ?thesis by (simp add: sample_reply_def)
qed

subsection \<open>The target of a connection\<close>

text \<open>What a SOCKS5 server reads in the bytes that open an upstream connection.\<close>

lemma connectUpstream_writes:
  assumes "connectUpstream res out clk c a atyp addr port cs = Some (w, up, cs')"
  shows "prefix w (greeting [0] @ connect_message 5 0 atyp addr port)"
    "res = Answer r \<Longrightarrow> w = greeting [0] @ connect_message 5 0 atyp addr port"
proof -
  have "socks_request atyp addr port = greeting [0] @ connect_message 5 0 atyp addr port"
    by (simp add: socks_request_def greeting_def connect_message_def)
  with assms have "prefix w (greeting [0] @ connect_message 5 0 atyp addr port)
      \<and> (\<forall>r. res = Answer r \<longrightarrow> w = greeting [0] @ connect_message 5 0 atyp addr port)"
    by (auto simp: connectUpstream_def Let_def take_is_prefix simp del: take_append
      split: connect_outcome.splits option.splits prod.splits)
  then show "prefix w (greeting [0] @ connect_message 5 0 atyp addr port)"
    "res = Answer r \<Longrightarrow> w = greeting [0] @ connect_message 5 0 atyp addr port" by blast+
qed

text \<open>
  C3. The requested target.  When the proxy answers a client's request with success in packet-split mode, a SYN frame of the client's
  connection is on a tunnel.  Whichever server state it arrives in, unless another SYN of this connection was faster, the server starts an
  upstream connection with the address type, the address and the port of the request, byte for byte.  What it then writes to the upstream
  proxy, before it reads anything, is a greeting and the CONNECT request for this very target (a prefix of them if the write fails), and a
  SOCKS5 server that reads the request, like the one of \<^verbatim>\<open>internal/proxy\<close>, obtains exactly the client's address type, address and port.
\<close>

theorem requested_target_reaches_server:
  assumes "read_request r1 = (Some (atyp, addr, port), out1, r2)" "pool_inv (sm_tunnelPool sm)"
    and "open_split e (atyp, addr, port) user ip sm s = (Opened ses, out, s')"
    and msg: "msg = greeting [0] @ connect_message 5 0 atyp addr port"
  shows "\<exists>ver rsv ps sm' f. rd_data r1 = connect_message ver rsv atyp addr port @ rd_data r2
    \<and> se_split ses = Some ps \<and> sv_split s' = Some sm' \<and> f \<in> pool_wire (sm_tunnelPool sm')
    \<and> ConnID f = ps_connID ps \<and> Flags f = FlagSYN
    \<and> (\<forall>now src cs. gm_get (cs_conns cs) (ps_connID ps) = None \<longrightarrow>
         fst (handleSYN now f src cs) = Some (length (cs_states cs), atyp, addr, port)
         \<and> (\<forall>r r' out clk cs2. read_reply r = Some r' \<longrightarrow>
              (\<exists>chunks cs3. start_upstream (Answer r) out clk (ConnID f) (fst (handleSYN now f src cs)) cs2 = Some (msg, Some (r', chunks), cs3)))
         \<and> (\<forall>res out clk cs2 w up cs3. start_upstream res out clk (ConnID f) (fst (handleSYN now f src cs)) cs2 = Some (w, up, cs3) \<longrightarrow>
              prefix w msg \<and> (\<forall>r. res = Answer r \<longrightarrow> w = msg)))
    \<and> read_request \<lparr>rd_data = connect_message 5 0 atyp addr port, rd_end = ee\<rparr> = (Some (atyp, addr, port), [], \<lparr>rd_data = [], rd_end = ee\<rparr>)"
proof -
  obtain track rest where h: "socksHealthy (sv_manager s) = track # rest"
    using assms(3) by (cases "socksHealthy (sv_manager s)") (auto simp: open_split_def split: if_splits)
  obtain cid gen where g: "ConnIDGenerator_Next (sm_connIDGen sm) = (cid, gen)" by fastforce
  obtain ps p1 where n: "NewPacketSplitter cid (sm_tunnelPool sm) (track # rest) (sm_chunkSize sm) = (ps, p1)" by fastforce
  obtain b ps2 p2 where y: "SendSYN pool_send (re_syn e) atyp addr port ps p1 = (b, ps2, p2)" by (metis prod_cases3)
  have o: "b" "se_split ses = Some ps2" "sv_split s' = Some (sm\<lparr>sm_tunnelPool := p2, sm_connIDGen := gen\<rparr>)"
    using assms(3) by (auto simp: open_split_def h g n y Let_def split: if_splits bool.splits)
  have inv: "pool_inv p1" using pool_inv_RegisterConn [OF assms(2), of cid] n by (auto simp: NewPacketSplitter_def split_beta)
  let ?f = "\<lparr>ConnID = ps_connID ps2, SeqNum = ps_txSeq ps, Flags = FlagSYN, Payload = Some (EncodeSYNPayload atyp addr port)\<rparr>"
  have f: "?f \<in> pool_wire p2"
  proof -
    obtain k where "send_all pool_send (re_syn e) ?f (ps_instances ps2) p1 = (k, p2)" "k \<noteq> 0"
      using y o(1) by (auto simp: SendSYN_def next_frame_def split: prod.splits)
    moreover have "norm_frame ?f = ?f" by (simp add: norm_frame_def EncodeSYNPayload_def)
    ultimately show ?thesis using pool.send_all_sent [OF inv] by metis
  qed
  obtain ver rsv where r: "rd_data r1 = connect_message ver rsv atyp addr port @ rd_data r2" "valid_addr atyp addr" "length port = 2"
    using assms(1) unfolding read_request_iff by (elim exE conjE)
  have syn: "fst (handleSYN now ?f src cs) = Some (length (cs_states cs), atyp, addr, port)"
    if "gm_get (cs_conns cs) (ps_connID ps2) = None" for now src cs
    using that DecodeSYNPayload_Encode [OF r(2,3), of "[]"] by (simp add: handleSYN_def Let_def)
  have writes: "\<exists>chunks cs3. start_upstream (Answer r) out clk cc (fst (handleSYN now ?f src cs)) cs2 = Some (msg, Some (r', chunks), cs3)"
    if n: "gm_get (cs_conns cs) (ps_connID ps2) = None" and rep: "read_reply r = Some r'" for now src cs r r' out clk cc cs2
  proof -
    let ?a = "length (cs_states cs)"
    obtain chunks cs3 where u: "upstream_ready clk ?a cs2 = (chunks, cs3)" by fastforce
    then have c: "connectUpstream (Answer r) out clk cc ?a atyp addr port cs2 = Some (socks_request atyp addr port, Some (r', chunks), cs3)"
      using rep by (simp add: connectUpstream_def Let_def)
    with connectUpstream_writes(2) [OF this] msg show ?thesis by (simp add: start_upstream_def syn [OF n])
  qed
  have wrote: "prefix w msg \<and> (\<forall>r. res = Answer r \<longrightarrow> w = msg)"
    if "gm_get (cs_conns cs) (ps_connID ps2) = None"
      "start_upstream res out clk cc (fst (handleSYN now ?f src cs)) cs2 = Some (w, up, cs3)" for now src cs res out clk cc cs2 w up cs3
  proof -
    have "connectUpstream res out clk cc (length (cs_states cs)) atyp addr port cs2 = Some (w, up, cs3)"
      using that by (simp add: start_upstream_def syn)
    from connectUpstream_writes [OF this] show ?thesis unfolding msg by blast
  qed
  have read: "read_request \<lparr>rd_data = connect_message 5 0 atyp addr port, rd_end = ee\<rparr> = (Some (atyp, addr, port), [], \<lparr>rd_data = [], rd_end = ee\<rparr>)"
    unfolding read_request_iff using r(2,3) by auto
  show ?thesis
    by (rule exI [of _ ver], rule exI [of _ rsv], rule exI [of _ ps2], rule exI [of _ "sm\<lparr>sm_tunnelPool := p2, sm_connIDGen := gen\<rparr>"],
        rule exI [of _ ?f]) (use r(1) o(2,3) f syn writes wrote read in simp)
qed

definition tiny_mode :: split_mode where
  "tiny_mode = \<lparr>sm_tunnelPool = tiny_pool, sm_connIDGen = NewConnIDGenerator (Some [0, 0, 0, 8]), sm_chunkSize = 8192\<rparr>"

lemma tiny_mode_opens:
  "\<exists>ses out s'. open_split (ce_route sample_env) (1, [10, 0, 0, 1], [0, 80]) None ''192.0.2.7'' tiny_mode sample_proxy = (Opened ses, out, s')"
proof -
  have "HasTunnels tiny_pool" by (simp add: HasTunnels_def tiny_pool_eq)
  moreover have "socksHealthy (sv_manager sample_proxy) = [SetState StateHealthy sample_instance]"
    by (simp add: socksHealthy_def HealthyInstances_def sample_proxy_def NewServer_def IsHealthy_def SetState_def sample_instance_def NewInstance_def)
  moreover obtain cid gen where "ConnIDGenerator_Next (sm_connIDGen tiny_mode) = (cid, gen)" by fastforce
  moreover have "\<exists>ps2 p2. SendSYN pool_send (re_syn (ce_route sample_env)) 1 [10, 0, 0, 1] [0, 80]
      (fst (NewPacketSplitter cid tiny_pool [SetState StateHealthy sample_instance] 8192))
      (snd (NewPacketSplitter cid tiny_pool [SetState StateHealthy sample_instance] 8192)) = (True, ps2, p2)" for cid
    by (simp add: relay_eval sample_env_def SetState_def)
  ultimately show ?thesis
    by (simp add: open_split_def tiny_mode_def Let_def split: prod.split bool.split) (metis fst_conv snd_conv prod.inject)
qed

theorem requested_target_reaches_server_witness:
  "\<exists>ses out s' sm' f. open_split (ce_route sample_env) (1, [10, 0, 0, 1], [0, 80]) None ''192.0.2.7'' tiny_mode sample_proxy = (Opened ses, out, s')
     \<and> sv_split s' = Some sm' \<and> f \<in> pool_wire (sm_tunnelPool sm')
     \<and> fst (handleSYN 0 f 0 new_server) = Some (0, 1, [10, 0, 0, 1], [0, 80])
     \<and> (\<exists>up cs3. start_upstream (Answer \<lparr>rd_data = replicate 12 0, rd_end = EOF\<rparr>) (\<lambda>_. WroteAll) (\<lambda>_. 0) (ConnID f)
          (fst (handleSYN 0 f 0 new_server)) new_server = Some ([5, 1, 0, 5, 1, 0, 1, 10, 0, 0, 1, 0, 80], up, cs3))"
proof -
  obtain ses out s' where o: "open_split (ce_route sample_env) (1, [10, 0, 0, 1], [0, 80]) None ''192.0.2.7'' tiny_mode sample_proxy = (Opened ses, out, s')"
    using tiny_mode_opens by (elim exE)
  have q: "read_request \<lparr>rd_data = connect_message 5 0 1 [10, 0, 0, 1] [0, 80], rd_end = EOF\<rparr>
      = (Some (1, [10, 0, 0, 1], [0, 80]), [], \<lparr>rd_data = [], rd_end = EOF\<rparr>)"
    unfolding read_request_iff by (auto simp: valid_addr_def)
  have inv: "pool_inv (sm_tunnelPool tiny_mode)"
    using refreshConnections_spec [OF pool_inv_new _ tiny_pool_def [unfolded atomize_eq]] by (simp add: tiny_mode_def)
  let ?r = "\<lparr>rd_data = replicate 12 0, rd_end = EOF\<rparr>"
  have rep: "read_reply ?r = Some \<lparr>rd_data = [], rd_end = EOF\<rparr>" by (simp add: read_reply_def ReadFull_def)
  from requested_target_reaches_server [OF q inv o refl, of EOF] obtain ps :: PacketSplitter and sm' f where
    f: "sv_split s' = Some sm'" "f \<in> pool_wire (sm_tunnelPool sm')" and
    syn: "\<forall>now src cs. gm_get (cs_conns cs) (ps_connID ps) = None \<longrightarrow>
       fst (handleSYN now f src cs) = Some (length (cs_states cs), 1, [10, 0, 0, 1], [0, 80])
       \<and> (\<forall>r r' out clk cs2. read_reply r = Some r' \<longrightarrow> (\<exists>chunks cs3. start_upstream (Answer r) out clk (ConnID f)
           (fst (handleSYN now f src cs)) cs2 = Some (greeting [0] @ connect_message 5 0 1 [10, 0, 0, 1] [0, 80], Some (r', chunks), cs3)))"
    by (elim exE conjE) blast
  have new: "gm_get (cs_conns new_server) (ps_connID ps) = None" "length (cs_states new_server) = 0"
    by (simp_all add: new_server_def)
  have msg: "greeting [0] @ connect_message 5 0 1 [10, 0, 0, 1] [0, 80] = [5, 1, 0, 5, 1, 0, 1, 10, 0, 0, 1, 0, 80]"
    by (simp add: greeting_def connect_message_def)
  from syn new rep obtain chunks cs3 where "fst (handleSYN 0 f 0 new_server) = Some (0, 1, [10, 0, 0, 1], [0, 80])"
    "start_upstream (Answer ?r) (\<lambda>_. WroteAll) (\<lambda>_. 0) (ConnID f) (fst (handleSYN 0 f 0 new_server)) new_server
       = Some ([5, 1, 0, 5, 1, 0, 1, 10, 0, 0, 1, 0, 80], Some (\<lparr>rd_data = [], rd_end = EOF\<rparr>, chunks), cs3)"
    unfolding msg by metis
  then show ?thesis using o f by (intro exI conjI) auto
qed

end
